(* ===== verification/Prelude.thy ===== *)
theory Prelude
  imports Main "HOL-Library.Word"
begin

text \<open>
  Shared vocabulary of the development: the C integer types of \<^verbatim>\<open>kernel/types.h\<close>, the outcome
  of a kernel call (return, panic, going to sleep) with its sequencing operator, little-endian
  encodings of C integers in byte arrays, and array splicing (what \<^verbatim>\<open>memmove\<close> into the middle of
  an array does).
\<close>

unbundle bit_operations_syntax

named_theorems res_simps \<open>rewrite rules for outcomes\<close>

section \<open>C integer types\<close>

type_synonym uint8 = "8 word"
type_synonym uint16 = "16 word"
type_synonym uint32 = "32 word"
type_synonym uint64 = "64 word"
type_synonym byte = "8 word"

section \<open>Names of the kernel's locks and sleep channels\<close>

text \<open>
  A spin lock and a sleep channel are addresses of kernel objects. Distinct objects have distinct
  addresses, so the model names them by constructors. A sleep lock sits in a buffer of the block
  cache or in an entry of the inode table.
\<close>

datatype slid = SL_buf nat | SL_inode nat

datatype lockid =
    L_kmem | L_bcache | L_log | L_itable | L_ftable | L_wait | L_pid | L_ticks | L_cons
  | L_uart | L_vdisk | L_pr
  | L_proc nat
  | L_pipe uint64
  | L_sleep slid

datatype chan =
    Ch_log
  | Ch_sleeplock slid
  | Ch_proc nat
  | Ch_ticks
  | Ch_pipe_nread uint64
  | Ch_pipe_nwrite uint64
  | Ch_cons_r
  | Ch_uart_tx_r
  | Ch_disk_free
  | Ch_buf nat

section \<open>Outcomes of kernel code\<close>

text \<open>
  Kernel code run in state \<open>s\<close> either returns a value and a state, or calls \<^verbatim>\<open>panic\<close> (which never
  returns), or gives up the processor in \<^verbatim>\<open>sleep(chan, lk)\<close>. \<open>Sleep c s\<close> is the state at the
  moment of the switch; what the call does after the matching \<^verbatim>\<open>wakeup\<close> is not part of the value.
  Loops that sleep and look again (pipes, the log, \<^verbatim>\<open>wait\<close>) are therefore given as resumable
  rounds where their interleaving matters.
\<close>

datatype ('s, 'a) res = Ret 'a 's | Panic string | Sleep chan 's

text \<open>Sequencing: run the first call, hand its value and state to the rest.\<close>

fun bnd :: "('s, 'a) res \<Rightarrow> ('a \<Rightarrow> 's \<Rightarrow> ('s, 'b) res) \<Rightarrow> ('s, 'b) res" where
  "bnd (Ret a s) f = f a s"
| "bnd (Panic e) f = Panic e"
| "bnd (Sleep c s) f = Sleep c s"

lemma bnd_eq_Ret [res_simps]:
  "bnd m f = Ret b t \<longleftrightarrow> (\<exists>a s. m = Ret a s \<and> f a s = Ret b t)"
  by (cases m) auto

lemma bnd_eq_Panic [res_simps]:
  "bnd m f = Panic e \<longleftrightarrow> m = Panic e \<or> (\<exists>a s. m = Ret a s \<and> f a s = Panic e)"
  by (cases m) auto

lemma bnd_eq_Sleep [res_simps]:
  "bnd m f = Sleep c t \<longleftrightarrow> m = Sleep c t \<or> (\<exists>a s. m = Ret a s \<and> f a s = Sleep c t)"
  by (cases m) auto

lemma bnd_assoc: "bnd (bnd m f) g = bnd m (\<lambda>a s. bnd (f a s) g)"
  by (cases m) auto

lemma bnd_cong [fundef_cong]:
  "m = m' \<Longrightarrow> (\<And>a s. m' = Ret a s \<Longrightarrow> f a s = g a s) \<Longrightarrow> bnd m f = bnd m' g"
  by (cases m') auto

text \<open>A C \<^verbatim>\<open>for\<close> loop over a fixed list of indices.\<close>

fun foreach :: "'x list \<Rightarrow> ('x \<Rightarrow> 's \<Rightarrow> ('s, unit) res) \<Rightarrow> 's \<Rightarrow> ('s, unit) res" where
  "foreach [] f s = Ret () s"
| "foreach (x # xs) f s = bnd (f x s) (\<lambda>_. foreach xs f)"

lemma foreach_append: "foreach (xs @ ys) f s = bnd (foreach xs f s) (\<lambda>_. foreach ys f)"
proof (induction xs arbitrary: s)
  case Nil
  then show ?case by simp
next
  case (Cons x xs)
  then show ?case by (cases "f x s") auto
qed

lemma foreach_Ret:
  assumes "\<And>x s. x \<in> set xs \<Longrightarrow> P s \<Longrightarrow> f x s = Ret () (g x s) \<and> P (g x s)"
    and "P s"
  shows "foreach xs f s = Ret () (fold g xs s) \<and> P (fold g xs s)"
  using assms by (induction xs arbitrary: s) auto

section \<open>Splicing arrays\<close>

text \<open>\<open>splice bs o xs\<close> overwrites the array \<open>bs\<close> at offset \<open>o\<close> with \<open>xs\<close>.\<close>

definition splice :: "'a list \<Rightarrow> nat \<Rightarrow> 'a list \<Rightarrow> 'a list" where
  "splice bs off xs = take off bs @ xs @ drop (off + length xs) bs"

definition slice :: "nat \<Rightarrow> nat \<Rightarrow> 'a list \<Rightarrow> 'a list" where
  "slice off n bs = take n (drop off bs)"

lemma length_splice [simp]: "off + length xs \<le> length bs \<Longrightarrow> length (splice bs off xs) = length bs"
  by (simp add: splice_def)

lemma nth_splice:
  assumes "off + length xs \<le> length bs" "i < length bs"
  shows "splice bs off xs ! i = (if off \<le> i \<and> i < off + length xs then xs ! (i - off) else bs ! i)"
  using assms by (auto simp: splice_def nth_append min_def)

lemma length_slice [simp]: "off + n \<le> length bs \<Longrightarrow> length (slice off n bs) = n"
  by (simp add: slice_def)

lemma nth_slice: "off + n \<le> length bs \<Longrightarrow> i < n \<Longrightarrow> slice off n bs ! i = bs ! (off + i)"
  by (simp add: slice_def)

lemma slice_splice_same:
  "off + length xs \<le> length bs \<Longrightarrow> slice off (length xs) (splice bs off xs) = xs"
  by (intro nth_equalityI) (auto simp: nth_slice nth_splice)

lemma slice_splice_other:
  assumes "off + length xs \<le> length bs" "o' + n \<le> length bs" "o' + n \<le> off \<or> off + length xs \<le> o'"
  shows "slice o' n (splice bs off xs) = slice o' n bs"
  using assms by (intro nth_equalityI) (auto simp: nth_slice nth_splice)

lemma splice_whole: "length xs = length bs \<Longrightarrow> splice bs 0 xs = xs"
  by (simp add: splice_def)

section \<open>Little-endian integers\<close>

text \<open>The bytes of an integer as RISC-V stores them, least significant first, and back.\<close>

definition le_enc :: "nat \<Rightarrow> 'a::len word \<Rightarrow> byte list" where
  "le_enc n w = map (\<lambda>i. ucast (drop_bit (8 * i) w)) [0..<n]"

fun le_dec :: "byte list \<Rightarrow> 'a::len word" where
  "le_dec [] = 0"
| "le_dec (b # bs) = ucast b OR push_bit 8 (le_dec bs)"

lemma length_le_enc [simp]: "length (le_enc n w) = n"
  by (simp add: le_enc_def)

lemma bit_le_dec:
  "bit (le_dec bs :: 'a::len word) k \<longleftrightarrow>
     k < LENGTH('a) \<and> k div 8 < length bs \<and> bit (bs ! (k div 8)) (k mod 8)"
proof (induction bs arbitrary: k)
  case Nil
  then show ?case by simp
next
  case (Cons b bs)
  show ?case
  proof (cases "k < 8")
    case True
    then show ?thesis by (auto simp: bit_simps)
  next
    case False
    then have d: "k div 8 = Suc ((k - 8) div 8)" and m: "(k - 8) mod 8 = k mod 8"
      by (simp_all add: le_div_geq le_mod_geq)
    have nb: "\<not> bit b k"
      using False by (auto dest: bit_imp_le_length)
    show ?thesis
      using False by (auto simp: bit_simps d m nb Cons.IH)
  qed
qed

lemma le_dec_enc: "LENGTH('a) = 8 * n \<Longrightarrow> le_dec (le_enc n w) = (w :: 'a::len word)"
  by (rule bit_word_eqI) (auto simp: bit_le_dec le_enc_def bit_simps algebra_simps)

lemma le_enc_dec:
  assumes "length bs = n" "LENGTH('a) = 8 * n"
  shows "le_enc n (le_dec bs :: 'a::len word) = bs"
proof (rule nth_equalityI)
  show "length (le_enc n (le_dec bs :: 'a word)) = length bs"
    using assms by simp
next
  fix i assume i: "i < length (le_enc n (le_dec bs :: 'a word))"
  show "le_enc n (le_dec bs :: 'a word) ! i = bs ! i"
  proof (rule bit_word_eqI)
    fix k assume k: "k < LENGTH(8)"
    from k have "(8 * i + k) div 8 = i" "(8 * i + k) mod 8 = k" by auto
    with assms i k show "bit (le_enc n (le_dec bs :: 'a word) ! i) k = bit (bs ! i) k"
      by (auto simp: le_enc_def bit_simps bit_le_dec)
  qed
qed

text \<open>Reading and writing 16- and 32-bit fields of a byte array.\<close>

definition rd16 :: "byte list \<Rightarrow> nat \<Rightarrow> uint16" where
  "rd16 bs off = le_dec (slice off 2 bs)"

definition wr16 :: "byte list \<Rightarrow> nat \<Rightarrow> uint16 \<Rightarrow> byte list" where
  "wr16 bs off v = splice bs off (le_enc 2 v)"

definition rd32 :: "byte list \<Rightarrow> nat \<Rightarrow> uint32" where
  "rd32 bs off = le_dec (slice off 4 bs)"

definition wr32 :: "byte list \<Rightarrow> nat \<Rightarrow> uint32 \<Rightarrow> byte list" where
  "wr32 bs off v = splice bs off (le_enc 4 v)"

lemma length_wr [simp]:
  "off + 2 \<le> length bs \<Longrightarrow> length (wr16 bs off v) = length bs"
  "off + 4 \<le> length bs \<Longrightarrow> length (wr32 bs off w) = length bs"
  by (simp_all add: wr16_def wr32_def)

lemma rd_wr_same:
  "off + 2 \<le> length bs \<Longrightarrow> rd16 (wr16 bs off v) off = v"
  "off + 4 \<le> length bs \<Longrightarrow> rd32 (wr32 bs off w) off = w"
  using slice_splice_same [of off "le_enc 2 v" bs] slice_splice_same [of off "le_enc 4 w" bs]
  by (simp_all add: rd16_def wr16_def rd32_def wr32_def le_dec_enc)

lemma rd_wr_other:
  "off + 2 \<le> length bs \<Longrightarrow> p + 2 \<le> length bs \<Longrightarrow> p + 2 \<le> off \<or> off + 2 \<le> p \<Longrightarrow>
     rd16 (wr16 bs off v) p = rd16 bs p"
  "off + 4 \<le> length bs \<Longrightarrow> p + 4 \<le> length bs \<Longrightarrow> p + 4 \<le> off \<or> off + 4 \<le> p \<Longrightarrow>
     rd32 (wr32 bs off w) p = rd32 bs p"
  "off + 2 \<le> length bs \<Longrightarrow> p + 4 \<le> length bs \<Longrightarrow> p + 4 \<le> off \<or> off + 2 \<le> p \<Longrightarrow>
     rd32 (wr16 bs off v) p = rd32 bs p"
  "off + 4 \<le> length bs \<Longrightarrow> p + 2 \<le> length bs \<Longrightarrow> p + 2 \<le> off \<or> off + 4 \<le> p \<Longrightarrow>
     rd16 (wr32 bs off w) p = rd16 bs p"
  by (simp_all add: rd16_def wr16_def rd32_def wr32_def slice_splice_other)

end
