(* ===== verification/Kstate.thy ===== *)
theory Kstate
  imports Prelude
begin

text \<open>
  The part of the kernel state every component uses: the process table (\<^verbatim>\<open>kernel/proc.h\<close>), the
  process the executing hart runs (\<^verbatim>\<open>mycpu()->proc\<close>), the spin locks that hart holds, and the
  characters sent to the console. Other components extend the record \<open>kstate\<close> with their own
  globals. On it: taking and releasing a spin lock as the executing hart sees it, \<^verbatim>\<open>sleep\<close>,
  \<^verbatim>\<open>wakeup\<close>, \<^verbatim>\<open>sched\<close>, \<^verbatim>\<open>yield\<close>, \<^verbatim>\<open>kill\<close>, \<^verbatim>\<open>killed\<close> and \<^verbatim>\<open>setkilled\<close> of \<^verbatim>\<open>kernel/proc.c\<close>.
\<close>

section \<open>Parameters and the process table\<close>

definition NPROC :: nat where "NPROC = 64"
definition NOFILE :: nat where "NOFILE = 16"

text \<open>C's 32-bit \<^verbatim>\<open>int\<close>; comparisons read it with \<^term>\<open>sint\<close>.\<close>

type_synonym cint = "32 word"

datatype procstate = UNUSED | USED | SLEEPING | RUNNABLE | RUNNING | ZOMBIE

record struct_context =
  c_ra :: uint64
  c_sp :: uint64
  c_s0 :: uint64
  c_s1 :: uint64
  c_s2 :: uint64
  c_s3 :: uint64
  c_s4 :: uint64
  c_s5 :: uint64
  c_s6 :: uint64
  c_s7 :: uint64
  c_s8 :: uint64
  c_s9 :: uint64
  c_s10 :: uint64
  c_s11 :: uint64

record trapframe =
  tf_kernel_satp :: uint64
  tf_kernel_sp :: uint64
  tf_kernel_trap :: uint64
  tf_epc :: uint64
  tf_kernel_hartid :: uint64
  tf_ra :: uint64
  tf_sp :: uint64
  tf_gp :: uint64
  tf_tp :: uint64
  tf_t0 :: uint64
  tf_t1 :: uint64
  tf_t2 :: uint64
  tf_s0 :: uint64
  tf_s1 :: uint64
  tf_a0 :: uint64
  tf_a1 :: uint64
  tf_a2 :: uint64
  tf_a3 :: uint64
  tf_a4 :: uint64
  tf_a5 :: uint64
  tf_a6 :: uint64
  tf_a7 :: uint64
  tf_s2 :: uint64
  tf_s3 :: uint64
  tf_s4 :: uint64
  tf_s5 :: uint64
  tf_s6 :: uint64
  tf_s7 :: uint64
  tf_s8 :: uint64
  tf_s9 :: uint64
  tf_s10 :: uint64
  tf_s11 :: uint64
  tf_t3 :: uint64
  tf_t4 :: uint64
  tf_t5 :: uint64
  tf_t6 :: uint64

text \<open>
  One slot of the process table. Pointers into kernel tables are indices (\<open>None\<close> is the null
  pointer). \<open>p_trapframe\<close> is the address of the trapframe page and \<open>p_tf\<close> its contents.
\<close>

record proc =
  p_state :: procstate
  p_chan :: "chan option"
  p_killed :: bool
  p_xstate :: cint
  p_pid :: cint
  p_parent :: "nat option"
  p_kstack :: uint64
  p_sz :: uint64
  p_pagetable :: uint64
  p_trapframe :: uint64
  p_tf :: trapframe
  p_context :: struct_context
  p_ofile :: "nat \<Rightarrow> nat option"
  p_cwd :: "nat option"
  p_name :: "byte list"

record kstate =
  held :: "lockid set"
  procs :: "nat \<Rightarrow> proc"
  curproc :: "nat option"
  consout :: string

text \<open>A process slot as the loader leaves it: all zero.\<close>

definition zero_context :: struct_context where
  "zero_context = \<lparr>c_ra = 0, c_sp = 0, c_s0 = 0, c_s1 = 0, c_s2 = 0, c_s3 = 0, c_s4 = 0, c_s5 = 0,
     c_s6 = 0, c_s7 = 0, c_s8 = 0, c_s9 = 0, c_s10 = 0, c_s11 = 0\<rparr>"

definition zero_tf :: trapframe where
  "zero_tf = \<lparr>tf_kernel_satp = 0, tf_kernel_sp = 0, tf_kernel_trap = 0, tf_epc = 0,
     tf_kernel_hartid = 0, tf_ra = 0, tf_sp = 0, tf_gp = 0, tf_tp = 0, tf_t0 = 0, tf_t1 = 0,
     tf_t2 = 0, tf_s0 = 0, tf_s1 = 0, tf_a0 = 0, tf_a1 = 0, tf_a2 = 0, tf_a3 = 0, tf_a4 = 0,
     tf_a5 = 0, tf_a6 = 0, tf_a7 = 0, tf_s2 = 0, tf_s3 = 0, tf_s4 = 0, tf_s5 = 0, tf_s6 = 0,
     tf_s7 = 0, tf_s8 = 0, tf_s9 = 0, tf_s10 = 0, tf_s11 = 0, tf_t3 = 0, tf_t4 = 0, tf_t5 = 0,
     tf_t6 = 0\<rparr>"

definition zero_proc :: proc where
  "zero_proc = \<lparr>p_state = UNUSED, p_chan = None, p_killed = False, p_xstate = 0, p_pid = 0,
     p_parent = None, p_kstack = 0, p_sz = 0, p_pagetable = 0, p_trapframe = 0, p_tf = zero_tf,
     p_context = zero_context, p_ofile = (\<lambda>_. None), p_cwd = None, p_name = replicate 16 0\<rparr>"

section \<open>Spin locks as the executing hart sees them\<close>

text \<open>
  \<open>held s\<close> is the set of locks for which \<^verbatim>\<open>holding(lk)\<close> is true on the executing hart. Spinning while
  another hart holds the lock is not an outcome here: theory \<open>Spinlock\<close> models \<^verbatim>\<open>acquire\<close> and
  \<^verbatim>\<open>release\<close> with several harts and proves that what they do to a hart's own locks is \<open>acq\<close> and
  \<open>rel\<close>, and that no two harts hold one lock.
\<close>

definition acq :: "lockid \<Rightarrow> 'z kstate_scheme \<Rightarrow> ('z kstate_scheme, unit) res" where
  "acq l s = (if l \<in> held s then Panic ''acquire''
              else Ret () (s\<lparr>held := insert l (held s)\<rparr>))"

definition rel :: "lockid \<Rightarrow> 'z kstate_scheme \<Rightarrow> ('z kstate_scheme, unit) res" where
  "rel l s = (if l \<notin> held s then Panic ''release''
              else Ret () (s\<lparr>held := held s - {l}\<rparr>))"

lemma acq_Ret [simp]: "l \<notin> held s \<Longrightarrow> acq l s = Ret () (s\<lparr>held := insert l (held s)\<rparr>)"
  by (simp add: acq_def)

lemma rel_Ret [simp]: "l \<in> held s \<Longrightarrow> rel l s = Ret () (s\<lparr>held := held s - {l}\<rparr>)"
  by (simp add: rel_def)

lemma rel_acq [simp]: "l \<notin> held s \<Longrightarrow> bnd (acq l s) (\<lambda>_. rel l) = Ret () s"
  by simp

section \<open>The current process\<close>

definition upd_proc :: "nat \<Rightarrow> (proc \<Rightarrow> proc) \<Rightarrow> 'z kstate_scheme \<Rightarrow> 'z kstate_scheme" where
  "upd_proc i f s = s\<lparr>procs := (procs s)(i := f (procs s i))\<rparr>"

text \<open>
  \<^verbatim>\<open>myproc()\<close> where the caller then dereferences the result: a null pointer traps in the kernel,
  and \<^verbatim>\<open>kerneltrap()\<close> panics on an exception.
\<close>

definition myproc :: "'z kstate_scheme \<Rightarrow> ('z kstate_scheme, nat) res" where
  "myproc s = (case curproc s of None \<Rightarrow> Panic ''kerneltrap'' | Some p \<Rightarrow> Ret p s)"

lemma myproc_Ret [simp]: "curproc s = Some p \<Longrightarrow> myproc s = Ret p s"
  by (simp add: myproc_def)

section \<open>sched, sleep, wakeup\<close>

text \<open>
  The checks of \<^verbatim>\<open>sched()\<close>, up to the switch. \<^verbatim>\<open>noff\<close> counts the nested \<^verbatim>\<open>push_off\<close>s, one per held
  lock.
\<close>

definition sched :: "'z kstate_scheme \<Rightarrow> ('z kstate_scheme, unit) res" where
  "sched s =
     bnd (myproc s) (\<lambda>p s.
     if L_proc p \<notin> held s then Panic ''sched p->lock''
     else if card (held s) \<noteq> 1 then Panic ''sched locks''
     else if p_state (procs s p) = RUNNING then Panic ''sched running''
     else Ret () s)"

definition sleep :: "chan \<Rightarrow> lockid \<Rightarrow> 'z kstate_scheme \<Rightarrow> ('z kstate_scheme, unit) res" where
  "sleep c lk s =
     bnd (myproc s) (\<lambda>p s.
     bnd (acq (L_proc p) s) (\<lambda>_ s.
     bnd (rel lk s) (\<lambda>_ s.
     bnd (sched (upd_proc p (\<lambda>q. q\<lparr>p_chan := Some c, p_state := SLEEPING\<rparr>) s)) (\<lambda>_ s.
     Sleep c s))))"

text \<open>What \<^verbatim>\<open>sleep\<close> does when the scheduler resumes it: clear the channel, retake the lock.\<close>

definition sleep_resume :: "lockid \<Rightarrow> 'z kstate_scheme \<Rightarrow> ('z kstate_scheme, unit) res" where
  "sleep_resume lk s =
     bnd (myproc s) (\<lambda>p s.
     bnd (rel (L_proc p) (upd_proc p (\<lambda>q. q\<lparr>p_chan := None\<rparr>) s)) (\<lambda>_ s.
     acq lk s))"

definition wakeup_one :: "chan \<Rightarrow> nat \<Rightarrow> 'z kstate_scheme \<Rightarrow> ('z kstate_scheme, unit) res" where
  "wakeup_one c i s =
     (if curproc s = Some i then Ret () s
      else bnd (acq (L_proc i) s) (\<lambda>_ s.
        rel (L_proc i)
          (if p_state (procs s i) = SLEEPING \<and> p_chan (procs s i) = Some c
           then upd_proc i (\<lambda>q. q\<lparr>p_state := RUNNABLE\<rparr>) s else s)))"

definition wakeup :: "chan \<Rightarrow> 'z kstate_scheme \<Rightarrow> ('z kstate_scheme, unit) res" where
  "wakeup c = foreach [0..<NPROC] (wakeup_one c)"

text \<open>The process table after \<^verbatim>\<open>wakeup(chan)\<close>, in one piece.\<close>

definition woken :: "chan \<Rightarrow> nat option \<Rightarrow> (nat \<Rightarrow> proc) \<Rightarrow> nat \<Rightarrow> proc" where
  "woken c cur ps i = (let q = ps i in
     if i < NPROC \<and> cur \<noteq> Some i \<and> p_state q = SLEEPING \<and> p_chan q = Some c
     then q\<lparr>p_state := RUNNABLE\<rparr> else q)"

text \<open>\<open>may_wake s\<close>: the hart holds no process's lock but, possibly, its own process's.\<close>

definition may_wake :: "'z kstate_scheme \<Rightarrow> bool" where
  "may_wake s \<longleftrightarrow> (\<forall>i < NPROC. L_proc i \<in> held s \<longrightarrow> curproc s = Some i)"

lemma woken_keeps [simp]:
  "p_pid (woken c cur ps i) = p_pid (ps i)"
  "p_killed (woken c cur ps i) = p_killed (ps i)"
  "p_parent (woken c cur ps i) = p_parent (ps i)"
  "p_xstate (woken c cur ps i) = p_xstate (ps i)"
  "p_pagetable (woken c cur ps i) = p_pagetable (ps i)"
  "p_sz (woken c cur ps i) = p_sz (ps i)"
  "p_tf (woken c cur ps i) = p_tf (ps i)"
  "p_ofile (woken c cur ps i) = p_ofile (ps i)"
  "p_cwd (woken c cur ps i) = p_cwd (ps i)"
  by (simp_all add: woken_def Let_def)

lemma woken_cur: "woken c (Some i) ps i = ps i"
  by (simp add: woken_def Let_def)

lemma wakeup_one_Ret:
  assumes "curproc s = Some i \<or> L_proc i \<notin> held s" "i < NPROC"
  shows "wakeup_one c i s = Ret () (s\<lparr>procs := (procs s)(i := woken c (curproc s) (procs s) i)\<rparr>)"
  using assms by (auto simp: wakeup_one_def woken_def upd_proc_def Let_def)

lemma wakeup_prefix:
  assumes "may_wake s" "n \<le> NPROC"
  shows "foreach [0..<n] (wakeup_one c) s
    = Ret () (s\<lparr>procs := (\<lambda>i. if i < n then woken c (curproc s) (procs s) i else procs s i)\<rparr>)"
  using assms(2)
proof (induction n)
  case 0
  then show ?case by simp
next
  case (Suc n)
  let ?s = "s\<lparr>procs := (\<lambda>i. if i < n then woken c (curproc s) (procs s) i else procs s i)\<rparr>"
  have "curproc ?s = Some n \<or> L_proc n \<notin> held ?s" "n < NPROC"
    using assms(1) Suc.prems by (auto simp: may_wake_def)
  from wakeup_one_Ret [OF this, of c]
  have one: "wakeup_one c n ?s = Ret () (?s\<lparr>procs := (procs ?s)(n := woken c (curproc ?s) (procs ?s) n)\<rparr>)" .
  have "woken c (curproc ?s) (procs ?s) n = woken c (curproc s) (procs s) n"
    by (simp add: woken_def Let_def)
  moreover have "(procs ?s)(n := woken c (curproc s) (procs s) n) =
      (\<lambda>i. if i < Suc n then woken c (curproc s) (procs s) i else procs s i)"
    by (auto simp: fun_eq_iff less_Suc_eq)
  ultimately show ?case
    using Suc by (simp add: foreach_append one)
qed

lemma wakeup_Ret [simp]:
  assumes "may_wake s"
  shows "wakeup c s = Ret () (s\<lparr>procs := woken c (curproc s) (procs s)\<rparr>)"
proof -
  have "(\<lambda>i. if i < NPROC then woken c (curproc s) (procs s) i else procs s i) = woken c (curproc s) (procs s)"
    by (auto simp: woken_def Let_def)
  then show ?thesis
    using wakeup_prefix [OF assms order_refl, of c] by (simp add: wakeup_def)
qed

section \<open>yield, kill, killed, setkilled\<close>

text \<open>\<^verbatim>\<open>yield()\<close> up to the switch: the process is runnable and the hart holds only its lock.\<close>

definition yield_out :: "'z kstate_scheme \<Rightarrow> ('z kstate_scheme, unit) res" where
  "yield_out s =
     bnd (myproc s) (\<lambda>p s.
     bnd (acq (L_proc p) s) (\<lambda>_ s.
     sched (upd_proc p (\<lambda>q. q\<lparr>p_state := RUNNABLE\<rparr>) s)))"

fun kill_from :: "nat \<Rightarrow> nat \<Rightarrow> cint \<Rightarrow> 'z kstate_scheme \<Rightarrow> ('z kstate_scheme, cint) res" where
  "kill_from 0 i pid s = Ret (-1) s"
| "kill_from (Suc n) i pid s =
     bnd (acq (L_proc i) s) (\<lambda>_ s.
     if p_pid (procs s i) = pid then
       bnd (rel (L_proc i) (upd_proc i (\<lambda>q.
              (if p_state q = SLEEPING then q\<lparr>p_killed := True, p_state := RUNNABLE\<rparr>
               else q\<lparr>p_killed := True\<rparr>)) s)) (\<lambda>_ s.
       Ret 0 s)
     else bnd (rel (L_proc i) s) (\<lambda>_ s. kill_from n (Suc i) pid s))"

definition kill :: "cint \<Rightarrow> 'z kstate_scheme \<Rightarrow> ('z kstate_scheme, cint) res" where
  "kill pid s = kill_from NPROC 0 pid s"

definition setkilled :: "nat \<Rightarrow> 'z kstate_scheme \<Rightarrow> ('z kstate_scheme, unit) res" where
  "setkilled p s =
     bnd (acq (L_proc p) s) (\<lambda>_ s.
     rel (L_proc p) (upd_proc p (\<lambda>q. q\<lparr>p_killed := True\<rparr>) s))"

definition killed :: "nat \<Rightarrow> 'z kstate_scheme \<Rightarrow> ('z kstate_scheme, bool) res" where
  "killed p s =
     bnd (acq (L_proc p) s) (\<lambda>_ s.
     let k = p_killed (procs s p) in
     bnd (rel (L_proc p) s) (\<lambda>_ s. Ret k s))"

lemma killed_Ret [simp]: "L_proc p \<notin> held s \<Longrightarrow> killed p s = Ret (p_killed (procs s p)) s"
  by (simp add: killed_def)

text \<open>
  \<^verbatim>\<open>kill\<close> marks the first slot with the given pid, wakes it if it sleeps, and touches nothing else.
\<close>

lemma kill_from_Ret:
  assumes "\<forall>i. L_proc i \<notin> held s"
  shows "kill_from n i pid s =
    (if \<exists>j. i \<le> j \<and> j < i + n \<and> p_pid (procs s j) = pid then
       let j = (LEAST j. i \<le> j \<and> p_pid (procs s j) = pid) in
       Ret 0 (upd_proc j (\<lambda>q. (if p_state q = SLEEPING
                 then q\<lparr>p_killed := True, p_state := RUNNABLE\<rparr> else q\<lparr>p_killed := True\<rparr>)) s)
     else Ret (-1) s)"
proof (induction n arbitrary: i)
  case 0
  then show ?case by auto
next
  case (Suc n)
  show ?case
  proof (cases "p_pid (procs s i) = pid")
    case True
    then have "(LEAST j. i \<le> j \<and> p_pid (procs s j) = pid) = i"
      by (intro Least_equality) auto
    moreover have "\<exists>j. i \<le> j \<and> j < i + Suc n \<and> p_pid (procs s j) = pid"
      using True by (intro exI [of _ i]) simp
    ultimately show ?thesis
      using True assms by (simp add: upd_proc_def Let_def)
  next
    case False
    then have eq: "(i \<le> j \<and> p_pid (procs s j) = pid) = (Suc i \<le> j \<and> p_pid (procs s j) = pid)" for j
      by (auto simp: Suc_le_eq le_less)
    have ex: "(\<exists>j. i \<le> j \<and> j < i + Suc n \<and> p_pid (procs s j) = pid) =
        (\<exists>j. Suc i \<le> j \<and> j < Suc i + n \<and> p_pid (procs s j) = pid)"
      using eq by auto
    from False assms have "kill_from (Suc n) i pid s = kill_from n (Suc i) pid s"
      by simp
    then show ?thesis
      unfolding Suc.IH ex eq by simp
  qed
qed

end
