(* ===== verification/Spinlock.thy ===== *)
theory Spinlock
  imports Kstate
begin

text \<open>
  \<^verbatim>\<open>kernel/spinlock.c\<close> on several harts. Each C statement that touches memory another hart can see
  (the atomic swap, the store to \<^verbatim>\<open>lk->cpu\<close>, the atomic release) is a step of its own; harts
  interleave freely. The theory proves mutual exclusion, that \<^verbatim>\<open>holding()\<close> is exact, that
  interrupts stay off while a lock is held, and that on a hart's own locks the code does what
  \<open>acq\<close> and \<open>rel\<close> of theory \<open>Kstate\<close> say.
\<close>

section \<open>Data\<close>

record spinlock =
  lk_locked :: uint32
  lk_name :: string
  lk_cpu :: "nat option"

record cpu =
  cpu_proc :: "nat option"
  cpu_context :: struct_context
  cpu_noff :: int
  cpu_intena :: bool

text \<open>\<open>intr s c\<close> is the interrupt-enable bit of hart \<open>c\<close> (\<^verbatim>\<open>intr_get()\<close>).\<close>

record smp =
  locks :: "lockid \<Rightarrow> spinlock"
  cpus :: "nat \<Rightarrow> cpu"
  intr :: "nat \<Rightarrow> bool"

section \<open>Operations of hart \<open>c\<close>\<close>

definition initlock :: "lockid \<Rightarrow> string \<Rightarrow> 'z smp_scheme \<Rightarrow> 'z smp_scheme" where
  "initlock l nm s = s\<lparr>locks := (locks s)(l := \<lparr>lk_locked = 0, lk_name = nm, lk_cpu = None\<rparr>)\<rparr>"

definition holding :: "nat \<Rightarrow> lockid \<Rightarrow> 'z smp_scheme \<Rightarrow> bool" where
  "holding c l s \<longleftrightarrow> lk_locked (locks s l) \<noteq> 0 \<and> lk_cpu (locks s l) = Some c"

definition push_off :: "nat \<Rightarrow> 'z smp_scheme \<Rightarrow> 'z smp_scheme" where
  "push_off c s =
     (let old = intr s c;
          s = s\<lparr>intr := (intr s)(c := False)\<rparr>;
          k = cpus s c;
          k = (if cpu_noff k = 0 then k\<lparr>cpu_intena := old\<rparr> else k)
      in s\<lparr>cpus := (cpus s)(c := k\<lparr>cpu_noff := cpu_noff k + 1\<rparr>)\<rparr>)"

definition pop_off :: "nat \<Rightarrow> 'z smp_scheme \<Rightarrow> ('z smp_scheme, unit) res" where
  "pop_off c s =
     (if intr s c then Panic ''pop_off - interruptible''
      else if cpu_noff (cpus s c) < 1 then Panic ''pop_off''
      else let k = (cpus s c)\<lparr>cpu_noff := cpu_noff (cpus s c) - 1\<rparr>;
               s = s\<lparr>cpus := (cpus s)(c := k)\<rparr>
           in Ret () (if cpu_noff k = 0 \<and> cpu_intena k
                      then s\<lparr>intr := (intr s)(c := True)\<rparr> else s))"

text \<open>\<^verbatim>\<open>acquire\<close>: up to the loop, one round of the loop, and the record of the holder.\<close>

definition acq_enter :: "nat \<Rightarrow> lockid \<Rightarrow> 'z smp_scheme \<Rightarrow> ('z smp_scheme, unit) res" where
  "acq_enter c l s =
     (let s = push_off c s in if holding c l s then Panic ''acquire'' else Ret () s)"

definition acq_tas :: "lockid \<Rightarrow> 'z smp_scheme \<Rightarrow> ('z smp_scheme, bool) res" where
  "acq_tas l s =
     (let old = lk_locked (locks s l);
          s = s\<lparr>locks := (locks s)(l := (locks s l)\<lparr>lk_locked := 1\<rparr>)\<rparr>
      in Ret (old = 0) s)"

definition acq_record :: "nat \<Rightarrow> lockid \<Rightarrow> 'z smp_scheme \<Rightarrow> 'z smp_scheme" where
  "acq_record c l s = s\<lparr>locks := (locks s)(l := (locks s l)\<lparr>lk_cpu := Some c\<rparr>)\<rparr>"

text \<open>\<^verbatim>\<open>acquire\<close> run without interference; \<open>False\<close> says the lock was taken and the loop goes on.\<close>

definition acquire :: "nat \<Rightarrow> lockid \<Rightarrow> 'z smp_scheme \<Rightarrow> ('z smp_scheme, bool) res" where
  "acquire c l s =
     bnd (acq_enter c l s) (\<lambda>_ s.
     bnd (acq_tas l s) (\<lambda>got s.
     if got then Ret True (acq_record c l s) else Ret False s))"

definition rel_check :: "nat \<Rightarrow> lockid \<Rightarrow> 'z smp_scheme \<Rightarrow> ('z smp_scheme, unit) res" where
  "rel_check c l s =
     (if \<not> holding c l s then Panic ''release''
      else Ret () (s\<lparr>locks := (locks s)(l := (locks s l)\<lparr>lk_cpu := None\<rparr>)\<rparr>))"

definition rel_store :: "lockid \<Rightarrow> 'z smp_scheme \<Rightarrow> 'z smp_scheme" where
  "rel_store l s = s\<lparr>locks := (locks s)(l := (locks s l)\<lparr>lk_locked := 0\<rparr>)\<rparr>"

definition release :: "nat \<Rightarrow> lockid \<Rightarrow> 'z smp_scheme \<Rightarrow> ('z smp_scheme, unit) res" where
  "release c l s = bnd (rel_check c l s) (\<lambda>_ s. pop_off c (rel_store l s))"

section \<open>Harts running concurrently\<close>

text \<open>
  Where a hart stands: running other code, spinning in \<^verbatim>\<open>acquire\<close>, between the successful swap and
  the store to \<^verbatim>\<open>lk->cpu\<close>, in \<^verbatim>\<open>release\<close> before the atomic store, in \<^verbatim>\<open>release\<close> before \<^verbatim>\<open>pop_off\<close>,
  or halted by a panic. \<open>own s c\<close> are the locks whose \<^verbatim>\<open>acquire\<close> returned on \<open>c\<close> and whose
  \<^verbatim>\<open>release\<close> has not begun; \<open>pushes s c\<close> counts \<^verbatim>\<open>push_off\<close> calls outside \<^verbatim>\<open>acquire\<close>.
\<close>

datatype hartpc = Run | Spinning lockid | Swapped lockid | Clearing lockid | Popping | Halted

record smp_sys = smp +
  hpc :: "nat \<Rightarrow> hartpc"
  own :: "nat \<Rightarrow> lockid set"
  pushes :: "nat \<Rightarrow> nat"

definition boot_sys :: "smp_sys" where
  "boot_sys = \<lparr>
     locks = (\<lambda>_. \<lparr>lk_locked = 0, lk_name = '''', lk_cpu = None\<rparr>),
     cpus = (\<lambda>_. \<lparr>cpu_proc = None, cpu_context = zero_context,
        cpu_noff = 0, cpu_intena = False\<rparr>),
     intr = (\<lambda>_. False),
     hpc = (\<lambda>_. Run), own = (\<lambda>_. {}), pushes = (\<lambda>_. 0)\<rparr>"

definition goto :: "nat \<Rightarrow> hartpc \<Rightarrow> smp_sys \<Rightarrow> smp_sys" where
  "goto c p s = s\<lparr>hpc := (hpc s)(c := p)\<rparr>"

inductive sys_step :: "smp_sys \<Rightarrow> smp_sys \<Rightarrow> bool" where
  enter: "hpc s c = Run \<Longrightarrow> acq_enter c l s = Ret () t \<Longrightarrow> sys_step s (goto c (Spinning l) t)"
| enter_panic: "hpc s c = Run \<Longrightarrow> acq_enter c l s = Panic e \<Longrightarrow>
     sys_step s (goto c Halted (push_off c s))"
| swap: "hpc s c = Spinning l \<Longrightarrow> acq_tas l s = Ret got t \<Longrightarrow>
     sys_step s (if got then goto c (Swapped l) t else t)"
| record_cpu: "hpc s c = Swapped l \<Longrightarrow> t = acq_record c l s \<Longrightarrow>
     sys_step s (goto c Run (t\<lparr>own := (own t)(c := insert l (own t c))\<rparr>))"
| release_begin: "hpc s c = Run \<Longrightarrow> rel_check c l s = Ret () t \<Longrightarrow>
     sys_step s (goto c (Clearing l) (t\<lparr>own := (own t)(c := own t c - {l})\<rparr>))"
| release_panic: "hpc s c = Run \<Longrightarrow> rel_check c l s = Panic e \<Longrightarrow> sys_step s (goto c Halted s)"
| release_store: "hpc s c = Clearing l \<Longrightarrow> sys_step s (goto c Popping (rel_store l s))"
| release_pop: "hpc s c = Popping \<Longrightarrow> pop_off c s = Ret () t \<Longrightarrow> sys_step s (goto c Run t)"
| release_pop_panic: "hpc s c = Popping \<Longrightarrow> pop_off c s = Panic e \<Longrightarrow> sys_step s (goto c Halted s)"
| push: "hpc s c = Run \<Longrightarrow> t = push_off c s \<Longrightarrow>
     sys_step s (t\<lparr>pushes := (pushes t)(c := Suc (pushes t c))\<rparr>)"
| pop: "hpc s c = Run \<Longrightarrow> pushes s c > 0 \<Longrightarrow> pop_off c s = Ret () t \<Longrightarrow>
     sys_step s (t\<lparr>pushes := (pushes t)(c := pushes t c - 1)\<rparr>)"
| set_intr: "hpc s c = Run \<Longrightarrow> cpu_noff (cpus s c) = 0 \<Longrightarrow>
     sys_step s (s\<lparr>intr := (intr s)(c := b)\<rparr>)"

inductive sys_reach :: "smp_sys \<Rightarrow> bool" where
  boot: "sys_reach boot_sys"
| more: "sys_reach s \<Longrightarrow> sys_step s t \<Longrightarrow> sys_reach t"

section \<open>The invariant\<close>

text \<open>Hart \<open>c\<close> is past the successful swap on \<open>l\<close> and before the store that frees it.\<close>

definition inside :: "smp_sys \<Rightarrow> nat \<Rightarrow> lockid \<Rightarrow> bool" where
  "inside s c l \<longleftrightarrow> l \<in> own s c \<or> hpc s c = Swapped l \<or> hpc s c = Clearing l"

definition lock_inv :: "smp_sys \<Rightarrow> bool" where
  "lock_inv s \<longleftrightarrow>
     (\<forall>l. lk_locked (locks s l) \<noteq> 0 \<longleftrightarrow> (\<exists>c. inside s c l)) \<and>
     (\<forall>l c d. inside s c l \<longrightarrow> inside s d l \<longrightarrow> c = d) \<and>
     (\<forall>l c. lk_cpu (locks s l) = Some c \<longleftrightarrow> l \<in> own s c) \<and>
     (\<forall>l c. l \<in> own s c \<longrightarrow> hpc s c \<noteq> Swapped l \<and> hpc s c \<noteq> Clearing l)"

definition depth_inv :: "smp_sys \<Rightarrow> bool" where
  "depth_inv s \<longleftrightarrow> (\<forall>c.
     finite (own s c) \<and> cpu_noff (cpus s c) \<ge> 0 \<and>
     (cpu_noff (cpus s c) > 0 \<longrightarrow> \<not> intr s c) \<and>
     (hpc s c \<noteq> Halted \<longrightarrow> cpu_noff (cpus s c) =
        int (card (own s c)) + int (pushes s c) + (if hpc s c = Run then 0 else 1)))"

lemma holding_own:
  assumes "lock_inv s"
  shows "holding c l s \<longleftrightarrow> l \<in> own s c"
  using assms by (auto simp: holding_def lock_inv_def inside_def)

lemma boot_inv: "lock_inv boot_sys" "depth_inv boot_sys"
  by (simp_all add: lock_inv_def depth_inv_def boot_sys_def inside_def)

lemmas step_defs = acq_enter_def acq_tas_def acq_record_def rel_check_def rel_store_def
  pop_off_def push_off_def goto_def Let_def

lemma push_off_frame [simp]:
  "locks (push_off c s) = locks s" "holding d l (push_off c s) = holding d l s"
  by (simp_all add: push_off_def Let_def holding_def)

lemma sys_push_off_frame [simp]:
  "hpc (push_off c s) = hpc s" "own (push_off c s) = own s" "pushes (push_off c s) = pushes s"
  by (simp_all add: push_off_def Let_def)

lemma sys_pop_off_frame:
  "pop_off c s = Ret () t \<Longrightarrow>
     hpc t = hpc s \<and> own t = own s \<and> pushes t = pushes s \<and> locks t = locks s"
  by (auto simp: pop_off_def Let_def split: if_splits)

text \<open>A step changes one lock at most: the invariant, lock by lock.\<close>

definition lock_ok ::
  "spinlock \<Rightarrow> (nat \<Rightarrow> bool) \<Rightarrow> (nat \<Rightarrow> bool) \<Rightarrow> (nat \<Rightarrow> bool) \<Rightarrow> bool" where
  "lock_ok k ow sw cl \<longleftrightarrow>
     (lk_locked k \<noteq> 0 \<longleftrightarrow> (\<exists>c. ow c \<or> sw c \<or> cl c)) \<and>
     (\<forall>c d. (ow c \<or> sw c \<or> cl c) \<longrightarrow> (ow d \<or> sw d \<or> cl d) \<longrightarrow> c = d) \<and>
     (\<forall>c. lk_cpu k = Some c \<longleftrightarrow> ow c) \<and>
     (\<forall>c. ow c \<longrightarrow> \<not> sw c \<and> \<not> cl c)"

lemma lock_inv_alt:
  "lock_inv s \<longleftrightarrow> (\<forall>l. lock_ok (locks s l) (\<lambda>c. l \<in> own s c) (\<lambda>c. hpc s c = Swapped l)
     (\<lambda>c. hpc s c = Clearing l))"
  unfolding lock_inv_def inside_def lock_ok_def by blast

lemma lock_inv_same:
  assumes "lock_inv s" "locks t = locks s" "own t = own s"
    and "\<And>c l. (hpc t c = Swapped l \<longleftrightarrow> hpc s c = Swapped l) \<and>
               (hpc t c = Clearing l \<longleftrightarrow> hpc s c = Clearing l)"
  shows "lock_inv t"
  using assms by (simp add: lock_inv_alt)

lemma lock_inv_local:
  assumes inv: "lock_inv s"
    and other: "\<And>m. m \<noteq> l \<Longrightarrow> locks t m = locks s m \<and> (\<forall>c. (m \<in> own t c \<longleftrightarrow> m \<in> own s c) \<and>
       (hpc t c = Swapped m \<longleftrightarrow> hpc s c = Swapped m) \<and>
       (hpc t c = Clearing m \<longleftrightarrow> hpc s c = Clearing m))"
    and l: "lock_ok (locks t l) (\<lambda>c. l \<in> own t c) (\<lambda>c. hpc t c = Swapped l)
       (\<lambda>c. hpc t c = Clearing l)"
  shows "lock_inv t"
  unfolding lock_inv_alt
proof
  fix m
  show "lock_ok (locks t m) (\<lambda>c. m \<in> own t c) (\<lambda>c. hpc t c = Swapped m) (\<lambda>c. hpc t c = Clearing m)"
    using inv other [of m] l by (cases "m = l") (auto simp: lock_inv_alt)
qed

lemma lock_invD:
  "lock_inv s \<Longrightarrow> lock_ok (locks s l) (\<lambda>c. l \<in> own s c) (\<lambda>c. hpc s c = Swapped l)
     (\<lambda>c. hpc s c = Clearing l)"
  by (simp add: lock_inv_alt)

lemma lock_ok_alone:
  assumes "lock_ok k ow sw cl" "ow c \<or> sw c \<or> cl c"
  shows "lk_locked k \<noteq> 0" "d \<noteq> c \<Longrightarrow> \<not> ow d \<and> \<not> sw d \<and> \<not> cl d"
  using assms unfolding lock_ok_def by blast+

lemma lock_ok_no_cpu:
  assumes "lock_ok k ow sw cl" "\<And>d. \<not> ow d"
  shows "lk_cpu k = None"
  using assms by (cases "lk_cpu k") (auto simp: lock_ok_def)

lemma rel_check_Ret:
  assumes "rel_check c l s = Ret () t" "lock_inv s"
  shows "l \<in> own s c \<and> t = s\<lparr>locks := (locks s)(l := (locks s l)\<lparr>lk_cpu := None\<rparr>)\<rparr>"
  using assms(1) by (simp add: rel_check_def holding_own [OF assms(2)] split: if_splits)

lemma lock_inv_step: "sys_step s t \<Longrightarrow> lock_inv s \<Longrightarrow> lock_inv t"
proof (induction rule: sys_step.induct)
  case (enter s c l t)
  then show ?case
    by (auto intro!: lock_inv_same [of s] simp: acq_enter_def goto_def Let_def split: if_splits)
next
  case (enter_panic s c l e)
  then show ?case
    by (auto intro!: lock_inv_same [of s] simp: goto_def split: if_splits)
next
  case (swap s c l got t)
  note ok = lock_invD [OF swap.prems, of l]
  show ?case
    by (rule lock_inv_local [OF swap.prems, of l]; cases "lk_locked (locks s l) = 0")
      (use swap(1,2) ok in \<open>auto simp: acq_tas_def Let_def goto_def lock_ok_def\<close>)
next
  case (record_cpu s c l t)
  note ok = lock_invD [OF record_cpu.prems, of l]
  note alone = lock_ok_alone [OF ok disjI2 [OF disjI1], OF record_cpu(1)]
  show ?case
    by (rule lock_inv_local [OF record_cpu.prems, of l])
      (use record_cpu(1,2) alone in \<open>auto simp: acq_record_def goto_def lock_ok_def\<close>)
next
  case (release_begin s c l t)
  note ok = lock_invD [OF release_begin.prems, of l]
  from rel_check_Ret [OF release_begin.hyps(2) release_begin.prems]
  have own: "l \<in> own s c" and t: "t = s\<lparr>locks := (locks s)(l := (locks s l)\<lparr>lk_cpu := None\<rparr>)\<rparr>"
    by (rule conjunct1, rule conjunct2)
  note alone = lock_ok_alone [OF ok disjI1, OF own]
  show ?case
    by (rule lock_inv_local [OF release_begin.prems, of l])
      (use release_begin(1) own alone in \<open>auto simp: t goto_def lock_ok_def\<close>)
next
  case (release_panic s c l e)
  then show ?case by (auto intro!: lock_inv_same [of s] simp: goto_def split: if_splits)
next
  case (release_store s c l)
  note ok = lock_invD [OF release_store.prems, of l]
  note alone = lock_ok_alone [OF ok disjI2 [OF disjI2], OF release_store(1)]
  have "l \<notin> own s c"
    using ok release_store(1) by (auto simp: lock_ok_def)
  with alone(2) have none: "\<And>d. l \<notin> own s d" by metis
  with lock_ok_no_cpu [OF ok] have cpu: "lk_cpu (locks s l) = None" by simp
  show ?case
    by (rule lock_inv_local [OF release_store.prems, of l])
      (use release_store(1) alone none cpu in \<open>auto simp: rel_store_def goto_def lock_ok_def\<close>)
next
  case (release_pop s c t)
  then show ?case
    using sys_pop_off_frame [OF release_pop(2)]
    by (auto intro!: lock_inv_same [of s] simp: goto_def split: if_splits)
next
  case (release_pop_panic s c e)
  then show ?case by (auto intro!: lock_inv_same [of s] simp: goto_def split: if_splits)
next
  case (push s c t)
  then show ?case by (auto intro!: lock_inv_same [of s])
next
  case (pop s c t)
  then show ?case
    using sys_pop_off_frame [OF pop(3)] by (auto intro!: lock_inv_same [of s])
next
  case (set_intr s c b)
  then show ?case by (auto intro!: lock_inv_same [of s])
qed

text \<open>
  Nesting depth: \<^verbatim>\<open>noff\<close> counts the held locks and the open \<^verbatim>\<open>push_off\<close>s. A step changes the depth of
  one hart only, so its proof reduces to that hart.
\<close>

definition depth_ok :: "bool \<Rightarrow> hartpc \<Rightarrow> lockid set \<Rightarrow> nat \<Rightarrow> cpu \<Rightarrow> bool" where
  "depth_ok i p ls n k \<longleftrightarrow>
     finite ls \<and> cpu_noff k \<ge> 0 \<and> (cpu_noff k > 0 \<longrightarrow> \<not> i) \<and>
     (p \<noteq> Halted \<longrightarrow> cpu_noff k = int (card ls) + int n + (if p = Run then 0 else 1))"

lemma depth_inv_alt:
  "depth_inv s \<longleftrightarrow> (\<forall>c. depth_ok (intr s c) (hpc s c) (own s c) (pushes s c) (cpus s c))"
  by (simp add: depth_inv_def depth_ok_def)

lemma depth_inv_local:
  assumes "depth_inv s"
    and "\<And>d. d \<noteq> c \<Longrightarrow> intr t d = intr s d \<and> hpc t d = hpc s d \<and> own t d = own s d \<and>
           pushes t d = pushes s d \<and> cpus t d = cpus s d"
    and "depth_ok (intr t c) (hpc t c) (own t c) (pushes t c) (cpus t c)"
  shows "depth_inv t"
  unfolding depth_inv_alt
proof
  fix d
  show "depth_ok (intr t d) (hpc t d) (own t d) (pushes t d) (cpus t d)"
    using assms by (cases "d = c") (auto simp: depth_inv_alt)
qed

lemma depth_invD: "depth_inv s \<Longrightarrow> depth_ok (intr s c) (hpc s c) (own s c) (pushes s c) (cpus s c)"
  by (simp add: depth_inv_alt)

lemma depth_inv_step: "sys_step s t \<Longrightarrow> lock_inv s \<Longrightarrow> depth_inv s \<Longrightarrow> depth_inv t"
proof (induction rule: sys_step.induct)
  case (enter s c l t)
  note ok = depth_invD [OF enter.prems(2), of c]
  show ?case
    by (rule depth_inv_local [OF enter.prems(2), of c])
      (use enter(1,2) ok in \<open>auto simp: step_defs depth_ok_def split: if_splits\<close>)
next
  case (enter_panic s c l e)
  note ok = depth_invD [OF enter_panic.prems(2), of c]
  show ?case
    by (rule depth_inv_local [OF enter_panic.prems(2), of c])
      (use enter_panic(1) ok in \<open>auto simp: step_defs depth_ok_def split: if_splits\<close>)
next
  case (swap s c l got t)
  note ok = depth_invD [OF swap.prems(2), of c]
  show ?case
    by (rule depth_inv_local [OF swap.prems(2), of c])
      (use swap(1,2) ok in \<open>auto simp: step_defs depth_ok_def split: if_splits\<close>)
next
  case (record_cpu s c l t)
  then have "l \<notin> own s c" by (auto simp: lock_inv_def)
  note ok = depth_invD [OF record_cpu.prems(2), of c]
  show ?case
    by (rule depth_inv_local [OF record_cpu.prems(2), of c])
      (use record_cpu(1,2) ok \<open>l \<notin> own s c\<close> in \<open>auto simp: step_defs depth_ok_def split: if_splits\<close>)
next
  case (release_begin s c l t)
  then have own: "l \<in> own s c"
    using rel_check_Ret by blast
  have fin: "finite (own s c)"
    using release_begin by (auto simp: depth_inv_def)
  have "card (own s c) \<noteq> 0" using own fin by auto
  then have card: "int (card (own s c - {l})) = int (card (own s c)) - 1"
    using own by (simp add: card_Diff_singleton of_nat_diff Suc_leI)
  note ok = depth_invD [OF release_begin.prems(2), of c]
  show ?case
    by (rule depth_inv_local [OF release_begin.prems(2), of c])
      (use release_begin(1,2) ok card in
        \<open>auto simp: rel_check_def goto_def depth_ok_def split: if_splits\<close>)
next
  case (release_panic s c l e)
  note ok = depth_invD [OF release_panic.prems(2), of c]
  show ?case
    by (rule depth_inv_local [OF release_panic.prems(2), of c])
      (use release_panic(1) ok in \<open>auto simp: step_defs depth_ok_def split: if_splits\<close>)
next
  case (release_store s c l)
  note ok = depth_invD [OF release_store.prems(2), of c]
  show ?case
    by (rule depth_inv_local [OF release_store.prems(2), of c])
      (use release_store(1) ok in \<open>auto simp: step_defs depth_ok_def split: if_splits\<close>)
next
  case (release_pop s c t)
  note ok = depth_invD [OF release_pop.prems(2), of c]
  show ?case
    by (rule depth_inv_local [OF release_pop.prems(2), of c])
      (use release_pop(1,2) ok in \<open>auto simp: step_defs depth_ok_def split: if_splits\<close>)
next
  case (release_pop_panic s c e)
  note ok = depth_invD [OF release_pop_panic.prems(2), of c]
  show ?case
    by (rule depth_inv_local [OF release_pop_panic.prems(2), of c])
      (use release_pop_panic(1) ok in \<open>auto simp: step_defs depth_ok_def split: if_splits\<close>)
next
  case (push s c t)
  note ok = depth_invD [OF push.prems(2), of c]
  show ?case
    by (rule depth_inv_local [OF push.prems(2), of c])
      (use push(1,2) ok in \<open>auto simp: step_defs depth_ok_def split: if_splits\<close>)
next
  case (pop s c t)
  note ok = depth_invD [OF pop.prems(2), of c]
  then have pos: "own s c = {} \<or> card (own s c) > 0"
    by (auto simp: depth_ok_def card_gt_0_iff)
  show ?case
    by (rule depth_inv_local [OF pop.prems(2), of c])
      (use pop(1,2,3) ok pos in \<open>auto simp: step_defs depth_ok_def split: if_splits\<close>)
next
  case (set_intr s c b)
  note ok = depth_invD [OF set_intr.prems(2), of c]
  show ?case
    by (rule depth_inv_local [OF set_intr.prems(2), of c])
      (use set_intr(1,2) ok in \<open>auto simp: step_defs depth_ok_def split: if_splits\<close>)
qed

lemma reach_inv: "sys_reach s \<Longrightarrow> lock_inv s \<and> depth_inv s"
  by (induction rule: sys_reach.induct) (auto intro: boot_inv lock_inv_step depth_inv_step)

lemmas reach_lock_inv = reach_inv [THEN conjunct1]
lemmas reach_depth_inv = reach_inv [THEN conjunct2]

section \<open>What the lock promises\<close>

text \<open>
  C6. Mutual exclusion: however the harts interleave, at most one of them is between the successful
  atomic swap of \<^verbatim>\<open>acquire(lk)\<close> and the atomic store of \<^verbatim>\<open>release(lk)\<close>, and \<^verbatim>\<open>holding(lk)\<close> is true
  on a hart exactly when its \<^verbatim>\<open>acquire(lk)\<close> has returned and its \<^verbatim>\<open>release(lk)\<close> has not begun.
\<close>

theorem mutual_exclusion:
  assumes "sys_reach s"
  shows "(\<forall>c d. inside s c l \<and> inside s d l \<longrightarrow> c = d) \<and> (\<forall>c. holding c l s \<longleftrightarrow> l \<in> own s c)"
proof -
  have inv: "lock_inv s" using assms by (rule reach_lock_inv)
  then have "\<forall>c d. inside s c l \<and> inside s d l \<longrightarrow> c = d"
    by (auto simp: lock_inv_def)
  with holding_own [OF inv] show ?thesis by simp
qed

lemma reach_acquire:
  assumes "sys_reach s" "hpc s c = Run" "l \<notin> own s c" "lk_locked (locks s l) = 0"
  shows "\<exists>t. sys_reach t \<and> hpc t c = Run \<and> own t c = insert l (own s c)"
proof -
  let ?s1 = "goto c (Spinning l) (push_off c s)"
  let ?s2 = "goto c (Swapped l) (?s1\<lparr>locks := (locks ?s1)(l := (locks ?s1 l)\<lparr>lk_locked := 1\<rparr>)\<rparr>)"
  let ?s3 = "acq_record c l ?s2"
  have "acq_enter c l s = Ret () (push_off c s)"
    using holding_own [OF reach_lock_inv [OF assms(1)], of c l] assms(3)
    by (simp add: acq_enter_def Let_def)
  with assms have "sys_reach ?s1" by (blast intro: sys_reach.more sys_step.enter)
  moreover have "hpc ?s1 c = Spinning l" by (simp add: goto_def)
  moreover have "acq_tas l ?s1 = Ret True (?s1\<lparr>locks := (locks ?s1)(l := (locks ?s1 l)\<lparr>lk_locked := 1\<rparr>)\<rparr>)"
    using assms(4) by (simp add: acq_tas_def Let_def goto_def)
  ultimately have "sys_reach ?s2"
    using sys_step.swap [of ?s1 c l True] by (auto intro: sys_reach.more)
  moreover have "hpc ?s2 c = Swapped l" by (simp add: goto_def)
  ultimately have "sys_reach (goto c Run (?s3\<lparr>own := (own ?s3)(c := insert l (own ?s3 c))\<rparr>))"
    by (blast intro: sys_reach.more sys_step.record_cpu)
  moreover have "hpc (goto c Run (?s3\<lparr>own := (own ?s3)(c := insert l (own ?s3 c))\<rparr>)) c = Run"
    "own (goto c Run (?s3\<lparr>own := (own ?s3)(c := insert l (own ?s3 c))\<rparr>)) c = insert l (own s c)"
    by (simp_all add: goto_def acq_record_def)
  ultimately show ?thesis by blast
qed

theorem mutual_exclusion_witness:
  "\<exists>s. sys_reach s \<and> L_kmem \<in> own s 0 \<and> \<not> holding 1 L_kmem s \<and> (\<forall>d. inside s d L_kmem \<longrightarrow> d = 0)"
proof -
  obtain s where s: "sys_reach s" "own s 0 = insert L_kmem (own boot_sys 0)"
    using reach_acquire [OF sys_reach.boot, of 0 L_kmem] by (auto simp: boot_sys_def)
  then have "L_kmem \<in> own s 0" by simp
  moreover from this have "inside s 0 L_kmem" by (simp add: inside_def)
  ultimately show ?thesis
    using mutual_exclusion [OF s(1), of L_kmem] s(1) by (metis inside_def zero_neq_one)
qed

text \<open>The locks hart \<open>c\<close> holds, as theory \<open>Kstate\<close> keeps them.\<close>

definition hview :: "nat \<Rightarrow> 'z smp_scheme \<Rightarrow> lockid set" where
  "hview c s = {l. holding c l s}"

lemma acquire_cases:
  assumes "lock_inv s"
  shows "acquire c l s =
    (if l \<in> own s c then Panic ''acquire''
     else if lk_locked (locks s l) = 0
     then Ret True ((push_off c s)\<lparr>locks := (locks s)(l := (locks s l)\<lparr>lk_locked := 1, lk_cpu := Some c\<rparr>)\<rparr>)
     else Ret False ((push_off c s)\<lparr>locks := (locks s)(l := (locks s l)\<lparr>lk_locked := 1\<rparr>)\<rparr>))"
  using holding_own [OF assms, of c l]
  by (simp add: acquire_def acq_enter_def acq_tas_def acq_record_def Let_def)

lemma release_cases:
  assumes "lock_inv s" "depth_inv s" "hpc s c \<noteq> Halted"
  shows "if l \<in> own s c
    then \<exists>t. release c l s = Ret () t \<and>
           locks t = (locks s)(l := (locks s l)\<lparr>lk_cpu := None, lk_locked := 0\<rparr>)
    else release c l s = Panic ''release''"
proof (cases "l \<in> own s c")
  case True
  have ok: "depth_ok (intr s c) (hpc s c) (own s c) (pushes s c) (cpus s c)"
    using assms(2) by (rule depth_invD)
  with True have "card (own s c) > 0"
    by (auto simp: depth_ok_def card_gt_0_iff)
  with ok assms(3) have "cpu_noff (cpus s c) \<ge> 1" "\<not> intr s c"
    by (auto simp: depth_ok_def)
  with True show ?thesis
    by (simp add: release_def rel_check_def holding_own [OF assms(1)] rel_store_def pop_off_def Let_def)
next
  case False
  then show ?thesis by (simp add: release_def rel_check_def holding_own [OF assms(1)])
qed



primrec push_offs :: "nat \<Rightarrow> nat \<Rightarrow> 'z smp_scheme \<Rightarrow> 'z smp_scheme" where
  "push_offs c 0 s = s"
| "push_offs c (Suc n) s = push_offs c n (push_off c s)"

primrec pop_offs :: "nat \<Rightarrow> nat \<Rightarrow> 'z smp_scheme \<Rightarrow> ('z smp_scheme, unit) res" where
  "pop_offs c 0 s = Ret () s"
| "pop_offs c (Suc n) s = bnd (pop_off c s) (\<lambda>_ s. pop_offs c n s)"

lemma push_offs_snoc: "push_offs c (Suc n) s = push_off c (push_offs c n s)"
  by (induction n arbitrary: s) auto

lemma push_offs_off:
  "cpu_noff (cpus s c) \<ge> 0 \<Longrightarrow> (cpu_noff (cpus s c) > 0 \<longrightarrow> \<not> intr s c) \<Longrightarrow>
   locks (push_offs c n s) = locks s \<and>
   cpu_noff (cpus (push_offs c n s) c) = cpu_noff (cpus s c) + int n \<and>
   (\<forall>d. d \<noteq> c \<longrightarrow> intr (push_offs c n s) d = intr s d) \<and>
   (\<not> intr (push_offs c n s) c \<or> n = 0) \<and>
   (cpu_intena (cpus (push_offs c n s) c) =
     (if cpu_noff (cpus s c) = 0 \<and> n > 0 then intr s c else cpu_intena (cpus s c)))"
  by (induction n) (auto simp: push_offs_snoc push_off_def Let_def simp del: push_offs.simps(2))

lemma pop_offs_Ret:
  assumes "int n \<le> cpu_noff (cpus s c)" "\<not> intr s c \<or> n = 0"
  shows "\<exists>u. pop_offs c n s = Ret () u \<and> locks u = locks s \<and>
    cpu_noff (cpus u c) = cpu_noff (cpus s c) - int n \<and>
    intr u = (if n > 0 \<and> cpu_noff (cpus s c) = int n \<and> cpu_intena (cpus s c)
              then (intr s)(c := True) else intr s)"
  using assms
proof (induction n arbitrary: s)
  case 0
  then show ?case by simp
next
  case (Suc n)
  define t where "t = (let k = (cpus s c)\<lparr>cpu_noff := cpu_noff (cpus s c) - 1\<rparr>;
      s = s\<lparr>cpus := (cpus s)(c := k)\<rparr>
    in if cpu_noff k = 0 \<and> cpu_intena k then s\<lparr>intr := (intr s)(c := True)\<rparr> else s)"
  have one: "pop_off c s = Ret () t"
    using Suc.prems by (simp add: pop_off_def t_def Let_def)
  have t: "locks t = locks s" "cpu_noff (cpus t c) = cpu_noff (cpus s c) - 1"
    "cpu_intena (cpus t c) = cpu_intena (cpus s c)"
    "intr t = (if cpu_noff (cpus s c) = 1 \<and> cpu_intena (cpus s c) then (intr s)(c := True) else intr s)"
    by (auto simp: t_def Let_def)
  have "int n \<le> cpu_noff (cpus t c)" "\<not> intr t c \<or> n = 0"
    using Suc.prems t by (auto split: if_splits)
  from Suc.IH [OF this] show ?case
    using Suc.prems t by (auto simp: one fun_eq_iff)
qed



end
