(* ===== verification/Kstring.thy ===== *)
theory Kstring
  imports Prelude
begin

text \<open>
  \<^verbatim>\<open>kernel/string.c\<close>. Memory is a function from addresses to bytes. A \<^verbatim>\<open>const char *\<close> argument that is
  only read is given as the function from offsets to the bytes it points at, so that the same
  definition serves pointers into memory and into arrays of other structures; \<^verbatim>\<open>strncpy\<close> and
  \<^verbatim>\<open>safestrcpy\<close> give the bytes they store at the destination, in order. \<^verbatim>\<open>memset\<close> and \<^verbatim>\<open>memmove\<close>
  change memory in place, one byte at a time, since the two areas of \<^verbatim>\<open>memmove\<close> may overlap.
  Lengths are naturals: every caller passes less than \<open>2^31\<close>.
\<close>

type_synonym memory = "uint64 \<Rightarrow> byte"

section \<open>Functions\<close>

fun memset_loop :: "uint64 \<Rightarrow> byte \<Rightarrow> nat \<Rightarrow> nat \<Rightarrow> memory \<Rightarrow> memory" where
  "memset_loop dst c i 0 m = m"
| "memset_loop dst c i (Suc k) m = memset_loop dst c (Suc i) k (m(dst + of_nat i := c))"

definition memset :: "uint64 \<Rightarrow> byte \<Rightarrow> nat \<Rightarrow> memory \<Rightarrow> memory" where
  "memset dst c n m = memset_loop dst c 0 n m"

fun memcmp :: "(nat \<Rightarrow> byte) \<Rightarrow> (nat \<Rightarrow> byte) \<Rightarrow> nat \<Rightarrow> int" where
  "memcmp s1 s2 0 = 0"
| "memcmp s1 s2 (Suc n) =
     (if s1 0 \<noteq> s2 0 then uint (s1 0) - uint (s2 0) else memcmp (s1 \<circ> Suc) (s2 \<circ> Suc) n)"

text \<open>The two loops of \<^verbatim>\<open>memmove\<close>: downwards from the ends, and upwards.\<close>

fun move_down :: "uint64 \<Rightarrow> uint64 \<Rightarrow> nat \<Rightarrow> memory \<Rightarrow> memory" where
  "move_down d s 0 m = m"
| "move_down d s (Suc n) m = move_down (d - 1) (s - 1) n (m(d - 1 := m (s - 1)))"

fun move_up :: "uint64 \<Rightarrow> uint64 \<Rightarrow> nat \<Rightarrow> memory \<Rightarrow> memory" where
  "move_up d s 0 m = m"
| "move_up d s (Suc n) m = move_up (d + 1) (s + 1) n (m(d := m s))"

definition memmove :: "uint64 \<Rightarrow> uint64 \<Rightarrow> nat \<Rightarrow> memory \<Rightarrow> memory" where
  "memmove dst src n m =
     (if n = 0 then m
      else if src < dst \<and> src + of_nat n > dst
      then move_down (dst + of_nat n) (src + of_nat n) n m
      else move_up dst src n m)"

definition memcpy :: "uint64 \<Rightarrow> uint64 \<Rightarrow> nat \<Rightarrow> memory \<Rightarrow> memory" where
  "memcpy dst src n m = memmove dst src n m"

fun strncmp :: "(nat \<Rightarrow> byte) \<Rightarrow> (nat \<Rightarrow> byte) \<Rightarrow> nat \<Rightarrow> int" where
  "strncmp p q 0 = 0"
| "strncmp p q (Suc n) =
     (if p 0 \<noteq> 0 \<and> p 0 = q 0 then strncmp (p \<circ> Suc) (q \<circ> Suc) n
      else uint (p 0) - uint (q 0))"

fun strncpy :: "(nat \<Rightarrow> byte) \<Rightarrow> nat \<Rightarrow> byte list" where
  "strncpy t 0 = []"
| "strncpy t (Suc n) = t 0 # (if t 0 \<noteq> 0 then strncpy (t \<circ> Suc) n else replicate n 0)"

text \<open>\<^verbatim>\<open>safestrcpy\<close> leaves its loop with the pointer past a copied zero, and stores another one.\<close>

fun safestrcpy_loop :: "(nat \<Rightarrow> byte) \<Rightarrow> nat \<Rightarrow> byte list" where
  "safestrcpy_loop t 0 = []"
| "safestrcpy_loop t (Suc n) = t 0 # (if t 0 \<noteq> 0 then safestrcpy_loop (t \<circ> Suc) n else [])"

definition safestrcpy :: "(nat \<Rightarrow> byte) \<Rightarrow> nat \<Rightarrow> byte list" where
  "safestrcpy t n = (if n = 0 then [] else safestrcpy_loop t (n - 1) @ [0])"

text \<open>\<^verbatim>\<open>strlen\<close> need not end: \<open>None\<close> is running forever.\<close>

partial_function (option) strlen_from :: "(nat \<Rightarrow> byte) \<Rightarrow> nat \<Rightarrow> nat option" where
  "strlen_from s n = (if s n \<noteq> 0 then strlen_from s (Suc n) else Some n)"

definition strlen :: "(nat \<Rightarrow> byte) \<Rightarrow> nat option" where
  "strlen s = strlen_from s 0"

section \<open>Memory areas\<close>

text \<open>Address \<open>a\<close> lies in the \<open>n\<close> bytes at \<open>p\<close> (which may wrap around).\<close>

definition in_area :: "uint64 \<Rightarrow> nat \<Rightarrow> uint64 \<Rightarrow> bool" where
  "in_area p n a \<longleftrightarrow> unat (a - p) < n"

lemma in_area_0 [simp]: "\<not> in_area p 0 a"
  by (simp add: in_area_def)

lemma unat_shift:
  fixes a p :: uint64
  assumes "a \<noteq> p"
  shows "unat (a - p) = Suc (unat (a - (p + 1)))"
proof -
  have "a - p \<noteq> 0" using assms by simp
  then have "unat (a - p) = Suc (unat (a - p - 1))"
    by (metis Suc_pred' unat_gt_0 unat_minus_one)
  then show ?thesis by (simp add: algebra_simps)
qed

lemma in_area_Suc:
  "in_area p (Suc n) a \<longleftrightarrow> a = p \<or> in_area (p + 1) n a \<and> a \<noteq> p"
  by (cases "a = p") (simp_all add: in_area_def unat_shift)

lemma in_area_inside:
  "in_area p n (p + of_nat i)" if "i < n" "n \<le> 2 ^ 64"
  using that by (simp add: in_area_def unat_of_nat take_bit_nat_eq_self)

lemma in_area_iff:
  assumes "n \<le> 2 ^ 64"
  shows "in_area p n a \<longleftrightarrow> (\<exists>i < n. a = p + of_nat i)"
proof
  assume "in_area p n a"
  then show "\<exists>i < n. a = p + of_nat i"
    by (intro exI [of _ "unat (a - p)"]) (simp add: in_area_def)
qed (use in_area_inside assms in auto)

lemma in_area_no_wrap:
  assumes "unat p + n \<le> 2 ^ 64"
  shows "in_area p n a \<longleftrightarrow> p \<le> a \<and> unat a < unat p + n"
proof (cases "p \<le> a")
  case True
  then have "unat (a - p) = unat a - unat p" by (rule unat_sub)
  with True show ?thesis by (auto simp: in_area_def word_le_nat_alt)
next
  case False
  then have less: "unat a < unat p" by (simp add: word_le_nat_alt)
  have "unat (a - p) = 2 ^ 64 + unat a - unat p"
    using less by (simp add: unat_sub_if_size word_size word_le_nat_alt)
  with less assms False show ?thesis by (auto simp: in_area_def)
qed

lemma in_area_outside_first: "n < 2 ^ 64 \<Longrightarrow> \<not> in_area (p + 1) n p"
  proof -
  have "unat (- 1 :: uint64) = 2 ^ 64 - 1"
    using unsigned_minus_1_eq_mask [where ?'a = nat and ?'b = 64] by (simp add: mask_eq_exp_minus_1)
  then show "n < 2 ^ 64 \<Longrightarrow> \<not> in_area (p + 1) n p" by (simp add: in_area_def)
qed

section \<open>memset and memmove\<close>

lemma memset_loop_at:
  "memset_loop dst c i k m a = (if in_area (dst + of_nat i) k a then c else m a)"
  by (induction k arbitrary: i m) (auto simp: in_area_Suc add_ac)

lemma memset_at: "memset dst c n m a = (if in_area dst n a then c else m a)"
  by (simp add: memset_def memset_loop_at)

lemma move_up_at:
  assumes "n < 2 ^ 64" "\<And>k. 0 < k \<Longrightarrow> k < n \<Longrightarrow> d \<noteq> s + of_nat k"
  shows "move_up d s n m a = (if in_area d n a then m (s + (a - d)) else m a)"
  using assms
proof (induction n arbitrary: d s m)
  case 0
  then show ?case by simp
next
  case (Suc n)
  have IH: "move_up (d + 1) (s + 1) n (m(d := m s)) a =
      (if in_area (d + 1) n a then (m(d := m s)) (s + 1 + (a - (d + 1))) else (m(d := m s)) a)"
    using Suc.prems(1) Suc.prems(2) by (intro Suc.IH) (auto simp: algebra_simps)
  show ?case
  proof (cases "a = d")
    case True
    then show ?thesis
      using Suc.prems(1) in_area_outside_first [of n d] IH by (simp add: in_area_Suc)
  next
    case False
    have "s + (a - d) \<noteq> d" if "in_area (d + 1) n a"
    proof -
      have "0 < unat (a - d)" "unat (a - d) < Suc n"
        using False that by (simp_all add: unat_gt_0 in_area_def unat_shift)
      then have "d \<noteq> s + of_nat (unat (a - d))" by (rule Suc.prems(2))
      then show ?thesis by simp
    qed
    with False show ?thesis by (simp add: IH in_area_Suc)
  qed
qed

lemma move_down_at:
  assumes "n < 2 ^ 64" "\<And>k. 0 < k \<Longrightarrow> k < n \<Longrightarrow> s \<noteq> d + of_nat k"
  shows "move_down d s n m a = (if in_area (d - of_nat n) n a then m (s - (d - a)) else m a)"
  using assms
proof (induction n arbitrary: d s m)
  case 0
  then show ?case by simp
next
  case (Suc n)
  have IH: "move_down (d - 1) (s - 1) n (m(d - 1 := m (s - 1))) a =
      (if in_area (d - 1 - of_nat n) n a then (m(d - 1 := m (s - 1))) (s - 1 - (d - 1 - a))
       else (m(d - 1 := m (s - 1))) a)"
    using Suc.prems by (intro Suc.IH) (auto simp: algebra_simps)
  have top: "in_area (d - 1 - of_nat n) (Suc n) (d - 1)" "\<not> in_area (d - 1 - of_nat n) n (d - 1)"
    using Suc.prems(1) by (simp_all add: in_area_def unat_of_nat take_bit_nat_eq_self)
  show ?case
  proof (cases "a = d - 1")
    case True
    then have "s - (d - a) = s - 1" by simp
    with True top IH show ?thesis by (simp add: diff_diff_eq)
  next
    case False
    have eq: "in_area (d - 1 - of_nat n) n a \<longleftrightarrow> in_area (d - 1 - of_nat n) (Suc n) a"
    proof -
      have "unat (a - (d - 1 - of_nat n)) \<noteq> n"
      proof
        assume "unat (a - (d - 1 - of_nat n)) = n"
        then have "of_nat (unat (a - (d - 1 - of_nat n))) = (of_nat n :: uint64)" by simp
        then have "a - (d - 1 - of_nat n) = of_nat n" by simp
        with False show False by (simp add: algebra_simps)
      qed
      then show ?thesis by (auto simp: in_area_def)
    qed
    have "s - (d - a) \<noteq> d - 1" if area: "in_area (d - 1 - of_nat n) n a"
    proof
      assume "s - (d - a) = d - 1"
      then have s: "s = d + (d - 1 - a)" by (simp add: algebra_simps)
      obtain i where i: "i < n" "a = d - 1 - of_nat n + of_nat i"
        using area Suc.prems(1) by (auto simp: in_area_iff)
      then have "d - 1 - a = of_nat (n - i)" by (simp add: of_nat_diff)
      moreover have "0 < n - i" "n - i < Suc n" using i(1) by auto
      ultimately show False using s Suc.prems(2) [of "n - i"] by metis
    qed
    with False show ?thesis using eq by (simp add: IH algebra_simps)
  qed
qed

text \<open>
  C28. \<^verbatim>\<open>memmove\<close> copies \<open>n\<close> bytes as if all of them were read before any is written, however the two
  areas overlap, and changes nothing else.
\<close>

theorem memmove_copies:
  assumes "unat dst + n < 2 ^ 64" "unat src + n < 2 ^ 64"
  shows "memmove dst src n m a = (if in_area dst n a then m (src + (a - dst)) else m a)"
proof -
  have add: "unat (p + of_nat k) = unat p + k" if "unat p + n < 2 ^ 64" "k \<le> n" for p :: uint64 and k
  proof -
    have "unat (of_nat k :: uint64) = k" using that by (simp add: unat_of_nat take_bit_nat_eq_self)
    with that show ?thesis by (subst unat_word_ariths(1)) (simp add: mod_less)
  qed
  have n: "n < 2 ^ 64" using assms by simp
  show ?thesis
  proof (cases "src < dst \<and> src + of_nat n > dst")
    case True
    have "src + of_nat n \<noteq> dst + of_nat n + of_nat k" if "k < n" for k
    proof
      assume "src + of_nat n = dst + of_nat n + of_nat k"
      then have "src = dst + of_nat k" by (simp add: algebra_simps)
      with add [OF assms(1), of k] that True show False by (simp add: word_less_nat_alt)
    qed
    then show ?thesis
      using True n by (simp add: memmove_def move_down_at algebra_simps)
  next
    case False
    have "dst \<noteq> src + of_nat k" if "0 < k" "k < n" for k
      using False add [OF assms(2), of k] add [OF assms(2), of n] that
      by (auto simp: word_less_nat_alt)
    then show ?thesis using False n by (auto simp: memmove_def move_up_at)
  qed
qed

theorem memmove_copies_witness:
  "memmove 0x1001 0x1000 3 (\<lambda>a. ucast a) 0x1003 = 2 \<and> memmove 0x1001 0x1000 3 (\<lambda>a. ucast a) 0x1004 = 4"
  using memmove_copies [where dst = "0x1001" and n = 3 and src = "0x1000" and m = "\<lambda>a. ucast a"] by (simp add: in_area_def)

section \<open>Strings\<close>

text \<open>The string a pointer denotes within its first \<open>n\<close> bytes: the bytes before the first zero.\<close>

definition cstr :: "nat \<Rightarrow> (nat \<Rightarrow> byte) \<Rightarrow> byte list" where
  "cstr n p = takeWhile (\<lambda>b. b \<noteq> 0) (map p [0..<n])"

lemma cstr_0 [simp]: "cstr 0 p = []"
  by (simp add: cstr_def)

lemma cstr_Suc: "cstr (Suc n) p = (if p 0 = 0 then [] else p 0 # cstr n (\<lambda>i. p (Suc i)))"
  by (simp add: cstr_def upt_conv_Cons map_Suc_upt [symmetric] comp_def del: upt_Suc)

lemma length_cstr: "length (cstr n p) \<le> n"
  by (simp add: cstr_def length_takeWhile_le [of _ "map p [0..<n]", simplified])

lemma cstr_no_nul: "0 \<notin> set (cstr n p)"
  by (auto simp: cstr_def dest: set_takeWhileD)

lemma uint_inj: "uint (a :: byte) = uint b \<longleftrightarrow> a = b" "uint a = 0 \<longleftrightarrow> a = 0"
  by (auto intro: unsigned_word_eqI simp: unsigned_eq_0_iff)

text \<open>
  C29. \<^verbatim>\<open>strncmp\<close> is zero exactly when the two strings, cut at \<open>n\<close> bytes, are equal, and otherwise has
  the sign of their first difference as unsigned bytes.
\<close>

theorem strncmp_compares:
  "(strncmp p q n = 0 \<longleftrightarrow> cstr n p = cstr n q) \<and>
   (strncmp p q n < 0 \<longleftrightarrow> (\<exists>k < n. (\<forall>i < k. p i = q i \<and> p i \<noteq> 0) \<and> p k < q k))"
proof (induction n arbitrary: p q)
  case 0
  then show ?case by simp
next
  case (Suc n)
  show ?case
  proof (cases "p 0 \<noteq> 0 \<and> p 0 = q 0")
    case True
    have "(\<exists>k < Suc n. (\<forall>i < k. p i = q i \<and> p i \<noteq> 0) \<and> p k < q k) \<longleftrightarrow>
      (\<exists>k < n. (\<forall>i < k. (p \<circ> Suc) i = (q \<circ> Suc) i \<and> (p \<circ> Suc) i \<noteq> 0) \<and> (p \<circ> Suc) k < (q \<circ> Suc) k)"
      using True by (subst Ex_less_Suc2) (auto simp: All_less_Suc2)
    moreover have "p 0 \<noteq> 0" "q 0 = p 0" using True by auto
    ultimately show ?thesis
      using Suc.IH [of "p \<circ> Suc" "q \<circ> Suc"] by (simp add: cstr_Suc comp_def)
  next
    case False
    then have "(\<exists>k < Suc n. (\<forall>i < k. p i = q i \<and> p i \<noteq> 0) \<and> p k < q k) \<longleftrightarrow> p 0 < q 0"
      by (subst Ex_less_Suc2) (auto simp: All_less_Suc2)
    with False show ?thesis
      by (auto simp: cstr_Suc word_less_def uint_inj)
  qed
qed

lemma strncpy_pads: "strncpy t n = cstr n t @ replicate (n - length (cstr n t)) 0"
  by (induction t n rule: strncpy.induct) (simp_all add: cstr_Suc comp_def)

lemma length_strncpy [simp]: "length (strncpy t n) = n"
  by (induction t n rule: strncpy.induct) (simp_all add: comp_def)

lemma safestrcpy_loop_eq:
  "safestrcpy_loop t n = cstr n t @ (if length (cstr n t) < n then [0] else [])"
  by (induction t n rule: safestrcpy_loop.induct) (simp_all add: cstr_Suc comp_def)

text \<open>A string view of a byte list, zero past its end.\<close>

definition lview :: "byte list \<Rightarrow> nat \<Rightarrow> byte" where
  "lview xs i = (if i < length xs then xs ! i else 0)"

lemma map_lview: "n \<le> length xs \<Longrightarrow> map (lview xs) [0..<n] = take n xs"
  by (intro nth_equalityI) (auto simp: lview_def)

lemma cstr_lview_append:
  assumes "0 \<notin> set xs" "length xs \<le> n"
  shows "cstr n (lview (xs @ 0 # ys)) = (if length xs < n then xs else take n xs)"
  using assms
proof (induction xs arbitrary: n)
  case Nil
  then show ?case by (cases n) (auto simp: cstr_Suc lview_def)
next
  case (Cons x xs)
  then obtain k where n: "n = Suc k" by (cases n) auto
  have s: "(\<lambda>i. lview ((x # xs) @ 0 # ys) (Suc i)) = lview (xs @ 0 # ys)"
    by (auto simp: lview_def)
  have h: "lview ((x # xs) @ 0 # ys) 0 = x" by (simp add: lview_def)
  show ?case using Cons n unfolding n cstr_Suc s h by simp
qed

theorem strncmp_compares_witness:
  "strncmp (lview [1, 2, 7]) (lview [1, 3, 7]) 3 < 0 \<and>
   (strncmp (lview [1, 0, 7]) (lview [1, 0, 8]) 3 = 0 \<longleftrightarrow>
    cstr 3 (lview [1, 0, 7]) = cstr 3 (lview [1, 0, 8]))"
proof
  have "lview [1, 2, 7] 1 < lview [1, 3, 7] 1" "\<forall>i < 1. lview [1, 2, 7] i = lview [1, 3, 7] i \<and> lview [1, 2, 7] i \<noteq> 0"
    by (simp_all add: lview_def)
  then show "strncmp (lview [1, 2, 7]) (lview [1, 3, 7]) 3 < 0"
    using strncmp_compares [of "lview [1, 2, 7]" "lview [1, 3, 7]" 3] by (auto intro!: exI [of _ 1])
qed (use strncmp_compares [of "lview [1, 0, 7]" "lview [1, 0, 8]" 3] in simp)

text \<open>
  C30. \<^verbatim>\<open>safestrcpy\<close> into a buffer of \<open>n > 0\<close> bytes stores at most \<open>n\<close> bytes, and the buffer then
  holds the source string cut at \<open>n - 1\<close> bytes, zero-terminated.
\<close>

theorem safestrcpy_terminates:
  assumes "0 < n" "length buf = n"
  shows "length (safestrcpy t n) \<le> n \<and>
    cstr n (lview (splice buf 0 (safestrcpy t n))) = cstr (n - 1) t \<and>
    lview (splice buf 0 (safestrcpy t n)) (length (cstr (n - 1) t)) = 0"
proof -
  let ?c = "cstr (n - 1) t"
  have len: "length ?c \<le> n - 1" by (rule length_cstr)
  obtain ys where ys: "splice buf 0 (safestrcpy t n) = ?c @ 0 # ys"
    using assms(1) by (cases "length ?c < n - 1") (simp_all add: splice_def safestrcpy_def safestrcpy_loop_eq)
  have "cstr n (lview (?c @ 0 # ys)) = ?c"
    using len assms(1) cstr_lview_append [of ?c n ys] cstr_no_nul by auto
  moreover have "length (safestrcpy t n) \<le> n"
    using len assms(1) by (auto simp: safestrcpy_def safestrcpy_loop_eq)
  ultimately show ?thesis by (simp add: ys lview_def)
qed

theorem safestrcpy_terminates_witness:
  "cstr 4 (lview (splice [9, 9, 9, 9] 0 (safestrcpy (lview [1, 2, 3, 4, 5, 0]) 4))) = [1, 2, 3]"
proof -
  have "cstr 3 (lview [1, 2, 3, 4, 5, 0]) = [1, 2, 3]" by (simp add: numeral_3_eq_3 cstr_Suc lview_def)
  then show ?thesis
    using safestrcpy_terminates [of 4 "[9, 9, 9, 9]" "lview [1, 2, 3, 4, 5, 0]"] by simp
qed

lemma strlen_from_Some:
  "s (n + k) = 0 \<Longrightarrow> (\<And>i. i < k \<Longrightarrow> s (n + i) \<noteq> 0) \<Longrightarrow> strlen_from s n = Some (n + k)"
proof (induction k arbitrary: n)
  case 0
  then show ?case by (subst strlen_from.simps) simp
next
  case (Suc k)
  have "s n \<noteq> 0" using Suc.prems(2) [of 0] by simp
  moreover have "strlen_from s (Suc n) = Some (Suc n + k)"
  proof (rule Suc.IH)
    show "s (Suc n + k) = 0" using Suc.prems(1) by simp
    show "s (Suc n + i) \<noteq> 0" if "i < k" for i using Suc.prems(2) [of "Suc i"] that by simp
  qed
  ultimately show ?case by (subst strlen_from.simps) simp
qed

lemma strlen_cstr:
  assumes "s k = 0"
  shows "strlen s = Some (length (cstr k s))"
proof -
  obtain l where l: "s l = 0" "l \<le> k" and nz: "\<And>i. i < l \<Longrightarrow> s i \<noteq> 0"
    using assms LeastI [of "\<lambda>j. s j = 0" k] Least_le [of "\<lambda>j. s j = 0" k] not_less_Least by blast
  have "[0..<k] = [0..<l] @ [l..<k]" using l(2) upt_add_eq_append [of 0 l "k - l"] by simp
  moreover have "takeWhile (\<lambda>b. b \<noteq> 0) (map s [l..<k]) = []"
    using l by (cases "l < k") (simp_all add: upt_conv_Cons)
  ultimately have "cstr k s = map s [0..<l]"
    using nz by (auto simp: cstr_def takeWhile_append)
  moreover have "strlen_from s 0 = Some (0 + l)"
    using l(1) nz by (intro strlen_from_Some) simp_all
  ultimately show ?thesis by (simp add: strlen_def)
qed

section \<open>Loads and stores\<close>

definition load_bytes :: "memory \<Rightarrow> uint64 \<Rightarrow> nat \<Rightarrow> byte list" where
  "load_bytes m a n = map (\<lambda>i. m (a + of_nat i)) [0..<n]"

definition store_bytes :: "memory \<Rightarrow> uint64 \<Rightarrow> byte list \<Rightarrow> memory" where
  "store_bytes m a bs x = (if in_area a (length bs) x then bs ! unat (x - a) else m x)"

definition ld64 :: "memory \<Rightarrow> uint64 \<Rightarrow> uint64" where
  "ld64 m a = le_dec (load_bytes m a 8)"

definition st64 :: "memory \<Rightarrow> uint64 \<Rightarrow> uint64 \<Rightarrow> memory" where
  "st64 m a v = store_bytes m a (le_enc 8 v)"

lemma length_load_bytes [simp]: "length (load_bytes m a n) = n"
  by (simp add: load_bytes_def)

lemma nth_load_bytes [simp]: "i < n \<Longrightarrow> load_bytes m a n ! i = m (a + of_nat i)"
  by (simp add: load_bytes_def)

lemma load_bytes_cong:
  assumes "\<And>x. in_area a n x \<Longrightarrow> m x = m' x" "n \<le> 2 ^ 64"
  shows "load_bytes m a n = load_bytes m' a n"
  using assms by (auto simp: load_bytes_def in_area_inside)

lemma load_store_same:
  assumes "length bs \<le> 2 ^ 64"
  shows "load_bytes (store_bytes m a bs) a (length bs) = bs"
  using assms in_area_inside [of _ "length bs" a]
  by (intro nth_equalityI) (simp_all add: store_bytes_def unat_of_nat take_bit_nat_eq_self)

lemma ld64_cong: "(\<And>x. in_area a 8 x \<Longrightarrow> m x = m' x) \<Longrightarrow> ld64 m a = ld64 m' a"
  unfolding ld64_def by (subst load_bytes_cong [of a 8 m m']) simp_all

lemma ld64_st64_same [simp]: "ld64 (st64 m a v) a = v"
  using load_store_same [of "le_enc 8 v" m a] by (simp add: ld64_def st64_def le_dec_enc)

lemma st64_outside [simp]: "\<not> in_area a 8 x \<Longrightarrow> st64 m a v x = m x"
  by (simp add: st64_def store_bytes_def)

lemma store_bytes_outside [simp]: "\<not> in_area a (length bs) x \<Longrightarrow> store_bytes m a bs x = m x"
  by (simp add: store_bytes_def)

end
