(* ===== verification/Kalloc.thy ===== *)
theory Kalloc
  imports Kstate Kstring
begin

text \<open>
  \<^verbatim>\<open>kernel/kalloc.c\<close>, the physical page allocator. The list of free pages runs through the free
  pages themselves: the first eight bytes of a free page are the address of the next one. The
  theory shows that \<^verbatim>\<open>kalloc\<close> and \<^verbatim>\<open>kfree\<close> behave as operations on a set of free pages, that they
  change no byte outside the page handed over, and that \<^verbatim>\<open>kinit\<close> makes every page between the end
  of the kernel and the top of memory free.
\<close>

section \<open>Pages\<close>

definition PGSIZE :: nat where "PGSIZE = 4096"
definition KERNBASE :: uint64 where "KERNBASE = 0x80000000"
definition PHYSTOP :: uint64 where "PHYSTOP = KERNBASE + 128 * 1024 * 1024"

definition PGROUNDUP :: "uint64 \<Rightarrow> uint64" where
  "PGROUNDUP sz = (sz + 4096 - 1) AND NOT (4096 - 1)"

definition PGROUNDDOWN :: "uint64 \<Rightarrow> uint64" where
  "PGROUNDDOWN a = a AND NOT (4096 - 1)"

section \<open>State\<close>

text \<open>\<open>kend\<close> is the address of the linker symbol \<^verbatim>\<open>end\<close>; nothing assigns to it.\<close>

record kmem_state = kstate +
  mem :: memory
  freelist :: uint64
  kend :: uint64

section \<open>Operations\<close>

definition kfree :: "uint64 \<Rightarrow> 'z kmem_state_scheme \<Rightarrow> ('z kmem_state_scheme, unit) res" where
  "kfree pa s =
     (if pa mod 4096 \<noteq> 0 \<or> pa < kend s \<or> pa \<ge> PHYSTOP then Panic ''kfree''
      else let s = s\<lparr>mem := memset pa 1 PGSIZE (mem s)\<rparr> in
        bnd (acq L_kmem s) (\<lambda>_ s.
        let s = s\<lparr>mem := st64 (mem s) pa (freelist s)\<rparr>;
            s = s\<lparr>freelist := pa\<rparr>
        in rel L_kmem s))"

definition kalloc :: "'z kmem_state_scheme \<Rightarrow> ('z kmem_state_scheme, uint64) res" where
  "kalloc s =
     bnd (acq L_kmem s) (\<lambda>_ s.
     let r = freelist s;
         s = (if r \<noteq> 0 then s\<lparr>freelist := ld64 (mem s) r\<rparr> else s)
     in bnd (rel L_kmem s) (\<lambda>_ s.
        Ret r (if r \<noteq> 0 then s\<lparr>mem := memset r 5 PGSIZE (mem s)\<rparr> else s)))"

partial_function (option) freerange_loop ::
  "uint64 \<Rightarrow> uint64 \<Rightarrow> 'z kmem_state_scheme \<Rightarrow> ('z kmem_state_scheme, unit) res option" where
  "freerange_loop p pa_end s =
     (if p + 4096 \<le> pa_end then
        (case kfree p s of
           Ret _ s \<Rightarrow> freerange_loop (p + 4096) pa_end s
         | Panic e \<Rightarrow> Some (Panic e)
         | Sleep c s \<Rightarrow> Some (Sleep c s))
      else Some (Ret () s))"

definition freerange ::
  "uint64 \<Rightarrow> uint64 \<Rightarrow> 'z kmem_state_scheme \<Rightarrow> ('z kmem_state_scheme, unit) res option" where
  "freerange pa_start pa_end s = freerange_loop (PGROUNDUP pa_start) pa_end s"

text \<open>\<^verbatim>\<open>initlock\<close> of a lock no hart holds leaves the set of held locks as it is.\<close>

definition kinit :: "'z kmem_state_scheme \<Rightarrow> ('z kmem_state_scheme, unit) res option" where
  "kinit s = freerange (kend s) PHYSTOP s"

section \<open>Page arithmetic\<close>

lemma pgdown_diff: "PGROUNDDOWN a = a - a mod 4096"
proof -
  have m: "4096 - 1 = (mask 12 :: uint64)" by (simp add: mask_eq_exp_minus_1)
  have "PGROUNDDOWN a = push_bit 12 (drop_bit 12 a)"
    unfolding PGROUNDDOWN_def m by (rule bit_word_eqI) (auto simp: bit_simps)
  also have "\<dots> = a - take_bit 12 a"
    using bits_ident [of 12 a] by (simp add: eq_diff_eq)
  finally show ?thesis by (simp add: take_bit_eq_mod)
qed

lemma unat_pgdown: "unat (PGROUNDDOWN a) = unat a div 4096 * 4096"
proof -
  have "a mod 4096 \<le> a" by (simp add: word_le_nat_alt unat_mod)
  then have "unat (PGROUNDDOWN a) = unat a - unat a mod 4096"
    unfolding pgdown_diff by (simp add: unat_sub unat_mod del: minus_mod_eq_mult_div minus_mod_eq_div_mult)
  then show ?thesis by (simp add: minus_mod_eq_div_mult)
qed

lemma aligned_iff: "a mod 4096 = 0 \<longleftrightarrow> PGROUNDDOWN a = a"
  by (auto simp: pgdown_diff)

lemma pgdown_idem [simp]: "PGROUNDDOWN (PGROUNDDOWN a) = PGROUNDDOWN a"
  by (simp add: word_unat_eq_iff unat_pgdown)

lemma page_no_wrap: "PGROUNDDOWN p = p \<Longrightarrow> unat p + PGSIZE \<le> 2 ^ 64"
proof -
  assume "PGROUNDDOWN p = p"
  then have "unat p = unat p div 4096 * 4096" by (metis unat_pgdown)
  moreover have "unat p div 4096 < 2 ^ 52"
    using unsigned_less [of p] by (simp add: div_less_iff_less_mult)
  ultimately show ?thesis by (simp add: PGSIZE_def)
qed

lemma page_of_nat: "k * 4096 \<le> a \<and> a < k * 4096 + 4096 \<longleftrightarrow> a div 4096 = (k :: nat)"
  by (auto intro: div_nat_eqI)

text \<open>The page an address lies in.\<close>

lemma in_page_iff:
  assumes "PGROUNDDOWN p = p"
  shows "in_area p PGSIZE a \<longleftrightarrow> PGROUNDDOWN a = p"
proof -
  have p: "unat p = unat p div 4096 * 4096" using assms by (metis unat_pgdown)
  have "in_area p PGSIZE a \<longleftrightarrow> unat p \<le> unat a \<and> unat a < unat p + 4096"
    using in_area_no_wrap [OF page_no_wrap [OF assms]] by (simp add: word_le_nat_alt PGSIZE_def)
  also have "\<dots> \<longleftrightarrow> unat a div 4096 * 4096 = unat p"
    using p page_of_nat [of "unat p div 4096" "unat a"] by auto
  also have "\<dots> \<longleftrightarrow> PGROUNDDOWN a = p"
    by (simp add: word_unat_eq_iff unat_pgdown)
  finally show ?thesis .
qed

lemma in_area_mono: "in_area p n a \<Longrightarrow> n \<le> k \<Longrightarrow> in_area p k a"
  by (simp add: in_area_def)

lemma in_page_start:
  assumes "PGROUNDDOWN p = p" "in_area p 8 a"
  shows "PGROUNDDOWN a = p"
  using assms in_page_iff [of p a] in_area_mono [of p 8 a PGSIZE] by (simp add: PGSIZE_def)

section \<open>The free list\<close>

fun flist :: "memory \<Rightarrow> uint64 \<Rightarrow> uint64 list \<Rightarrow> bool" where
  "flist m p [] \<longleftrightarrow> p = 0"
| "flist m p (q # qs) \<longleftrightarrow> p = q \<and> q \<noteq> 0 \<and> flist m (ld64 m q) qs"

definition valid_page :: "uint64 \<Rightarrow> uint64 \<Rightarrow> bool" where
  "valid_page ke p \<longleftrightarrow> p mod 4096 = 0 \<and> ke \<le> p \<and> p < PHYSTOP"

definition kfl :: "'z kmem_state_scheme \<Rightarrow> uint64 list \<Rightarrow> bool" where
  "kfl s ps \<longleftrightarrow> flist (mem s) (freelist s) ps \<and> distinct ps \<and> (\<forall>p \<in> set ps. valid_page (kend s) p)"

text \<open>The invariant, and the free pages as a set.\<close>

definition kmem_inv :: "'z kmem_state_scheme \<Rightarrow> bool" where
  "kmem_inv s \<longleftrightarrow> (\<exists>ps. kfl s ps) \<and> 0 < kend s \<and> L_kmem \<notin> held s"

definition free_pages :: "'z kmem_state_scheme \<Rightarrow> uint64 set" where
  "free_pages s = {p. \<exists>ps. kfl s ps \<and> p \<in> set ps}"

lemma flist_unique: "flist m p ps \<Longrightarrow> flist m p qs \<Longrightarrow> ps = qs"
proof (induction ps arbitrary: p qs)
  case Nil
  then show ?case by (cases qs) auto
next
  case (Cons a ps)
  then show ?case by (cases qs) auto
qed

lemma flist_cong: "(\<And>q. q \<in> set ps \<Longrightarrow> ld64 m q = ld64 m' q) \<Longrightarrow> flist m p ps \<longleftrightarrow> flist m' p ps"
  by (induction ps arbitrary: p) auto

lemma free_pages_kfl: "kfl s ps \<Longrightarrow> free_pages s = set ps"
  by (auto simp: free_pages_def kfl_def dest: flist_unique)

lemma free_pages_finite [simp]: "finite (free_pages s)"
proof (cases "\<exists>ps. kfl s ps")
  case True
  then show ?thesis by (auto simp: free_pages_kfl)
next
  case False
  then show ?thesis by (simp add: free_pages_def)
qed

lemma free_pages_valid: "p \<in> free_pages s \<Longrightarrow> valid_page (kend s) p"
  by (auto simp: free_pages_def kfl_def)

lemma valid_page_pgdown: "valid_page ke p \<Longrightarrow> PGROUNDDOWN p = p"
  by (simp add: valid_page_def aligned_iff)

lemma ld64_other_page:
  assumes "PGROUNDDOWN q = q" "\<And>a. PGROUNDDOWN a = q \<Longrightarrow> m a = m' a"
  shows "ld64 m q = ld64 m' q"
proof (rule ld64_cong)
  fix a assume "in_area q 8 a"
  then have "PGROUNDDOWN a = q" by (rule in_page_start [OF assms(1)])
  then show "m a = m' a" by (rule assms(2))
qed

text \<open>Writing outside the free pages keeps the invariant and the set of free pages.\<close>

lemma kmem_inv_write:
  assumes "kmem_inv s" "freelist t = freelist s" "kend t = kend s" "L_kmem \<notin> held t"
    and same: "\<And>a. PGROUNDDOWN a \<in> free_pages s \<Longrightarrow> mem t a = mem s a"
  shows "kmem_inv t \<and> free_pages t = free_pages s"
proof -
  obtain ps where ps: "kfl s ps" using assms(1) by (auto simp: kmem_inv_def)
  have "ld64 (mem s) q = ld64 (mem t) q" if "q \<in> set ps" for q
    using that same ps free_pages_kfl [OF ps]
    by (intro ld64_other_page) (auto simp: kfl_def valid_page_pgdown)
  then have "flist (mem s) (freelist s) ps \<longleftrightarrow> flist (mem t) (freelist s) ps"
    by (rule flist_cong)
  then have "kfl t ps" using ps assms(2,3) by (simp add: kfl_def)
  then show ?thesis
    using assms ps by (auto simp: kmem_inv_def free_pages_kfl)
qed

section \<open>kalloc and kfree as operations on the set of free pages\<close>

lemma kalloc_empty:
  assumes "kmem_inv s" "free_pages s = {}"
  shows "kalloc s = Ret 0 s"
proof -
  obtain ps where ps: "kfl s ps" using assms(1) by (auto simp: kmem_inv_def)
  with assms(2) have "ps = []" using free_pages_kfl by fastforce
  then have "freelist s = 0" using ps by (simp add: kfl_def)
  then show ?thesis using assms(1) by (simp add: kalloc_def kmem_inv_def)
qed

lemma kalloc_nonempty:
  assumes "kmem_inv s" "free_pages s \<noteq> {}"
  shows "\<exists>p f. kalloc s = Ret p (s\<lparr>mem := memset p 5 PGSIZE (mem s), freelist := f\<rparr>) \<and> p \<in> free_pages s \<and>
    kmem_inv (s\<lparr>mem := memset p 5 PGSIZE (mem s), freelist := f\<rparr>) \<and>
    free_pages (s\<lparr>mem := memset p 5 PGSIZE (mem s), freelist := f\<rparr>) = free_pages s - {p}"
proof -
  obtain ps where ps: "kfl s ps" using assms(1) by (auto simp: kmem_inv_def)
  with assms(2) obtain p qs where [simp]: "ps = p # qs" by (cases ps) (auto simp: free_pages_kfl)
  let ?f = "ld64 (mem s) p"
  let ?t = "s\<lparr>mem := memset p 5 PGSIZE (mem s), freelist := ?f\<rparr>"
  have p: "freelist s = p" "p \<noteq> 0" "flist (mem s) ?f qs" "PGROUNDDOWN p = p" "p \<notin> set qs"
    using ps by (auto simp: kfl_def valid_page_pgdown)
  have "ld64 (mem s) q = ld64 (mem ?t) q" if "q \<in> set qs" for q
  proof (rule ld64_other_page)
    show "PGROUNDDOWN q = q" using ps that by (auto simp: kfl_def valid_page_pgdown)
    show "mem s a = mem ?t a" if "PGROUNDDOWN a = q" for a
    proof -
      have "PGROUNDDOWN a \<noteq> p" using that p(5) \<open>q \<in> set qs\<close> by blast
      then show ?thesis by (simp add: memset_at in_page_iff [OF p(4)])
    qed
  qed
  then have "flist (mem s) ?f qs = flist (mem ?t) ?f qs" by (rule flist_cong)
  with p(3) ps have t: "kfl ?t qs" by (simp add: kfl_def)
  have "kalloc s = Ret p ?t"
    using assms(1) p by (simp add: kalloc_def kmem_inv_def)
  moreover have "free_pages s = insert p (set qs)" "free_pages ?t = set qs"
    using free_pages_kfl [OF ps] free_pages_kfl [OF t] by simp_all
  moreover have "kmem_inv ?t" using t assms(1) by (auto simp: kmem_inv_def)
  ultimately show ?thesis using p(5) by (intro exI [of _ p] exI [of _ ?f]) simp
qed

lemma kfree_valid:
  assumes "kmem_inv s" "valid_page (kend s) p" "p \<notin> free_pages s"
  shows "\<exists>m. kfree p s = Ret () (s\<lparr>mem := m, freelist := p\<rparr>) \<and>
    (\<forall>a. PGROUNDDOWN a \<noteq> p \<longrightarrow> m a = mem s a) \<and>
    kmem_inv (s\<lparr>mem := m, freelist := p\<rparr>) \<and>
    free_pages (s\<lparr>mem := m, freelist := p\<rparr>) = insert p (free_pages s)"
proof -
  obtain ps where ps: "kfl s ps" using assms(1) by (auto simp: kmem_inv_def)
  let ?m = "st64 (memset p 1 PGSIZE (mem s)) p (freelist s)"
  let ?t = "s\<lparr>mem := ?m, freelist := p\<rparr>"
  have pg: "PGROUNDDOWN p = p" using assms(2) by (rule valid_page_pgdown)
  have fr: "kfree p s = Ret () ?t"
    using assms by (simp add: kfree_def kmem_inv_def valid_page_def not_less not_le)
  have frame: "?m a = mem s a" if "PGROUNDDOWN a \<noteq> p" for a
  proof -
    have "\<not> in_area p 8 a" "\<not> in_area p PGSIZE a"
      using that in_page_start [OF pg] in_page_iff [OF pg] by auto
    then show ?thesis by (simp add: memset_at)
  qed
  have notin: "p \<notin> set ps" using assms(3) free_pages_kfl [OF ps] by simp
  have "ld64 (mem s) q = ld64 ?m q" if "q \<in> set ps" for q
  proof (rule ld64_other_page)
    show "PGROUNDDOWN q = q" using ps that by (auto simp: kfl_def valid_page_pgdown)
    show "mem s a = ?m a" if "PGROUNDDOWN a = q" for a
    proof -
      have "PGROUNDDOWN a \<noteq> p" using that notin \<open>q \<in> set ps\<close> by blast
      then show ?thesis by (rule frame [symmetric])
    qed
  qed
  then have "flist (mem s) (freelist s) ps = flist ?m (freelist s) ps" by (rule flist_cong)
  moreover have "p \<noteq> 0" using assms(1,2) by (auto simp: kmem_inv_def valid_page_def)
  ultimately have t: "kfl ?t (p # ps)"
    using ps notin assms(2) by (simp add: kfl_def)
  then have "kmem_inv ?t" using assms(1) by (auto simp: kmem_inv_def)
  moreover have "free_pages ?t = insert p (free_pages s)"
    using free_pages_kfl [OF ps] free_pages_kfl [OF t] by simp
  ultimately show ?thesis using fr frame by (intro exI [of _ ?m]) simp
qed

lemma kfree_invalid: "\<not> valid_page (kend s) p \<Longrightarrow> kfree p s = Panic ''kfree''"
  unfolding kfree_def valid_page_def linorder_not_less [symmetric] de_Morgan_conj not_not by argo

section \<open>The allocator's contract\<close>

text \<open>
  What the users of the allocator rely on: a failed allocation changes nothing, a successful one
  takes a page out of the free set, freeing a page that is not free puts it back, and neither
  touches the bytes of any other page.
\<close>

locale page_allocator =
  fixes alloc :: "'s \<Rightarrow> ('s, uint64) res"
    and free :: "uint64 \<Rightarrow> 's \<Rightarrow> ('s, unit) res"
    and avail :: "'s \<Rightarrow> uint64 set"
    and pg_ok :: "'s \<Rightarrow> uint64 \<Rightarrow> bool"
    and bytes :: "'s \<Rightarrow> memory"
    and good :: "'s \<Rightarrow> bool"
  assumes avail_ok: "p \<in> avail s \<Longrightarrow> pg_ok s p"
    and avail_finite: "finite (avail s)"
    and alloc_none: "good s \<Longrightarrow> avail s = {} \<Longrightarrow> alloc s = Ret 0 s"
    and alloc_some: "good s \<Longrightarrow> avail s \<noteq> {} \<Longrightarrow>
      \<exists>p t. alloc s = Ret p t \<and> p \<in> avail s \<and> avail t = avail s - {p} \<and> good t \<and> pg_ok t = pg_ok s \<and>
            (\<forall>a. PGROUNDDOWN a \<noteq> p \<longrightarrow> bytes t a = bytes s a)"
    and free_page: "good s \<Longrightarrow> pg_ok s p \<Longrightarrow> p \<notin> avail s \<Longrightarrow>
      \<exists>t. free p s = Ret () t \<and> avail t = insert p (avail s) \<and> good t \<and> pg_ok t = pg_ok s \<and>
          (\<forall>a. PGROUNDDOWN a \<noteq> p \<longrightarrow> bytes t a = bytes s a)"

text \<open>Allocating \<open>n\<close> pages one after the other, and freeing a list of pages.\<close>

fun alloc_many :: "('s \<Rightarrow> ('s, uint64) res) \<Rightarrow> nat \<Rightarrow> 's \<Rightarrow> ('s, uint64 list) res" where
  "alloc_many al 0 s = Ret [] s"
| "alloc_many al (Suc n) s = bnd (al s) (\<lambda>p s. bnd (alloc_many al n s) (\<lambda>ps s. Ret (p # ps) s))"

context page_allocator
begin

lemma alloc_many_distinct:
  assumes "good s" "n \<le> card (avail s)"
  shows "\<exists>ps t. alloc_many alloc n s = Ret ps t \<and> length ps = n \<and> distinct ps \<and> set ps \<subseteq> avail s \<and>
    avail t = avail s - set ps \<and> good t \<and> pg_ok t = pg_ok s \<and>
    (\<forall>a. PGROUNDDOWN a \<notin> set ps \<longrightarrow> bytes t a = bytes s a)"
  using assms
proof (induction n arbitrary: s)
  case 0
  then show ?case by simp
next
  case (Suc n)
  then have "avail s \<noteq> {}" by auto
  with Suc.prems(1) obtain p u where pu: "alloc s = Ret p u" "p \<in> avail s" "avail u = avail s - {p}"
    "good u" "pg_ok u = pg_ok s" "\<And>a. PGROUNDDOWN a \<noteq> p \<Longrightarrow> bytes u a = bytes s a"
    using alloc_some by metis
  then have "n \<le> card (avail u)" using Suc.prems(2) avail_finite by (simp add: card_Diff_singleton)
  with Suc.IH [OF pu(4)] obtain ps t where t: "alloc_many alloc n u = Ret ps t" "length ps = n" "distinct ps"
    "set ps \<subseteq> avail u" "avail t = avail u - set ps" "good t" "pg_ok t = pg_ok u"
    "\<And>a. PGROUNDDOWN a \<notin> set ps \<Longrightarrow> bytes t a = bytes u a"
    by blast
  have "alloc_many alloc (Suc n) s = Ret (p # ps) t" using pu(1) t(1) by simp
  moreover have "set (p # ps) \<subseteq> avail s" "distinct (p # ps)" "avail t = avail s - set (p # ps)"
    using pu(2,3) t(3-5) by auto
  moreover have "bytes t a = bytes s a" if "PGROUNDDOWN a \<notin> set (p # ps)" for a
    using that t(8) pu(6) by simp
  ultimately show ?case
    using t(2,6,7) pu(5) by (intro exI [of _ "p # ps"] exI [of _ t]) simp
qed

lemma free_many:
  assumes "good s" "distinct ps" "\<forall>p \<in> set ps. pg_ok s p" "set ps \<inter> avail s = {}"
  shows "\<exists>t. foreach ps free s = Ret () t \<and> avail t = avail s \<union> set ps \<and> good t \<and> pg_ok t = pg_ok s \<and>
    (\<forall>a. PGROUNDDOWN a \<notin> set ps \<longrightarrow> bytes t a = bytes s a)"
  using assms
proof (induction ps arbitrary: s)
  case Nil
  then show ?case by simp
next
  case (Cons p ps)
  then obtain u where u: "free p s = Ret () u" "avail u = insert p (avail s)" "good u" "pg_ok u = pg_ok s"
    "\<And>a. PGROUNDDOWN a \<noteq> p \<Longrightarrow> bytes u a = bytes s a"
    using free_page [of s p] by auto
  have "distinct ps" "\<forall>p \<in> set ps. pg_ok u p" "set ps \<inter> avail u = {}"
    using Cons.prems u(2,4) by auto
  with Cons.IH [OF u(3)] obtain t where "foreach ps free u = Ret () t" "avail t = avail u \<union> set ps"
    "good t" "pg_ok t = pg_ok u" "\<And>a. PGROUNDDOWN a \<notin> set ps \<Longrightarrow> bytes t a = bytes u a"
    by blast
  with u show ?case by auto
qed

text \<open>Pages taken and given back in any order: the free set is as before, other pages untouched.\<close>

lemma alloc_free_many:
  assumes "good s" "n \<le> card (avail s)"
  shows "\<exists>ps t. alloc_many alloc n s = Ret ps t \<and> length ps = n \<and> distinct ps \<and> set ps \<subseteq> avail s \<and>
    avail t = avail s - set ps \<and>
    (\<forall>qs. distinct qs \<and> set qs = set ps \<longrightarrow>
       (\<exists>u. foreach qs free t = Ret () u \<and> avail u = avail s \<and> good u \<and>
            (\<forall>a. PGROUNDDOWN a \<notin> set ps \<longrightarrow> bytes u a = bytes s a)))"
proof -
  obtain ps t where t: "alloc_many alloc n s = Ret ps t" "length ps = n" "distinct ps" "set ps \<subseteq> avail s"
    "avail t = avail s - set ps" "good t" "pg_ok t = pg_ok s"
    "\<And>a. PGROUNDDOWN a \<notin> set ps \<Longrightarrow> bytes t a = bytes s a"
    using alloc_many_distinct [OF assms] by blast
  have "\<exists>u. foreach qs free t = Ret () u \<and> avail u = avail s \<and> good u \<and>
      (\<forall>a. PGROUNDDOWN a \<notin> set ps \<longrightarrow> bytes u a = bytes s a)"
    if "distinct qs" "set qs = set ps" for qs
  proof -
    have "\<forall>p \<in> set qs. pg_ok t p" "set qs \<inter> avail t = {}"
      using that t(4,5,7) avail_ok by auto
    from free_many [OF t(6) that(1) this] obtain u where
      "foreach qs free t = Ret () u" "avail u = avail t \<union> set qs" "good u"
      "\<And>a. PGROUNDDOWN a \<notin> set qs \<Longrightarrow> bytes u a = bytes t a"
      by blast
    with that t show ?thesis by (intro exI [of _ u]) auto
  qed
  with t show ?thesis by blast
qed

end

interpretation km: page_allocator kalloc kfree free_pages "\<lambda>s. valid_page (kend s)" mem kmem_inv
proof
  fix s :: "'a kmem_state_scheme" and p
  show "p \<in> free_pages s \<Longrightarrow> valid_page (kend s) p" by (rule free_pages_valid)
  show "finite (free_pages s)" by simp
  show "kmem_inv s \<Longrightarrow> free_pages s = {} \<Longrightarrow> kalloc s = Ret 0 s" by (rule kalloc_empty)
  assume inv: "kmem_inv s"
  show "\<exists>p t. kalloc s = Ret p t \<and> p \<in> free_pages s \<and> free_pages t = free_pages s - {p} \<and> kmem_inv t \<and>
      valid_page (kend t) = valid_page (kend s) \<and> (\<forall>a. PGROUNDDOWN a \<noteq> p \<longrightarrow> mem t a = mem s a)"
    if ne: "free_pages s \<noteq> {}"
  proof -
    obtain p f where *: "kalloc s = Ret p (s\<lparr>mem := memset p 5 PGSIZE (mem s), freelist := f\<rparr>)"
      "p \<in> free_pages s" "kmem_inv (s\<lparr>mem := memset p 5 PGSIZE (mem s), freelist := f\<rparr>)"
      "free_pages (s\<lparr>mem := memset p 5 PGSIZE (mem s), freelist := f\<rparr>) = free_pages s - {p}"
      using kalloc_nonempty [OF inv ne] by blast
    have "memset p 5 PGSIZE (mem s) a = mem s a" if "PGROUNDDOWN a \<noteq> p" for a
      using that in_page_iff [OF valid_page_pgdown [OF free_pages_valid [OF *(2)]]]
      by (simp add: memset_at)
    with * show ?thesis by auto
  qed
  show "\<exists>t. kfree p s = Ret () t \<and> free_pages t = insert p (free_pages s) \<and> kmem_inv t \<and>
      valid_page (kend t) = valid_page (kend s) \<and> (\<forall>a. PGROUNDDOWN a \<noteq> p \<longrightarrow> mem t a = mem s a)"
    if "valid_page (kend s) p" "p \<notin> free_pages s"
    using kfree_valid [OF inv that] by auto
qed

section \<open>Boot: freerange and kinit\<close>

text \<open>The pages \<^verbatim>\<open>freerange\<close> frees: \<open>n\<close> of them, from \<open>p\<close> on.\<close>

definition page_run :: "uint64 \<Rightarrow> nat \<Rightarrow> uint64 list" where
  "page_run p n = map (\<lambda>i. p + 4096 * of_nat i) [0..<n]"

lemma page_run_Suc: "page_run p (Suc n) = p # page_run (p + 4096) n"
  by (simp add: page_run_def upt_conv_Cons map_Suc_upt [symmetric] comp_def algebra_simps del: upt_Suc)

lemma unat_add_no_wrap: "unat (a :: uint64) + unat b < 2 ^ 64 \<Longrightarrow> unat (a + b) = unat a + unat b"
  by (simp add: unat_word_ariths(1))

lemma freerange_loop_eq:
  fixes s :: "'z kmem_state_scheme"
  assumes "unat p + 4096 * n \<le> unat e" "unat e < unat p + 4096 * Suc n" "unat e + 4096 < 2 ^ 64"
  shows "freerange_loop p e s = Some (foreach (page_run p n) kfree s)"
  using assms
proof (induction n arbitrary: p s)
  case 0
  then have "unat (p + 4096) = unat p + 4096" by (subst unat_add_no_wrap) simp_all
  then have "\<not> p + 4096 \<le> e" using 0 by (simp add: word_le_nat_alt)
  then show ?case by (subst freerange_loop.simps) (simp add: page_run_def)
next
  case (Suc n)
  have p: "unat (p + 4096) = unat p + 4096" using Suc.prems by (subst unat_add_no_wrap) simp_all
  then have le: "p + 4096 \<le> e" using Suc.prems by (simp add: word_le_nat_alt)
  have "freerange_loop (p + 4096) e u = Some (foreach (page_run (p + 4096) n) kfree u)"
    for u :: "'z kmem_state_scheme"
    using Suc.prems p by (intro Suc.IH) simp_all
  with le show ?case
    by (subst freerange_loop.simps) (simp add: page_run_Suc split: res.split)
qed

lemma unat_pgroundup:
  assumes "unat a + 4096 \<le> 2 ^ 64"
  shows "unat (PGROUNDUP a) = (unat a + 4095) div 4096 * 4096"
proof -
  have "PGROUNDUP a = PGROUNDDOWN (a + 4095)" by (simp add: PGROUNDUP_def PGROUNDDOWN_def add.commute)
  moreover have "unat (a + 4095) = unat a + 4095" using assms by (subst unat_add_no_wrap) simp_all
  ultimately show ?thesis by (simp add: unat_pgdown)
qed

lemma unat_PHYSTOP: "unat PHYSTOP = 0x88000 * 4096"
  by (simp add: PHYSTOP_def KERNBASE_def)

text \<open>The run of pages from the end \<open>ke\<close> of the kernel up to \<open>PHYSTOP\<close>.\<close>

definition kernel_run :: "uint64 \<Rightarrow> uint64 list" where
  "kernel_run ke = page_run (PGROUNDUP ke) (0x88000 - (unat ke + 4095) div 4096)"

lemma kernel_run_at:
  assumes "ke \<le> PHYSTOP" "i < 0x88000 - (unat ke + 4095) div 4096"
  shows "unat (PGROUNDUP ke + 4096 * of_nat i) = ((unat ke + 4095) div 4096 + i) * 4096"
proof -
  have "unat ke \<le> 0x88000 * 4096" using assms(1) by (simp add: unat_PHYSTOP word_le_nat_alt)
  then have p: "unat (PGROUNDUP ke) = (unat ke + 4095) div 4096 * 4096" by (simp add: unat_pgroundup)
  have "unat (4096 * of_nat i :: uint64) = 4096 * i"
    using assms(2) by (simp add: unat_word_ariths(2) unat_of_nat take_bit_nat_eq_self)
  moreover have "(unat ke + 4095) div 4096 * 4096 + 4096 * i < 2 ^ 64" using assms(2) by simp
  ultimately show ?thesis using p by (subst unat_add_no_wrap) simp_all
qed

lemma distinct_kernel_run: "ke \<le> PHYSTOP \<Longrightarrow> distinct (kernel_run ke)"
proof -
  assume ke: "ke \<le> PHYSTOP"
  let ?n = "0x88000 - (unat ke + 4095) div 4096"
  have "inj_on (\<lambda>i. PGROUNDUP ke + 4096 * of_nat i) {0..<?n}"
  proof (rule inj_onI)
    fix i j assume ij: "i \<in> {0..<?n}" "j \<in> {0..<?n}"
      "PGROUNDUP ke + 4096 * of_nat i = PGROUNDUP ke + 4096 * of_nat j"
    then have "unat (PGROUNDUP ke + 4096 * of_nat i) = unat (PGROUNDUP ke + 4096 * of_nat j)" by metis
    then show "i = j" using kernel_run_at [OF ke, of i] kernel_run_at [OF ke, of j] ij(1,2) by simp
  qed
  then show ?thesis by (simp add: kernel_run_def page_run_def distinct_map)
qed

lemma set_kernel_run:
  assumes "ke \<le> PHYSTOP"
  shows "set (kernel_run ke) = {p. valid_page ke p}"
proof (intro set_eqI iffI)
  let ?k = "(unat ke + 4095) div 4096"
  fix q assume "q \<in> set (kernel_run ke)"
  then obtain i where i: "i < 0x88000 - ?k" "q = PGROUNDUP ke + 4096 * of_nat i"
    by (auto simp: kernel_run_def page_run_def)
  then have q: "unat q = (?k + i) * 4096" using kernel_run_at [OF assms] by simp
  then have "unat (q mod 4096) = 0" by (simp add: unat_mod)
  then have "q mod 4096 = 0" by (simp add: unat_eq_zero)
  moreover have "unat ke \<le> ?k * 4096" by simp
  then have "unat ke \<le> unat q" using q by simp
  ultimately show "q \<in> {p. valid_page ke p}"
    using q i(1) by (simp add: valid_page_def unat_PHYSTOP word_le_nat_alt word_less_nat_alt)
next
  let ?k = "(unat ke + 4095) div 4096"
  fix q assume "q \<in> {p. valid_page ke p}"
  then have v: "valid_page ke q" by simp
  have q: "unat q = unat q div 4096 * 4096"
    using unat_pgdown [of q] valid_page_pgdown [OF v] by simp
  have b: "unat ke \<le> unat q" "unat q < 0x88000 * 4096"
    using v by (simp_all add: valid_page_def unat_PHYSTOP word_le_nat_alt word_less_nat_alt)
  have "?k \<le> (unat q + 4095) div 4096" using b(1) by (simp add: div_le_mono)
  also have "\<dots> = unat q div 4096" by (subst q) simp
  finally have k: "?k \<le> unat q div 4096" .
  define i where "i = unat q div 4096 - ?k"
  have "i < 0x88000 - ?k" "unat q = (?k + i) * 4096" using q k b(2) by (simp_all add: i_def)
  then have "i < 0x88000 - ?k" "q = PGROUNDUP ke + 4096 * of_nat i"
    using kernel_run_at [OF assms, of i] by (simp_all add: word_unat_eq_iff)
  then show "q \<in> set (kernel_run ke)" by (auto simp: kernel_run_def page_run_def)
qed

text \<open>
  C27. At boot the free list is empty; \<^verbatim>\<open>kinit\<close> returns without a panic and the free pages are then
  exactly the whole pages between the end of the kernel and the top of physical memory.
\<close>

theorem kinit_frees_all:
  assumes "freelist s = 0" "0 < kend s" "kend s \<le> PHYSTOP" "L_kmem \<notin> held s"
  shows "\<exists>t. kinit s = Some (Ret () t) \<and> kmem_inv t \<and>
    free_pages t = {p. p mod 4096 = 0 \<and> kend s \<le> p \<and> p < PHYSTOP}"
proof -
  have "kfl s []" using assms(1) by (simp add: kfl_def)
  then have inv: "kmem_inv s" "free_pages s = {}"
    using assms by (auto simp: kmem_inv_def free_pages_kfl)
  from km.free_many [OF inv(1) distinct_kernel_run [OF assms(3)]] obtain t where
    t: "foreach (kernel_run (kend s)) kfree s = Ret () t" "free_pages t = {p. valid_page (kend s) p}" "kmem_inv t"
    using set_kernel_run [OF assms(3)] inv(2) by auto
  have ke: "unat (kend s) \<le> 0x88000 * 4096" using assms(3) by (simp add: unat_PHYSTOP word_le_nat_alt)
  have "freerange_loop (PGROUNDUP (kend s)) PHYSTOP s = Some (foreach (kernel_run (kend s)) kfree s)"
    unfolding kernel_run_def
  proof (rule freerange_loop_eq)
    have "unat (PGROUNDUP (kend s)) = (unat (kend s) + 4095) div 4096 * 4096"
      using ke by (simp add: unat_pgroundup)
    moreover have "(unat (kend s) + 4095) div 4096 \<le> 0x88000" using ke by simp
    ultimately show "unat (PGROUNDUP (kend s)) + 4096 * (0x88000 - (unat (kend s) + 4095) div 4096) \<le> unat PHYSTOP"
      "unat PHYSTOP < unat (PGROUNDUP (kend s)) + 4096 * Suc (0x88000 - (unat (kend s) + 4095) div 4096)"
      by (simp_all add: unat_PHYSTOP)
  qed (simp add: unat_PHYSTOP)
  with t show ?thesis by (simp add: kinit_def freerange_def valid_page_def)
qed

text \<open>The allocator's variables at power on, for a kernel image that ends at \<open>0x80022000\<close>.\<close>

definition kmem_boot :: kmem_state where
  "kmem_boot = \<lparr>held = {}, procs = (\<lambda>_. zero_proc), curproc = None, consout = '''',
     mem = (\<lambda>_. 0), freelist = 0, kend = 0x80022000\<rparr>"

theorem kinit_frees_all_witness:
  "\<exists>t. kinit kmem_boot = Some (Ret () t) \<and> 0x80022000 \<in> free_pages t \<and> 0x87fff000 \<in> free_pages t"
proof -
  have "freelist kmem_boot = 0" "0 < kend kmem_boot" "kend kmem_boot \<le> PHYSTOP" "L_kmem \<notin> held kmem_boot"
    by (simp_all add: kmem_boot_def PHYSTOP_def KERNBASE_def)
  from kinit_frees_all [OF this] show ?thesis
    by (auto simp: kmem_boot_def PHYSTOP_def KERNBASE_def)
qed

text \<open>
  C25. \<^verbatim>\<open>kalloc\<close> and \<^verbatim>\<open>kfree\<close> refine operations on the set of free pages. With no page free, \<^verbatim>\<open>kalloc\<close>
  returns 0 and changes nothing; otherwise it returns a free page, filled with 5s, that is no longer
  free. \<^verbatim>\<open>kfree\<close> of a page in range that is not free makes it free, and of anything misaligned or
  out of range panics. Both change no byte outside the page and keep the list well formed.
\<close>

theorem kalloc_kfree_refine_set:
  assumes "kmem_inv s"
  shows "(if free_pages s = {} then kalloc s = Ret 0 s
          else \<exists>p t. kalloc s = Ret p t \<and> p \<noteq> 0 \<and> p \<in> free_pages s \<and> free_pages t = free_pages s - {p} \<and>
                 kmem_inv t \<and> (\<forall>a. mem t a = (if PGROUNDDOWN a = p then 5 else mem s a)))
    \<and> (if p mod 4096 = 0 \<and> kend s \<le> p \<and> p < PHYSTOP then p \<notin> free_pages s \<longrightarrow>
          (\<exists>t. kfree p s = Ret () t \<and> free_pages t = insert p (free_pages s) \<and> kmem_inv t \<and>
               (\<forall>a. PGROUNDDOWN a \<noteq> p \<longrightarrow> mem t a = mem s a))
        else kfree p s = Panic ''kfree'')"
proof (intro conjI)
  show "if free_pages s = {} then kalloc s = Ret 0 s
    else \<exists>p t. kalloc s = Ret p t \<and> p \<noteq> 0 \<and> p \<in> free_pages s \<and> free_pages t = free_pages s - {p} \<and>
           kmem_inv t \<and> (\<forall>a. mem t a = (if PGROUNDDOWN a = p then 5 else mem s a))"
  proof (cases "free_pages s = {}")
    case True
    then show ?thesis using kalloc_empty [OF assms] by simp
  next
    case False
    then obtain p f where *: "kalloc s = Ret p (s\<lparr>mem := memset p 5 PGSIZE (mem s), freelist := f\<rparr>)"
      "p \<in> free_pages s" "kmem_inv (s\<lparr>mem := memset p 5 PGSIZE (mem s), freelist := f\<rparr>)"
      "free_pages (s\<lparr>mem := memset p 5 PGSIZE (mem s), freelist := f\<rparr>) = free_pages s - {p}"
      using kalloc_nonempty [OF assms False] by blast
    have v: "valid_page (kend s) p" using *(2) by (rule free_pages_valid)
    then have "p \<noteq> 0" using assms by (auto simp: kmem_inv_def valid_page_def)
    moreover have "memset p 5 PGSIZE (mem s) a = (if PGROUNDDOWN a = p then 5 else mem s a)" for a
      using in_page_iff [OF valid_page_pgdown [OF v], of a] by (simp add: memset_at)
    ultimately show ?thesis using False * by auto
  qed
  show "if p mod 4096 = 0 \<and> kend s \<le> p \<and> p < PHYSTOP then p \<notin> free_pages s \<longrightarrow>
      (\<exists>t. kfree p s = Ret () t \<and> free_pages t = insert p (free_pages s) \<and> kmem_inv t \<and>
           (\<forall>a. PGROUNDDOWN a \<noteq> p \<longrightarrow> mem t a = mem s a))
    else kfree p s = Panic ''kfree''"
  proof (cases "valid_page (kend s) p")
    case True
    then show ?thesis unfolding valid_page_def [symmetric] using km.free_page [OF assms True] by auto
  next
    case False
    then show ?thesis unfolding valid_page_def [symmetric] using kfree_invalid [OF False] by simp
  qed
qed

text \<open>
  C26. Pages handed out are pairwise distinct, and handing them back in any order restores the set
  of free pages without touching any other page's bytes.
\<close>

theorem kalloc_kfree_any_order:
  assumes "kmem_inv s" "n \<le> card (free_pages s)"
  shows "\<exists>ps t. alloc_many kalloc n s = Ret ps t \<and> length ps = n \<and> distinct ps \<and> set ps \<subseteq> free_pages s \<and>
    free_pages t = free_pages s - set ps \<and>
    (\<forall>qs. distinct qs \<and> set qs = set ps \<longrightarrow>
       (\<exists>u. foreach qs kfree t = Ret () u \<and> free_pages u = free_pages s \<and> kmem_inv u \<and>
            (\<forall>a. PGROUNDDOWN a \<notin> set ps \<longrightarrow> mem u a = mem s a)))"
  using assms by (rule km.alloc_free_many)

text \<open>A state with three free pages: boot, then three calls of \<^verbatim>\<open>kfree\<close>.\<close>

lemma three_free:
  "\<exists>s. foreach [0x80022000, 0x80023000, 0x80024000] kfree kmem_boot = Ret () s \<and> kmem_inv s \<and>
     free_pages s = {0x80022000, 0x80023000, 0x80024000}"
proof -
  have "kfl kmem_boot []" by (simp add: kfl_def kmem_boot_def)
  then have "kmem_inv kmem_boot" "free_pages kmem_boot = {}"
    by (auto simp: kmem_inv_def free_pages_kfl) (simp_all add: kmem_boot_def)
  then show ?thesis
    using km.free_many [of kmem_boot "[0x80022000, 0x80023000, 0x80024000]"]
    by (auto simp: valid_page_def kmem_boot_def PHYSTOP_def KERNBASE_def insert_commute)
qed

theorem kalloc_kfree_refine_set_witness:
  "\<exists>s :: kmem_state. kmem_inv s \<and> free_pages s \<noteq> {} \<and>
     (\<exists>p t. kalloc s = Ret p t \<and> p \<in> free_pages s \<and> free_pages t = free_pages s - {p}) \<and>
     kfree 0x80022001 s = Panic ''kfree''"
proof -
  obtain s :: kmem_state where s: "kmem_inv s" "free_pages s = {0x80022000, 0x80023000, 0x80024000}"
    using three_free by blast
  then show ?thesis
    using kalloc_kfree_refine_set [OF s(1), of "0x80022001"] by (intro exI [of _ s]) auto
qed

theorem kalloc_kfree_any_order_witness:
  "\<exists>s ps t u. kmem_inv (s :: kmem_state) \<and> alloc_many kalloc 3 s = Ret ps t \<and> distinct ps \<and> free_pages t = {} \<and>
     foreach (rev ps) kfree t = Ret () u \<and> free_pages u = {0x80022000, 0x80023000, 0x80024000}"
proof -
  obtain s :: kmem_state where s: "kmem_inv s" "free_pages s = {0x80022000, 0x80023000, 0x80024000}"
    using three_free by blast
  then have three: "3 \<le> card (free_pages s)" by simp
  obtain ps t where t: "alloc_many kalloc 3 s = Ret ps t" "length ps = 3" "distinct ps" "set ps \<subseteq> free_pages s"
    "free_pages t = free_pages s - set ps"
    "\<forall>qs. distinct qs \<and> set qs = set ps \<longrightarrow>
       (\<exists>u. foreach qs kfree t = Ret () u \<and> free_pages u = free_pages s \<and> kmem_inv u \<and>
            (\<forall>a. PGROUNDDOWN a \<notin> set ps \<longrightarrow> mem u a = mem s a))"
    using kalloc_kfree_any_order [OF s(1) three] by (elim exE conjE) rule
  have "set ps = free_pages s"
    using t(2,3,4) s(2) by (intro card_subset_eq) (simp_all add: distinct_card)
  moreover obtain u where "foreach (rev ps) kfree t = Ret () u" "free_pages u = free_pages s"
    using t(6) t(3) distinct_rev set_rev by metis
  ultimately show ?thesis using s t(1,3,5) by (intro exI [of _ s] exI [of _ ps] exI [of _ t] exI [of _ u]) simp
qed

end
