(* ===== verification/Sleeplock.thy ===== *)
theory Sleeplock
  imports Kalloc
begin

text \<open>
  \<^verbatim>\<open>kernel/sleeplock.c\<close>. A call of \<^verbatim>\<open>acquiresleep\<close> that finds the lock taken puts the process to sleep on
  the lock's channel; the second part of its loop runs when the process is scheduled again. The
  theory runs any number of processes against one lock, with \<^verbatim>\<open>kill\<close> waking sleepers at any time,
  and proves that at most one of them has the lock and that no wakeup is lost.
\<close>

section \<open>State and operations\<close>

record sleeplock =
  sl_locked :: bool
  sl_name :: string
  sl_pid :: cint

record slock_state = kmem_state +
  slocks :: "slid \<Rightarrow> sleeplock"

definition upd_slock :: "slid \<Rightarrow> (sleeplock \<Rightarrow> sleeplock) \<Rightarrow> 'z slock_state_scheme \<Rightarrow> 'z slock_state_scheme" where
  "upd_slock l f s = s\<lparr>slocks := (slocks s)(l := f (slocks s l))\<rparr>"

definition initsleeplock :: "slid \<Rightarrow> string \<Rightarrow> 'z slock_state_scheme \<Rightarrow> 'z slock_state_scheme" where
  "initsleeplock l nm s = upd_slock l (\<lambda>_. \<lparr>sl_locked = False, sl_name = nm, sl_pid = 0\<rparr>) s"

text \<open>The body of \<^verbatim>\<open>acquiresleep\<close> from the test of its loop on, with the spin lock held.\<close>

definition acquiresleep_loop :: "slid \<Rightarrow> 'z slock_state_scheme \<Rightarrow> ('z slock_state_scheme, unit) res" where
  "acquiresleep_loop l s =
     (if sl_locked (slocks s l) then sleep (Ch_sleeplock l) (L_sleep l) s
      else let s = upd_slock l (\<lambda>k. k\<lparr>sl_locked := True\<rparr>) s in
        bnd (myproc s) (\<lambda>p s.
        let s = upd_slock l (\<lambda>k. k\<lparr>sl_pid := p_pid (procs s p)\<rparr>) s in
        rel (L_sleep l) s))"

definition acquiresleep :: "slid \<Rightarrow> 'z slock_state_scheme \<Rightarrow> ('z slock_state_scheme, unit) res" where
  "acquiresleep l s = bnd (acq (L_sleep l) s) (\<lambda>_ s. acquiresleep_loop l s)"

definition acquiresleep_resume :: "slid \<Rightarrow> 'z slock_state_scheme \<Rightarrow> ('z slock_state_scheme, unit) res" where
  "acquiresleep_resume l s = bnd (sleep_resume (L_sleep l) s) (\<lambda>_ s. acquiresleep_loop l s)"

definition releasesleep :: "slid \<Rightarrow> 'z slock_state_scheme \<Rightarrow> ('z slock_state_scheme, unit) res" where
  "releasesleep l s =
     bnd (acq (L_sleep l) s) (\<lambda>_ s.
     let s = upd_slock l (\<lambda>k. k\<lparr>sl_locked := False, sl_pid := 0\<rparr>) s in
     bnd (wakeup (Ch_sleeplock l) s) (\<lambda>_ s.
     rel (L_sleep l) s))"

definition holdingsleep :: "slid \<Rightarrow> 'z slock_state_scheme \<Rightarrow> ('z slock_state_scheme, bool) res" where
  "holdingsleep l s =
     bnd (acq (L_sleep l) s) (\<lambda>_ s.
     bnd (if sl_locked (slocks s l)
          then bnd (myproc s) (\<lambda>p s. Ret (sl_pid (slocks s l) = p_pid (procs s p)) s)
          else Ret False s) (\<lambda>r s.
     bnd (rel (L_sleep l) s) (\<lambda>_ s.
     Ret r s)))"

section \<open>One call\<close>

lemma may_wake_iff: "\<forall>i. L_proc i \<notin> held s \<Longrightarrow> may_wake s"
  by (simp add: may_wake_def)

lemma acquiresleep_free:
  assumes "L_sleep l \<notin> held s" "curproc s = Some p" "\<not> sl_locked (slocks s l)"
  shows "acquiresleep l s = Ret () (upd_slock l (\<lambda>k. k\<lparr>sl_locked := True, sl_pid := p_pid (procs s p)\<rparr>) s)"
  using assms by (simp add: acquiresleep_def acquiresleep_loop_def upd_slock_def Let_def)

lemma acquiresleep_taken:
  assumes "held s = {}" "curproc s = Some p" "sl_locked (slocks s l)"
  shows "acquiresleep l s = Sleep (Ch_sleeplock l)
    (upd_proc p (\<lambda>q. q\<lparr>p_chan := Some (Ch_sleeplock l), p_state := SLEEPING\<rparr>) (s\<lparr>held := {L_proc p}\<rparr>))"
  using assms
  by (simp add: acquiresleep_def acquiresleep_loop_def sleep_def sched_def upd_proc_def insert_Diff_if)

lemma releasesleep_Ret:
  assumes "L_sleep l \<notin> held s" "\<forall>i. L_proc i \<notin> held s"
  shows "releasesleep l s =
    Ret () ((upd_slock l (\<lambda>k. k\<lparr>sl_locked := False, sl_pid := 0\<rparr>) s)
      \<lparr>procs := woken (Ch_sleeplock l) (curproc s) (procs s)\<rparr>)"
  using assms by (simp add: releasesleep_def may_wake_def upd_slock_def Let_def)

lemma holdingsleep_Ret [simp]:
  assumes "L_sleep l \<notin> held s" "curproc s = Some p"
  shows "holdingsleep l s =
    Ret (sl_locked (slocks s l) \<and> sl_pid (slocks s l) = p_pid (procs s p)) s"
  using assms by (simp add: holdingsleep_def)

section \<open>Many processes and one lock\<close>

text \<open>
  \<open>slown\<close> is the set of processes whose \<^verbatim>\<open>acquiresleep\<close> returned and that have not called
  \<^verbatim>\<open>releasesleep\<close>. A step is one uninterrupted run of a process holding the lock's spin lock:
  \<open>on p s\<close> is the state as the hart running \<open>p\<close> sees it on entry, \<open>sched_in p s\<close> as it sees it when
  the scheduler switches back to \<open>p\<close> inside \<^verbatim>\<open>sleep\<close>.
\<close>

record slsys = slock_state +
  slown :: "nat set"

definition on :: "nat \<Rightarrow> 'z kstate_scheme \<Rightarrow> 'z kstate_scheme" where
  "on p s = s\<lparr>curproc := Some p, held := {}\<rparr>"

definition sched_in :: "nat \<Rightarrow> 'z kstate_scheme \<Rightarrow> 'z kstate_scheme" where
  "sched_in p s = upd_proc p (\<lambda>q. q\<lparr>p_state := RUNNING\<rparr>) (s\<lparr>curproc := Some p, held := {L_proc p}\<rparr>)"

inductive sl_step :: "slid \<Rightarrow> slsys \<Rightarrow> slsys \<Rightarrow> bool" for l where
  take: "p < NPROC \<Longrightarrow> p_state (procs s p) = RUNNING \<Longrightarrow> acquiresleep l (on p s) = Ret () t \<Longrightarrow>
    sl_step l s (t\<lparr>slown := insert p (slown t)\<rparr>)"
| block: "p < NPROC \<Longrightarrow> p_state (procs s p) = RUNNING \<Longrightarrow> acquiresleep l (on p s) = Sleep c t \<Longrightarrow>
    sl_step l s t"
| take_again: "p < NPROC \<Longrightarrow> p_state (procs s p) = RUNNABLE \<Longrightarrow> p_chan (procs s p) = Some (Ch_sleeplock l) \<Longrightarrow>
    acquiresleep_resume l (sched_in p s) = Ret () t \<Longrightarrow>
    sl_step l s (t\<lparr>slown := insert p (slown t)\<rparr>)"
| block_again: "p < NPROC \<Longrightarrow> p_state (procs s p) = RUNNABLE \<Longrightarrow> p_chan (procs s p) = Some (Ch_sleeplock l) \<Longrightarrow>
    acquiresleep_resume l (sched_in p s) = Sleep c t \<Longrightarrow> sl_step l s t"
| give: "p < NPROC \<Longrightarrow> p_state (procs s p) = RUNNING \<Longrightarrow> p \<in> slown s \<Longrightarrow> releasesleep l (on p s) = Ret () t \<Longrightarrow>
    sl_step l s (t\<lparr>slown := slown t - {p}\<rparr>)"
| kill_one: "p < NPROC \<Longrightarrow> kill pid (on p s) = Ret r t \<Longrightarrow> sl_step l s t"

inductive sl_reach :: "slid \<Rightarrow> slsys \<Rightarrow> bool" for l where
  start: "\<not> sl_locked (slocks s l) \<Longrightarrow> slown s = {} \<Longrightarrow>
    (\<forall>p < NPROC. p_chan (procs s p) \<noteq> Some (Ch_sleeplock l)) \<Longrightarrow> sl_reach l s"
| step: "sl_reach l s \<Longrightarrow> sl_step l s t \<Longrightarrow> sl_reach l t"

inductive_cases sl_stepE: "sl_step l s t"

definition sl_inv :: "slid \<Rightarrow> slsys \<Rightarrow> bool" where
  "sl_inv l s \<longleftrightarrow>
     (sl_locked (slocks s l) \<longleftrightarrow> slown s \<noteq> {}) \<and> (\<forall>p q. p \<in> slown s \<longrightarrow> q \<in> slown s \<longrightarrow> p = q) \<and>
     (\<forall>p < NPROC. p_state (procs s p) = SLEEPING \<and> p_chan (procs s p) = Some (Ch_sleeplock l) \<longrightarrow>
        sl_locked (slocks s l))"

lemma acquiresleep_resume_eq:
  assumes "curproc s = Some p" "held s = {L_proc p}"
  shows "acquiresleep_resume l s = acquiresleep l ((upd_proc p (\<lambda>q. q\<lparr>p_chan := None\<rparr>) s)\<lparr>held := {}\<rparr>)"
  using assms
  by (simp add: acquiresleep_resume_def acquiresleep_def sleep_resume_def upd_proc_def)

lemma sl_inv_acquire:
  assumes "sl_inv l s" "held s = {}" "curproc s = Some p"
  shows "acquiresleep l s = Ret () t \<Longrightarrow> sl_inv l (t\<lparr>slown := insert p (slown t)\<rparr>)"
    and "acquiresleep l s = Sleep c t \<Longrightarrow> sl_inv l t"
  using assms
  by (cases "sl_locked (slocks s l)";
      auto simp: acquiresleep_free acquiresleep_taken sl_inv_def upd_slock_def upd_proc_def split: if_splits)+

lemma sl_inv_view: "sl_inv l s \<Longrightarrow> sl_inv l (s\<lparr>curproc := c, held := h\<rparr>)"
  by (auto simp: sl_inv_def)

lemma sl_inv_wake:
  assumes "sl_inv l s" "\<And>q. q < NPROC \<Longrightarrow> p_state (ps q) = SLEEPING \<Longrightarrow> ps q = procs s q"
  shows "sl_inv l (s\<lparr>procs := ps\<rparr>)"
  using assms by (auto simp: sl_inv_def)

lemma kill_Ret_procs:
  assumes "kill pid s = Ret r t" "\<forall>i. L_proc i \<notin> held s"
  shows "\<exists>ps. t = s\<lparr>procs := ps\<rparr> \<and> (\<forall>q. p_state (ps q) = SLEEPING \<longrightarrow> ps q = procs s q)"
proof (cases "r = 0")
  case True
  then have "\<exists>j. t = upd_proc j (\<lambda>q. if p_state q = SLEEPING
      then q\<lparr>p_killed := True, p_state := RUNNABLE\<rparr> else q\<lparr>p_killed := True\<rparr>) s"
    using assms(1) unfolding kill_def kill_from_Ret [OF assms(2)]
    by (auto simp: Let_def split: if_split_asm)
  then obtain j where t: "t = upd_proc j (\<lambda>q. if p_state q = SLEEPING
      then q\<lparr>p_killed := True, p_state := RUNNABLE\<rparr> else q\<lparr>p_killed := True\<rparr>) s" by blast
  show ?thesis unfolding t upd_proc_def
    by (rule exI, rule conjI, rule refl) (auto split: if_splits)
next
  case False
  then have t: "t = s\<lparr>procs := procs s\<rparr>"
    using assms(1) unfolding kill_def kill_from_Ret [OF assms(2)]
    by (auto simp: Let_def split: if_splits)
  show ?thesis unfolding t by (rule exI, rule conjI, rule refl) simp
qed

lemma sl_inv_resume:
  assumes "sl_inv l s"
  shows "acquiresleep_resume l (sched_in p s) = Ret () t \<Longrightarrow> sl_inv l (t\<lparr>slown := insert p (slown t)\<rparr>)"
    and "acquiresleep_resume l (sched_in p s) = Sleep c t \<Longrightarrow> sl_inv l t"
proof -
  let ?s = "(upd_proc p (\<lambda>q. q\<lparr>p_chan := None\<rparr>) (sched_in p s))\<lparr>held := {}\<rparr>"
  have eq: "acquiresleep_resume l (sched_in p s) = acquiresleep l ?s"
    by (rule acquiresleep_resume_eq) (simp_all add: sched_in_def upd_proc_def)
  have inv: "sl_inv l ?s" using assms by (auto simp: sl_inv_def sched_in_def upd_proc_def)
  have view: "held ?s = {}" "curproc ?s = Some p" by (simp_all add: sched_in_def upd_proc_def)
  show "acquiresleep_resume l (sched_in p s) = Ret () t \<Longrightarrow> sl_inv l (t\<lparr>slown := insert p (slown t)\<rparr>)"
    and "acquiresleep_resume l (sched_in p s) = Sleep c t \<Longrightarrow> sl_inv l t"
    unfolding eq by (blast intro: sl_inv_acquire [OF inv view])+
qed

lemma sl_inv_release:
  assumes "sl_inv l s" "p_state (procs s p) = RUNNING" "p \<in> slown s" "releasesleep l (on p s) = Ret () t"
  shows "sl_inv l (t\<lparr>slown := slown t - {p}\<rparr>)"
proof -
  have t: "t = (upd_slock l (\<lambda>k. k\<lparr>sl_locked := False, sl_pid := 0\<rparr>) (on p s))
      \<lparr>procs := woken (Ch_sleeplock l) (Some p) (procs s)\<rparr>"
    using assms(4) by (simp add: releasesleep_Ret on_def upd_slock_def)
  have "slown t - {p} = {}" using assms(1,3) t by (auto simp: sl_inv_def on_def upd_slock_def)
  moreover have "\<not> (p_state (procs t q) = SLEEPING \<and> p_chan (procs t q) = Some (Ch_sleeplock l))"
    if "q < NPROC" for q
    using that assms(2) t by (auto simp: woken_def Let_def split: if_splits)
  ultimately show ?thesis using t by (auto simp: sl_inv_def upd_slock_def)
qed

lemma sl_inv_step: "sl_step l s t \<Longrightarrow> sl_inv l s \<Longrightarrow> sl_inv l t"
proof (induction rule: sl_step.induct)
  case (take p s t)
  then show ?case using sl_inv_acquire(1) [of l "on p s" p t] by (simp add: on_def sl_inv_view)
next
  case (block p s c t)
  then show ?case using sl_inv_acquire(2) [of l "on p s" p c t] by (simp add: on_def sl_inv_view)
next
  case (take_again p s t)
  then show ?case by (blast intro: sl_inv_resume)
next
  case (block_again p s c t)
  then show ?case by (blast intro: sl_inv_resume)
next
  case (give p s t)
  then show ?case by (blast intro: sl_inv_release)
next
  case (kill_one p pid s r t)
  then obtain ps where "t = (on p s)\<lparr>procs := ps\<rparr>" "\<And>q. p_state (ps q) = SLEEPING \<Longrightarrow> ps q = procs s q"
    using kill_Ret_procs [of pid "on p s" r t] by (auto simp: on_def)
  then show ?case using sl_inv_wake [of l "on p s" ps] kill_one by (simp add: on_def sl_inv_view)
qed

lemma sl_reach_inv: "sl_reach l s \<Longrightarrow> sl_inv l s"
proof (induction rule: sl_reach.induct)
  case (start s)
  then show ?case by (simp add: sl_inv_def)
qed (rule sl_inv_step)


text \<open>Processes 1 and 2 run; 1 takes the lock and 2 goes to sleep waiting for it.\<close>

definition sl_boot :: slsys where
  "sl_boot = \<lparr>held = {}, procs = (\<lambda>_. zero_proc\<lparr>p_state := RUNNING\<rparr>), curproc = None, consout = '''',
     mem = (\<lambda>_. 0), freelist = 0, kend = 0x80022000,
     slocks = (\<lambda>_. \<lparr>sl_locked = False, sl_name = '''', sl_pid = 0\<rparr>), slown = {}\<rparr>"

lemma sl_two:
  "\<exists>s. sl_reach l s \<and> slown s = {1} \<and> p_state (procs s 1) = RUNNING \<and>
     p_state (procs s 2) = SLEEPING \<and> p_chan (procs s 2) = Some (Ch_sleeplock l)"
proof -
  have r0: "sl_reach l sl_boot"
    by (rule sl_reach.start) (simp_all add: sl_boot_def zero_proc_def)
  let ?t = "upd_slock l (\<lambda>k. k\<lparr>sl_locked := True, sl_pid := p_pid (procs (on 1 sl_boot) 1)\<rparr>) (on 1 sl_boot)"
  let ?s = "?t\<lparr>slown := insert 1 (slown ?t)\<rparr>"
  have "acquiresleep l (on 1 sl_boot) = Ret () ?t"
    by (rule acquiresleep_free) (simp_all add: on_def sl_boot_def)
  from sl_step.take [OF _ _ this] have r1: "sl_reach l ?s"
    using r0 by (auto intro: sl_reach.step simp: NPROC_def sl_boot_def zero_proc_def)
  let ?u = "upd_proc 2 (\<lambda>q. q\<lparr>p_chan := Some (Ch_sleeplock l), p_state := SLEEPING\<rparr>)
    ((on 2 ?s)\<lparr>held := {L_proc 2}\<rparr>)"
  have "acquiresleep l (on 2 ?s) = Sleep (Ch_sleeplock l) ?u"
    by (rule acquiresleep_taken) (simp_all add: on_def upd_slock_def)
  from sl_step.block [OF _ _ this] have "sl_reach l ?u"
    using r1 by (auto intro: sl_reach.step simp: NPROC_def on_def upd_slock_def sl_boot_def zero_proc_def)
  then show ?thesis
    by (intro exI [of _ ?u]) (simp add: upd_proc_def on_def upd_slock_def sl_boot_def zero_proc_def)
qed


end
