(* ===== verification/Bio.thy ===== *)
theory Bio
  imports Sleeplock
begin

text \<open>
  \<^verbatim>\<open>kernel/bio.c\<close>, the buffer cache, over a disk that records the writes it is given.
  \<^verbatim>\<open>virtio_disk_rw\<close> appears as its caller sees it once it returns: the transfer between a buffer and
  the disk is done. The disk is its content at power on and the list of block writes since, so that
  the state after a crash is what any prefix of that list leaves.

  The theory shows that the doubly linked list of buffers is a list in order of last use, that a
  block of a device is in at most one buffer, and that \<^verbatim>\<open>bread\<close> returns the block's current
  content, from the cache or from the disk, without changing what any other block reads as.
\<close>

section \<open>Data\<close>

definition BSIZE :: nat where "BSIZE = 1024"
definition MAXOPBLOCKS :: nat where "MAXOPBLOCKS = 10"
definition NBUF :: nat where "NBUF = MAXOPBLOCKS * 3"
definition ROOTDEV :: uint32 where "ROOTDEV = 1"

type_synonym block = "byte list"

text \<open>\<open>Head\<close> is \<^verbatim>\<open>&bcache.head\<close> and \<open>B i\<close> is \<^verbatim>\<open>&bcache.buf[i]\<close>. The sleep lock of buffer \<open>i\<close> is \<open>SL_buf i\<close>.\<close>

datatype bptr = Head | B nat

record buf =
  b_valid :: bool
  b_disk :: bool
  b_dev :: uint32
  b_blockno :: uint32
  b_refcnt :: uint32
  b_data :: block

record bio_state = slock_state +
  bufs :: "nat \<Rightarrow> buf"
  bprev :: "bptr \<Rightarrow> bptr"
  bnext :: "bptr \<Rightarrow> bptr"
  dinit :: "nat \<Rightarrow> block"
  dsize :: nat
  dwrites :: "(nat \<times> block) list"

definition upd_buf :: "nat \<Rightarrow> (buf \<Rightarrow> buf) \<Rightarrow> 'z bio_state_scheme \<Rightarrow> 'z bio_state_scheme" where
  "upd_buf i f s = s\<lparr>bufs := (bufs s)(i := f (bufs s i))\<rparr>"

section \<open>The disk\<close>

fun apply_writes :: "(nat \<times> block) list \<Rightarrow> (nat \<Rightarrow> block) \<Rightarrow> (nat \<Rightarrow> block)" where
  "apply_writes [] d = d"
| "apply_writes ((b, v) # ws) d = apply_writes ws (d(b := v))"

definition disk :: "'z bio_state_scheme \<Rightarrow> nat \<Rightarrow> block" where
  "disk s = apply_writes (dwrites s) (dinit s)"

text \<open>
  The driver computes \<^verbatim>\<open>b->blockno * (BSIZE / 512)\<close> in 32 bits, so the block of the disk it reaches is
  the block number without its top bit. A request beyond the end of the disk completes with an
  error status, on which the interrupt handler panics.
\<close>

definition disk_block :: "uint32 \<Rightarrow> nat" where
  "disk_block bno = unat (bno * 2) div 2"

lemma disk_block_id: "unat b < 2 ^ 31 \<Longrightarrow> disk_block b = unat b"
  by (simp add: disk_block_def unat_word_ariths(2))

definition virtio_disk_rw :: "nat \<Rightarrow> bool \<Rightarrow> 'z bio_state_scheme \<Rightarrow> ('z bio_state_scheme, unit) res" where
  "virtio_disk_rw i write s =
     bnd (acq L_vdisk s) (\<lambda>_ s.
     let n = disk_block (b_blockno (bufs s i)) in
     if n \<ge> dsize s then Panic ''virtio_disk_intr status''
     else let s = (if write then s\<lparr>dwrites := dwrites s @ [(n, b_data (bufs s i))]\<rparr>
                   else upd_buf i (\<lambda>b. b\<lparr>b_data := disk s n\<rparr>) s);
              s = upd_buf i (\<lambda>b. b\<lparr>b_disk := False\<rparr>) s
          in rel L_vdisk s)"

section \<open>Operations\<close>

definition binit_one :: "nat \<Rightarrow> 'z bio_state_scheme \<Rightarrow> ('z bio_state_scheme, unit) res" where
  "binit_one i s =
     (let s = s\<lparr>bnext := (bnext s)(B i := bnext s Head)\<rparr>;
          s = s\<lparr>bprev := (bprev s)(B i := Head)\<rparr>;
          s = initsleeplock (SL_buf i) ''buffer'' s;
          s = s\<lparr>bprev := (bprev s)(bnext s Head := B i)\<rparr>;
          s = s\<lparr>bnext := (bnext s)(Head := B i)\<rparr>
      in Ret () s)"

definition binit :: "'z bio_state_scheme \<Rightarrow> ('z bio_state_scheme, unit) res" where
  "binit s =
     (let s = s\<lparr>bprev := (bprev s)(Head := Head)\<rparr>;
          s = s\<lparr>bnext := (bnext s)(Head := Head)\<rparr>
      in foreach [0..<NBUF] binit_one s)"

text \<open>
  The two scans of \<^verbatim>\<open>bget\<close>. The list has \<open>NBUF\<close> buffers, so \<open>NBUF + 1\<close> rounds reach the head again
  (lemmas \<open>scan_next_eq\<close> and \<open>scan_prev_eq\<close>).
\<close>

fun scan_next :: "nat \<Rightarrow> bptr \<Rightarrow> uint32 \<Rightarrow> uint32 \<Rightarrow> 'z bio_state_scheme \<Rightarrow> nat option" where
  "scan_next 0 p dev bno s = None"
| "scan_next (Suc k) Head dev bno s = None"
| "scan_next (Suc k) (B i) dev bno s =
     (if b_dev (bufs s i) = dev \<and> b_blockno (bufs s i) = bno then Some i
      else scan_next k (bnext s (B i)) dev bno s)"

fun scan_prev :: "nat \<Rightarrow> bptr \<Rightarrow> 'z bio_state_scheme \<Rightarrow> nat option" where
  "scan_prev 0 p s = None"
| "scan_prev (Suc k) Head s = None"
| "scan_prev (Suc k) (B i) s =
     (if b_refcnt (bufs s i) = 0 then Some i else scan_prev k (bprev s (B i)) s)"

definition bget :: "uint32 \<Rightarrow> uint32 \<Rightarrow> 'z bio_state_scheme \<Rightarrow> ('z bio_state_scheme, nat) res" where
  "bget dev bno s =
     bnd (acq L_bcache s) (\<lambda>_ s.
     case scan_next (Suc NBUF) (bnext s Head) dev bno s of
       Some i \<Rightarrow>
         (let s = upd_buf i (\<lambda>b. b\<lparr>b_refcnt := b_refcnt b + 1\<rparr>) s in
          bnd (rel L_bcache s) (\<lambda>_ s.
          bnd (acquiresleep (SL_buf i) s) (\<lambda>_ s.
          Ret i s)))
     | None \<Rightarrow>
        (case scan_prev (Suc NBUF) (bprev s Head) s of
           Some i \<Rightarrow>
             (let s = upd_buf i (\<lambda>b. b\<lparr>b_dev := dev, b_blockno := bno, b_valid := False, b_refcnt := 1\<rparr>) s in
              bnd (rel L_bcache s) (\<lambda>_ s.
              bnd (acquiresleep (SL_buf i) s) (\<lambda>_ s.
              Ret i s)))
         | None \<Rightarrow> Panic ''bget: no buffers''))"

definition bread :: "uint32 \<Rightarrow> uint32 \<Rightarrow> 'z bio_state_scheme \<Rightarrow> ('z bio_state_scheme, nat) res" where
  "bread dev bno s =
     bnd (bget dev bno s) (\<lambda>i s.
     if \<not> b_valid (bufs s i) then
       bnd (virtio_disk_rw i False s) (\<lambda>_ s.
       Ret i (upd_buf i (\<lambda>b. b\<lparr>b_valid := True\<rparr>) s))
     else Ret i s)"

definition bwrite :: "nat \<Rightarrow> 'z bio_state_scheme \<Rightarrow> ('z bio_state_scheme, unit) res" where
  "bwrite i s =
     bnd (holdingsleep (SL_buf i) s) (\<lambda>h s.
     if \<not> h then Panic ''bwrite'' else virtio_disk_rw i True s)"

text \<open>The six assignments of \<^verbatim>\<open>brelse\<close> that move a buffer to the front of the list.\<close>

definition to_front :: "nat \<Rightarrow> 'z bio_state_scheme \<Rightarrow> 'z bio_state_scheme" where
  "to_front i s =
     (let s = s\<lparr>bprev := (bprev s)(bnext s (B i) := bprev s (B i))\<rparr>;
          s = s\<lparr>bnext := (bnext s)(bprev s (B i) := bnext s (B i))\<rparr>;
          s = s\<lparr>bnext := (bnext s)(B i := bnext s Head)\<rparr>;
          s = s\<lparr>bprev := (bprev s)(B i := Head)\<rparr>;
          s = s\<lparr>bprev := (bprev s)(bnext s Head := B i)\<rparr>
      in s\<lparr>bnext := (bnext s)(Head := B i)\<rparr>)"

definition brelse :: "nat \<Rightarrow> 'z bio_state_scheme \<Rightarrow> ('z bio_state_scheme, unit) res" where
  "brelse i s =
     bnd (holdingsleep (SL_buf i) s) (\<lambda>h s.
     if \<not> h then Panic ''brelse''
     else bnd (releasesleep (SL_buf i) s) (\<lambda>_ s.
          bnd (acq L_bcache s) (\<lambda>_ s.
          let s = upd_buf i (\<lambda>b. b\<lparr>b_refcnt := b_refcnt b - 1\<rparr>) s;
              s = (if b_refcnt (bufs s i) = 0 then to_front i s else s)
          in rel L_bcache s)))"

definition bpin :: "nat \<Rightarrow> 'z bio_state_scheme \<Rightarrow> ('z bio_state_scheme, unit) res" where
  "bpin i s =
     bnd (acq L_bcache s) (\<lambda>_ s.
     rel L_bcache (upd_buf i (\<lambda>b. b\<lparr>b_refcnt := b_refcnt b + 1\<rparr>) s))"

definition bunpin :: "nat \<Rightarrow> 'z bio_state_scheme \<Rightarrow> ('z bio_state_scheme, unit) res" where
  "bunpin i s =
     bnd (acq L_bcache s) (\<lambda>_ s.
     rel L_bcache (upd_buf i (\<lambda>b. b\<lparr>b_refcnt := b_refcnt b - 1\<rparr>) s))"

section \<open>Linked sequences\<close>

text \<open>
  \<open>linked nx pv ps\<close>: each element of \<open>ps\<close> points to the following one by \<open>nx\<close>, and that one back by
  \<open>pv\<close>. The list of buffers \<open>xs\<close> is the sequence \<open>Head, xs, Head\<close>.
\<close>

fun linked :: "('p \<Rightarrow> 'p) \<Rightarrow> ('p \<Rightarrow> 'p) \<Rightarrow> 'p list \<Rightarrow> bool" where
  "linked nx pv (a # b # r) \<longleftrightarrow> nx a = b \<and> pv b = a \<and> linked nx pv (b # r)"
| "linked nx pv _ \<longleftrightarrow> True"

lemma linked_append: "linked nx pv (xs @ a # ys) \<longleftrightarrow> linked nx pv (xs @ [a]) \<and> linked nx pv (a # ys)"
proof (induction xs)
  case Nil
  then show ?case by simp
next
  case (Cons x xs)
  then show ?case by (cases xs) auto
qed

lemma linked_cong:
  assumes "\<And>p. p \<in> set (butlast ps) \<Longrightarrow> nx p = nx' p" "\<And>p. p \<in> set (tl ps) \<Longrightarrow> pv p = pv' p"
  shows "linked nx pv ps \<longleftrightarrow> linked nx' pv' ps"
  using assms
proof (induction ps rule: induct_list012)
  case (3 a b r)
  then have "linked nx pv (b # r) = linked nx' pv' (b # r)" by (cases r) auto
  with 3 show ?case by auto
qed auto

definition ring :: "nat list \<Rightarrow> bptr list" where
  "ring xs = Head # map B xs @ [Head]"

definition dll :: "'z bio_state_scheme \<Rightarrow> nat list \<Rightarrow> bool" where
  "dll s xs \<longleftrightarrow> linked (bnext s) (bprev s) (ring xs) \<and> distinct xs \<and> set xs = {0..<NBUF}"

lemma link_front:
  assumes "linked nx pv (ring xs)" "distinct xs" "i \<notin> set xs"
  shows "linked (nx(B i := nx Head, Head := B i)) (pv(B i := Head, nx Head := B i)) (ring (i # xs))"
proof -
  obtain h r where hr: "map B xs @ [Head] = h # r" by (cases xs) auto
  then have nx: "nx Head = h" and l: "linked nx pv (h # r)"
    using assms(1) by (simp_all add: ring_def)
  have "distinct (map B xs @ [Head])" using assms(2) by (auto simp: distinct_map inj_on_def)
  then have d: "h \<notin> set r" by (simp add: hr)
  have "set (butlast (h # r)) = B ` set xs" "B i \<notin> set (h # r)"
    using assms(3) by (auto simp flip: hr)
  then have "linked (nx(B i := h, Head := B i)) (pv(B i := Head, h := B i)) (h # r)"
    using l assms(3) d by (subst linked_cong [of _ _ nx _ pv]) auto
  moreover have "h \<noteq> B i" using \<open>B i \<notin> set (h # r)\<close> by auto
  ultimately show ?thesis by (simp add: ring_def hr nx)
qed

lemma unlink:
  assumes "linked nx pv (ring (ys @ x # zs))" "distinct (ys @ x # zs)"
  shows "linked (nx(pv (B x) := nx (B x))) (pv(nx (B x) := pv (B x))) (ring (ys @ zs))"
proof -
  obtain P a where P: "Head # map B ys = P @ [a]" by (metis append_butlast_last_id list.discI)
  obtain b Q where Q: "map B zs @ [Head] = b # Q" by (cases zs) auto
  have "ring (ys @ x # zs) = (Head # map B ys) @ B x # map B zs @ [Head]"
    "ring (ys @ zs) = (Head # map B ys) @ map B zs @ [Head]"
    by (simp_all add: ring_def)
  then have r: "ring (ys @ x # zs) = P @ a # B x # b # Q" "ring (ys @ zs) = P @ a # b # Q"
    unfolding P Q by simp_all
  have l: "linked nx pv (P @ [a])" "linked nx pv (b # Q)" "nx (B x) = b" "pv (B x) = a"
    using assms(1) linked_append [of nx pv P a "B x # b # Q"] unfolding r by simp_all
  have "distinct (Head # map B ys)" "distinct (map B zs @ [Head])"
    using assms(2) by (auto simp: distinct_map inj_on_def)
  then have d: "a \<notin> set P" "b \<notin> set Q" unfolding P Q by simp_all
  have "set (butlast (b # Q)) = B ` set zs" "set (b # Q) = insert Head (B ` set zs)"
    by (simp_all flip: Q)
  moreover have "set (P @ [a]) = insert Head (B ` set ys)" "set (tl (P @ [a])) = B ` set ys"
    by (simp_all flip: P)
  ultimately have "a \<notin> set (butlast (b # Q))" "b \<notin> set (tl (P @ [a]))"
    using assms(2) by (auto dest!: equalityD1 subsetD)
  then have "linked (nx(a := b)) (pv(b := a)) (P @ [a])" "linked (nx(a := b)) (pv(b := a)) (b # Q)"
    using l(1,2) d by (subst linked_cong [of _ _ nx _ pv]; auto)+
  then show ?thesis
    unfolding r l(3,4) by (subst linked_append) simp
qed

lemma linked_rev: "linked nx pv (rev ps) \<longleftrightarrow> linked pv nx ps"
proof (induction ps rule: induct_list012)
  case (3 a b r)
  have "linked nx pv (rev (a # b # r)) \<longleftrightarrow> linked nx pv (rev (b # r)) \<and> linked nx pv [b, a]"
    using linked_append [of nx pv "rev r" b "[a]"] by simp
  with 3 show ?case by auto
qed auto

lemma scan_next_eq:
  assumes "linked (bnext s) (bprev s) (p # map B xs @ [Head])" "length xs < k"
  shows "scan_next k (bnext s p) dev bno s = find (\<lambda>i. b_dev (bufs s i) = dev \<and> b_blockno (bufs s i) = bno) xs"
  using assms
proof (induction xs arbitrary: p k)
  case Nil
  then show ?case by (cases k) auto
next
  case (Cons x xs)
  then obtain k' where "k = Suc k'" by (cases k) auto
  with Cons show ?case by auto
qed

lemma scan_prev_eq:
  assumes "linked (bprev s) (bnext s) (p # map B xs @ [Head])" "length xs < k"
  shows "scan_prev k (bprev s p) s = find (\<lambda>i. b_refcnt (bufs s i) = 0) xs"
  using assms
proof (induction xs arbitrary: p k)
  case Nil
  then show ?case by (cases k) auto
next
  case (Cons x xs)
  then obtain k' where "k = Suc k'" by (cases k) auto
  with Cons show ?case by auto
qed

lemma dll_length: "dll s xs \<Longrightarrow> length xs = NBUF"
  using distinct_card by (fastforce simp: dll_def)

lemma dll_scan_next:
  "dll s xs \<Longrightarrow> scan_next (Suc NBUF) (bnext s Head) dev bno s =
     find (\<lambda>i. b_dev (bufs s i) = dev \<and> b_blockno (bufs s i) = bno) xs"
  using dll_length [of s xs] by (intro scan_next_eq) (simp_all add: dll_def ring_def)

lemma dll_scan_prev:
  assumes "dll s xs"
  shows "scan_prev (Suc NBUF) (bprev s Head) s = find (\<lambda>i. b_refcnt (bufs s i) = 0) (rev xs)"
proof (rule scan_prev_eq)
  show "linked (bprev s) (bnext s) (Head # map B (rev xs) @ [Head])"
    using assms linked_rev [of "bprev s" "bnext s" "ring xs"] by (simp add: dll_def ring_def rev_map)
  show "length (rev xs) < Suc NBUF" using dll_length [OF assms] by simp
qed

lemma dll_cong: "bnext t = bnext s \<Longrightarrow> bprev t = bprev s \<Longrightarrow> dll t xs = dll s xs"
  by (simp add: dll_def)

text \<open>\<^verbatim>\<open>brelse\<close> moves the buffer to the front: the list is in order of last release.\<close>

lemma to_front_dll:
  assumes "dll s xs" "i < NBUF"
  shows "\<exists>pv nx. to_front i s = s\<lparr>bprev := pv, bnext := nx\<rparr> \<and> dll (to_front i s) (i # remove1 i xs)"
proof -
  obtain ys zs where xs: "xs = ys @ i # zs"
    using assms by (metis atLeastLessThan_iff dll_def split_list zero_le)
  let ?pv = "(bprev s)(bnext s (B i) := bprev s (B i))"
  let ?nx = "(bnext s)(bprev s (B i) := bnext s (B i))"
  have d: "distinct (ys @ i # zs)" and l: "linked (bnext s) (bprev s) (ring (ys @ i # zs))"
    using assms(1) by (auto simp: dll_def xs)
  have l2: "linked ?nx ?pv (ring (ys @ zs))" using unlink [OF l d] .
  have l3: "linked (?nx(B i := ?nx Head, Head := B i)) (?pv(B i := Head, ?nx Head := B i)) (ring (i # ys @ zs))"
    using d by (intro link_front [OF l2]) auto
  have ne: "bnext s (B i) \<noteq> B i"
  proof -
    have "linked (bnext s) (bprev s) (B i # map B zs @ [Head])"
      using l linked_append [of _ _ "Head # map B ys" "B i" "map B zs @ [Head]"] by (simp add: ring_def)
    then show ?thesis using d by (cases zs) auto
  qed
  have eq: "to_front i s = s\<lparr>bprev := ?pv(B i := Head, ?nx Head := B i), bnext := ?nx(B i := ?nx Head, Head := B i)\<rparr>"
    using ne not_sym [OF ne] by (simp add: to_front_def Let_def)
  have "remove1 i xs = ys @ zs" using d by (simp add: xs remove1_append)
  moreover have "set (i # ys @ zs) = {0..<NBUF}" using assms(1) by (auto simp: dll_def xs)
  ultimately show ?thesis using l3 d unfolding eq by (auto simp: dll_def)
qed

lemma to_front_keeps [simp]:
  "held (to_front i s) = held s" "procs (to_front i s) = procs s" "curproc (to_front i s) = curproc s"
  "consout (to_front i s) = consout s" "mem (to_front i s) = mem s" "freelist (to_front i s) = freelist s"
  "kend (to_front i s) = kend s" "slocks (to_front i s) = slocks s" "bufs (to_front i s) = bufs s"
  "dinit (to_front i s) = dinit s" "dsize (to_front i s) = dsize s" "dwrites (to_front i s) = dwrites s"
  "bio_state.more (to_front i s) = bio_state.more s" "disk (to_front i s) = disk s"
  by (simp_all add: to_front_def Let_def disk_def)

section \<open>Boot\<close>

lemma binit_one_linked:
  assumes "linked (bnext s) (bprev s) (ring xs)" "distinct xs" "i \<notin> set xs"
  shows "\<exists>t. binit_one i s = Ret () t \<and> linked (bnext t) (bprev t) (ring (i # xs)) \<and>
    bufs t = bufs s \<and> slocks t = (slocks s)(SL_buf i := \<lparr>sl_locked = False, sl_name = ''buffer'', sl_pid = 0\<rparr>)"
  using link_front [OF assms]
  by (simp add: binit_one_def initsleeplock_def upd_slock_def Let_def)

lemma binit_loop:
  assumes "linked (bnext s) (bprev s) (ring [])"
  shows "\<exists>t. foreach [0..<n] binit_one s = Ret () t \<and> linked (bnext t) (bprev t) (ring (rev [0..<n])) \<and>
    bufs t = bufs s \<and> (\<forall>i < n. \<not> sl_locked (slocks t (SL_buf i)))"
proof (induction n)
  case 0
  then show ?case using assms by simp
next
  case (Suc n)
  then obtain t where t: "foreach [0..<n] binit_one s = Ret () t" "linked (bnext t) (bprev t) (ring (rev [0..<n]))"
    "bufs t = bufs s" "\<forall>i < n. \<not> sl_locked (slocks t (SL_buf i))" by blast
  obtain u where "binit_one n t = Ret () u" "linked (bnext u) (bprev u) (ring (n # rev [0..<n]))"
    "bufs u = bufs t" "slocks u = (slocks t)(SL_buf n := \<lparr>sl_locked = False, sl_name = ''buffer'', sl_pid = 0\<rparr>)"
    using binit_one_linked [OF t(2), of n] by auto
  with t show ?case by (auto simp: foreach_append less_Suc_eq)
qed

lemma binit_dll:
  "\<exists>t. binit s = Ret () t \<and> dll t (rev [0..<NBUF]) \<and> bufs t = bufs s \<and>
     (\<forall>i < NBUF. \<not> sl_locked (slocks t (SL_buf i)))"
proof -
  let ?s = "s\<lparr>bprev := (bprev s)(Head := Head), bnext := (bnext s)(Head := Head)\<rparr>"
  have "linked (bnext ?s) (bprev ?s) (ring [])" by (simp add: ring_def)
  from binit_loop [OF this, of NBUF] show ?thesis by (auto simp: binit_def dll_def)
qed

section \<open>What the cache holds\<close>

text \<open>
  The buffer of block \<open>b\<close>; the block's current content; how many references and pins it has; and the
  pid that has its buffer locked.
\<close>

definition slot :: "'z bio_state_scheme \<Rightarrow> uint32 \<Rightarrow> nat option" where
  "slot s b = find (\<lambda>i. b_dev (bufs s i) = ROOTDEV \<and> b_blockno (bufs s i) = b) [0..<NBUF]"

definition bval :: "'z bio_state_scheme \<Rightarrow> uint32 \<Rightarrow> block" where
  "bval s b = (case slot s b of
      Some i \<Rightarrow> if b_valid (bufs s i) then b_data (bufs s i) else disk s (disk_block b)
    | None \<Rightarrow> disk s (disk_block b))"

definition refs :: "'z bio_state_scheme \<Rightarrow> uint32 \<Rightarrow> nat" where
  "refs s b = (case slot s b of Some i \<Rightarrow> unat (b_refcnt (bufs s i)) | None \<Rightarrow> 0)"

definition bowner :: "'z bio_state_scheme \<Rightarrow> uint32 \<Rightarrow> cint option" where
  "bowner s b = (case slot s b of
      Some i \<Rightarrow> if sl_locked (slocks s (SL_buf i)) then Some (sl_pid (slocks s (SL_buf i))) else None
    | None \<Rightarrow> None)"

text \<open>
  The cache invariant: the buffers form the list; no block is in two buffers; a buffer without
  references is unlocked and, if valid, agrees with the disk; one with references is valid, since no
  process is inside \<^verbatim>\<open>bread\<close>. \<open>buf_ok\<close> is the part about one buffer.
\<close>

definition buf_ok :: "(nat \<Rightarrow> block) \<Rightarrow> buf \<Rightarrow> sleeplock \<Rightarrow> bool" where
  "buf_ok d b l \<longleftrightarrow>
     (b_dev b \<noteq> ROOTDEV \<longrightarrow> \<not> b_valid b \<and> b_refcnt b = 0) \<and>
     (b_dev b = ROOTDEV \<longrightarrow> unat (b_blockno b) < 2 ^ 31) \<and>
     (b_refcnt b = 0 \<longrightarrow> \<not> sl_locked l \<and> (b_valid b \<longrightarrow> b_data b = d (disk_block (b_blockno b)))) \<and>
     (b_refcnt b \<noteq> 0 \<longrightarrow> b_valid b) \<and> \<not> b_disk b \<and> (b_valid b \<longrightarrow> length (b_data b) = BSIZE)"

definition buf_uniq :: "(nat \<Rightarrow> buf) \<Rightarrow> bool" where
  "buf_uniq bs \<longleftrightarrow> (\<forall>i < NBUF. \<forall>j < NBUF. b_dev (bs i) = ROOTDEV \<and> b_dev (bs j) = ROOTDEV \<and>
     b_blockno (bs i) = b_blockno (bs j) \<longrightarrow> i = j)"

definition bc_inv :: "'z bio_state_scheme \<Rightarrow> bool" where
  "bc_inv s \<longleftrightarrow> (\<exists>xs. dll s xs) \<and> buf_uniq (bufs s) \<and>
     (\<forall>i < NBUF. buf_ok (disk s) (bufs s i) (slocks s (SL_buf i))) \<and> (\<forall>n. length (disk s n) = BSIZE)"

text \<open>What no operation of the cache changes.\<close>

definition bio_frame :: "'z bio_state_scheme \<Rightarrow> 'z bio_state_scheme \<Rightarrow> bool" where
  "bio_frame s t \<longleftrightarrow> held t = held s \<and> curproc t = curproc s \<and> consout t = consout s \<and>
     mem t = mem s \<and> freelist t = freelist s \<and> kend t = kend s \<and> dinit t = dinit s \<and> dsize t = dsize s \<and>
     (\<forall>i. p_pid (procs t i) = p_pid (procs s i) \<and> p_killed (procs t i) = p_killed (procs s i)) \<and>
     (\<forall>k. slocks t (SL_inode k) = slocks s (SL_inode k)) \<and>
     bio_state.more t = bio_state.more s"

lemma bio_frame_refl [simp]: "bio_frame s s"
  by (simp add: bio_frame_def)

lemma bio_frame_trans [trans]: "bio_frame s t \<Longrightarrow> bio_frame t u \<Longrightarrow> bio_frame s u"
  by (simp add: bio_frame_def)

lemma slot_Some:
  assumes "buf_uniq (bufs s)"
  shows "slot s b = Some i \<longleftrightarrow> i < NBUF \<and> b_dev (bufs s i) = ROOTDEV \<and> b_blockno (bufs s i) = b"
proof
  assume "slot s b = Some i"
  then show "i < NBUF \<and> b_dev (bufs s i) = ROOTDEV \<and> b_blockno (bufs s i) = b"
    by (auto simp: slot_def find_Some_iff)
next
  assume i: "i < NBUF \<and> b_dev (bufs s i) = ROOTDEV \<and> b_blockno (bufs s i) = b"
  then obtain j where j: "slot s b = Some j"
    by (cases "slot s b") (auto simp: slot_def find_None_iff)
  then have "j < NBUF \<and> b_dev (bufs s j) = ROOTDEV \<and> b_blockno (bufs s j) = b"
    by (auto simp: slot_def find_Some_iff)
  with i assms have "i = j" by (auto simp: buf_uniq_def)
  with j show "slot s b = Some i" by simp
qed

lemma slot_None:
  "slot s b = None \<longleftrightarrow> (\<forall>i < NBUF. \<not> (b_dev (bufs s i) = ROOTDEV \<and> b_blockno (bufs s i) = b))"
  by (auto simp: slot_def find_None_iff)

lemma slot_SomeD: "slot s b = Some i \<Longrightarrow> i < NBUF \<and> b_dev (bufs s i) = ROOTDEV \<and> b_blockno (bufs s i) = b"
  by (auto simp: slot_def find_Some_iff)

lemma slot_bufs: "bufs t = bufs s \<Longrightarrow> slot t = slot s"
  by (simp add: slot_def fun_eq_iff)

lemma slot_simps [simp]:
  "slot (s\<lparr>held := h\<rparr>) = slot s" "slot (s\<lparr>procs := ps\<rparr>) = slot s" "slot (s\<lparr>curproc := c\<rparr>) = slot s"
  "slot (s\<lparr>slocks := sl\<rparr>) = slot s" "slot (s\<lparr>bprev := pv\<rparr>) = slot s" "slot (s\<lparr>bnext := nx\<rparr>) = slot s"
  "slot (s\<lparr>dwrites := ws\<rparr>) = slot s" "slot (s\<lparr>mem := m\<rparr>) = slot s" "slot (s\<lparr>consout := co\<rparr>) = slot s"
  by (rule slot_bufs, simp)+

lemma refs_simps [simp]:
  "refs (s\<lparr>held := h\<rparr>) = refs s" "refs (s\<lparr>procs := ps\<rparr>) = refs s" "refs (s\<lparr>curproc := c\<rparr>) = refs s"
  "refs (s\<lparr>slocks := sl\<rparr>) = refs s" "refs (s\<lparr>dwrites := ws\<rparr>) = refs s" "refs (s\<lparr>mem := m\<rparr>) = refs s"
  "refs (s\<lparr>consout := co\<rparr>) = refs s"
  by (simp_all add: refs_def fun_eq_iff split: option.split)

lemma bowner_simps [simp]:
  "bowner (s\<lparr>held := h\<rparr>) = bowner s" "bowner (s\<lparr>procs := ps\<rparr>) = bowner s" "bowner (s\<lparr>curproc := c\<rparr>) = bowner s"
  "bowner (s\<lparr>dwrites := ws\<rparr>) = bowner s" "bowner (s\<lparr>mem := m\<rparr>) = bowner s" "bowner (s\<lparr>consout := co\<rparr>) = bowner s"
  by (simp_all add: bowner_def fun_eq_iff split: option.split)

text \<open>Changing a buffer without renaming it.\<close>

lemma upd_keep:
  assumes "buf_uniq (bufs s)" "bufs t = (bufs s)(i := x)" "b_dev x = b_dev (bufs s i)" "b_blockno x = b_blockno (bufs s i)"
  shows "buf_uniq (bufs t)" "slot t = slot s"
proof -
  have eq: "b_dev (bufs t j) = b_dev (bufs s j)" "b_blockno (bufs t j) = b_blockno (bufs s j)" for j
    using assms(2-4) by simp_all
  show "buf_uniq (bufs t)" using assms(1) unfolding buf_uniq_def eq .
  show "slot t = slot s" unfolding slot_def eq ..
qed

text \<open>Renaming a buffer to a block that is in no other.\<close>

lemma upd_rename:
  assumes u: "buf_uniq (bufs s)" and t: "bufs t = (bufs s)(i := x)" and i: "i < NBUF"
    and x: "b_dev x = ROOTDEV" "b_blockno x = b" and none: "slot s b = None"
  shows "buf_uniq (bufs t)"
    and "slot t = (\<lambda>c. if c = b then Some i else if slot s c = Some i then None else slot s c)"
proof -
  show ut: "buf_uniq (bufs t)"
    using u none x unfolding t buf_uniq_def slot_None by auto
  show "slot t = (\<lambda>c. if c = b then Some i else if slot s c = Some i then None else slot s c)"
  proof
    fix c
    consider "c = b" | "c \<noteq> b" "slot s c = Some i" | j where "c \<noteq> b" "slot s c = Some j" "j \<noteq> i"
      | "c \<noteq> b" "slot s c = None"
      by (cases "slot s c") auto
    then show "slot t c = (if c = b then Some i else if slot s c = Some i then None else slot s c)"
    proof cases
      case 1
      then show ?thesis using slot_Some [OF ut] i x by (simp add: t)
    next
      case 2
      have "slot t c = None"
        using 2 x slot_SomeD [of s c i] u unfolding slot_None t by (auto simp: buf_uniq_def)
      then show ?thesis using 2 by simp
    next
      case 3
      have "slot t c = Some j" using 3 slot_SomeD [of s c j] slot_Some [OF ut] by (simp add: t)
      then show ?thesis using 3 by simp
    next
      case 4
      have "slot t c = None" using 4 x unfolding slot_None t by auto
      then show ?thesis using 4 by simp
    qed
  qed
qed

lemma disk_simps [simp]:
  "disk (s\<lparr>held := h\<rparr>) = disk s" "disk (s\<lparr>procs := ps\<rparr>) = disk s" "disk (s\<lparr>curproc := c\<rparr>) = disk s"
  "disk (s\<lparr>slocks := sl\<rparr>) = disk s" "disk (s\<lparr>bufs := bs\<rparr>) = disk s" "disk (s\<lparr>bprev := pv\<rparr>) = disk s"
  "disk (s\<lparr>bnext := nx\<rparr>) = disk s" "disk (s\<lparr>mem := m\<rparr>) = disk s" "disk (s\<lparr>consout := co\<rparr>) = disk s"
  by (simp_all add: disk_def)

lemma bval_simps [simp]:
  "bval (s\<lparr>held := h\<rparr>) = bval s" "bval (s\<lparr>procs := ps\<rparr>) = bval s" "bval (s\<lparr>curproc := c\<rparr>) = bval s"
  "bval (s\<lparr>slocks := sl\<rparr>) = bval s" "bval (s\<lparr>mem := m\<rparr>) = bval s" "bval (s\<lparr>consout := co\<rparr>) = bval s"
  by (simp_all add: bval_def fun_eq_iff split: option.split)

lemma scan_next_held [simp]: "scan_next k p dev b (s\<lparr>held := h\<rparr>) = scan_next k p dev b s"
  by (induction k p dev b s rule: scan_next.induct) auto

lemma scan_prev_held [simp]: "scan_prev k p (s\<lparr>held := h\<rparr>) = scan_prev k p s"
  by (induction k p s rule: scan_prev.induct) auto

lemma scan_slot:
  assumes "bc_inv s"
  shows "scan_next (Suc NBUF) (bnext s Head) ROOTDEV b s = slot s b"
proof -
  obtain xs where xs: "dll s xs" using assms by (auto simp: bc_inv_def)
  have u: "buf_uniq (bufs s)" using assms by (simp add: bc_inv_def)
  let ?P = "\<lambda>i. b_dev (bufs s i) = ROOTDEV \<and> b_blockno (bufs s i) = b"
  have "find ?P xs = slot s b"
  proof (cases "find ?P xs")
    case None
    then have "slot s b = None" using xs by (auto simp: find_None_iff slot_None dll_def)
    then show ?thesis using None by simp
  next
    case (Some i)
    then have "i \<in> set xs" "?P i" by (auto simp: find_Some_iff)
    then have "slot s b = Some i" using xs slot_Some [OF u] by (auto simp: dll_def)
    then show ?thesis using Some by simp
  qed
  then show ?thesis using dll_scan_next [OF xs] by simp
qed

lemma scan_free:
  assumes "bc_inv s" "\<exists>j < NBUF. b_refcnt (bufs s j) = 0"
  shows "\<exists>i < NBUF. scan_prev (Suc NBUF) (bprev s Head) s = Some i \<and> b_refcnt (bufs s i) = 0"
proof -
  obtain xs where xs: "dll s xs" using assms by (auto simp: bc_inv_def)
  let ?f = "find (\<lambda>i. b_refcnt (bufs s i) = 0) (rev xs)"
  obtain i where i: "?f = Some i" using assms(2) xs by (cases ?f) (auto simp: find_None_iff dll_def)
  then obtain k where "k < length (rev xs)" "i = rev xs ! k" "b_refcnt (bufs s i) = 0"
    by (auto simp: find_Some_iff)
  then have "i \<in> set (rev xs)" "b_refcnt (bufs s i) = 0" using nth_mem by blast+
  with i xs show ?thesis using dll_scan_prev [OF xs] by (auto simp: dll_def)
qed

lemma some_free:
  assumes "bc_inv s" "card {c. refs s c > 0} < NBUF"
  shows "\<exists>j < NBUF. b_refcnt (bufs s j) = 0"
proof (rule ccontr)
  assume "\<not> ?thesis"
  then have r: "\<And>i. i < NBUF \<Longrightarrow> b_refcnt (bufs s i) \<noteq> 0" by auto
  have u: "buf_uniq (bufs s)" using assms by (simp add: bc_inv_def)
  have dev: "b_dev (bufs s i) = ROOTDEV" if "i < NBUF" for i
    using assms(1) r [OF that] that by (auto simp: bc_inv_def buf_ok_def)
  have "inj_on (\<lambda>i. b_blockno (bufs s i)) {0..<NBUF}"
    using u dev by (auto simp: inj_on_def buf_uniq_def)
  moreover have "(\<lambda>i. b_blockno (bufs s i)) ` {0..<NBUF} \<subseteq> {c. refs s c > 0}"
  proof clarsimp
    fix i assume i: "i < NBUF"
    then have "slot s (b_blockno (bufs s i)) = Some i" using slot_Some [OF u] dev by simp
    then show "refs s (b_blockno (bufs s i)) > 0" using r [OF i] by (simp add: refs_def unat_gt_0)
  qed
  ultimately have "card {0..<NBUF} \<le> card {c. refs s c > 0}"
    by (metis card_image card_mono finite)
  with assms(2) show False by simp
qed

section \<open>The operations on the cache's content\<close>

text \<open>The state in which a process may call the cache: it runs, holds no spin lock.\<close>

definition idle :: "nat \<Rightarrow> 'z bio_state_scheme \<Rightarrow> bool" where
  "idle p s \<longleftrightarrow> bc_inv s \<and> held s = {} \<and> curproc s = Some p"

definition bready :: "'z bio_state_scheme \<Rightarrow> uint32 \<Rightarrow> bool" where
  "bready s b \<longleftrightarrow> unat b < 2 ^ 31 \<and> disk_block b < dsize s \<and> bowner s b = None \<and> refs s b + 1 < 2 ^ 32 \<and>
     (refs s b > 0 \<or> card {c. refs s c > 0} < NBUF)"

lemma unat_refcnt_inc: "unat (r :: uint32) + 1 < 2 ^ 32 \<Longrightarrow> unat (r + 1) = unat r + 1"
  by (simp add: unat_word_ariths(1))

text \<open>Buffer \<open>i\<close> becomes the locked, valid buffer of block \<open>b\<close>, with one more reference.\<close>

lemma got_buffer:
  assumes inv: "bc_inv s"
    and t: "t = s\<lparr>bufs := (bufs s)(i := x), slocks := (slocks s)(SL_buf i := l)\<rparr>"
    and x: "b_dev x = ROOTDEV" "b_blockno x = b" "b_valid x" "b_data x = bval s b" "\<not> b_disk x"
      "unat (b_refcnt x) = refs s b + 1"
    and l: "sl_locked l" "sl_pid l = pid"
    and i: "slot s b = Some i \<or> slot s b = None \<and> i < NBUF \<and> b_refcnt (bufs s i) = 0"
    and len: "length (bval s b) = BSIZE" "unat b < 2 ^ 31"
  shows "bc_inv t" "slot t b = Some i" "bval t = bval s" "refs t = (refs s)(b := refs s b + 1)"
    "bowner t = (bowner s)(b := Some pid)" "\<And>c j. slot s c = Some j \<Longrightarrow> refs s c > 0 \<Longrightarrow> slot t c = Some j"
proof -
  have u: "buf_uniq (bufs s)" using inv by (simp add: bc_inv_def)
  have bt: "bufs t = (bufs s)(i := x)" and dt: "disk t = disk s"
    and lt: "slocks t = (slocks s)(SL_buf i := l)" by (simp_all add: t)
  have iN: "i < NBUF" using i slot_SomeD by auto
  have ok: "buf_ok (disk s) (bufs s i) (slocks s (SL_buf i))" using inv iN by (simp add: bc_inv_def)
  have other: "slot s c = Some i \<Longrightarrow> c \<noteq> b \<Longrightarrow> slot s b = None \<and> b_refcnt (bufs s i) = 0" for c
    using i slot_SomeD [of s c i] slot_SomeD [of s b i] by auto
  have slot_t: "slot t = (\<lambda>c. if c = b then Some i else if slot s c = Some i then None else slot s c)"
    and ut: "buf_uniq (bufs t)"
  proof -
    show "buf_uniq (bufs t)"
      using i upd_keep(1) [OF u bt] upd_rename(1) [OF u bt iN x(1,2)] x slot_SomeD [of s b i] by auto
    show "slot t = (\<lambda>c. if c = b then Some i else if slot s c = Some i then None else slot s c)"
      using i
    proof
      assume "slot s b = Some i"
      moreover from this have "slot t = slot s" using upd_keep(2) [OF u bt] x slot_SomeD [of s b i] by simp
      ultimately show ?thesis using slot_SomeD [of s _ i] by (auto simp: fun_eq_iff)
    qed (use upd_rename(2) [OF u bt iN x(1,2)] in simp)
  qed
  show "slot t b = Some i" by (simp add: slot_t)
  show "bval t = bval s"
  proof
    fix c
    show "bval t c = bval s c"
      using x other [of c] ok slot_SomeD [of s c]
      by (cases "slot s c") (auto simp: bval_def slot_t dt bt buf_ok_def)
  qed
  show "refs t = (refs s)(b := refs s b + 1)"
  proof
    fix c
    show "refs t c = ((refs s)(b := refs s b + 1)) c"
      using x(6) other [of c] by (cases "slot s c") (auto simp: refs_def slot_t bt)
  qed
  show "bowner t = (bowner s)(b := Some pid)"
  proof
    fix c
    show "bowner t c = ((bowner s)(b := Some pid)) c"
      using l other [of c] ok by (cases "slot s c") (auto simp: bowner_def slot_t lt buf_ok_def)
  qed
  show "slot t c = Some j" if "slot s c = Some j" "refs s c > 0" for c j
    using that other [of c] i by (cases "c = b"; cases "j = i") (auto simp: slot_t refs_def)
  have "buf_ok (disk s) x l" using x len by (auto simp: buf_ok_def)
  moreover have "dll t xs = dll s xs" for xs by (rule dll_cong) (simp_all add: t)
  ultimately show "bc_inv t" using inv ut by (auto simp: bc_inv_def bt dt lt)
qed

lemma bget_hit:
  assumes "idle p s" "slot s b = Some i" "\<not> sl_locked (slocks s (SL_buf i))"
  shows "bget ROOTDEV b s = Ret i (s\<lparr>bufs := (bufs s)(i := (bufs s i)\<lparr>b_refcnt := b_refcnt (bufs s i) + 1\<rparr>),
    slocks := (slocks s)(SL_buf i := (slocks s (SL_buf i))\<lparr>sl_locked := True, sl_pid := p_pid (procs s p)\<rparr>)\<rparr>)"
  using assms scan_slot [of s b]
  by (simp add: idle_def bget_def acquiresleep_free upd_buf_def upd_slock_def)

lemma bget_miss:
  assumes "idle p s" "slot s b = None" "scan_prev (Suc NBUF) (bprev s Head) s = Some i"
    "\<not> sl_locked (slocks s (SL_buf i))"
  shows "bget ROOTDEV b s = Ret i (s\<lparr>bufs := (bufs s)(i := (bufs s i)
      \<lparr>b_dev := ROOTDEV, b_blockno := b, b_valid := False, b_refcnt := 1\<rparr>),
    slocks := (slocks s)(SL_buf i := (slocks s (SL_buf i))\<lparr>sl_locked := True, sl_pid := p_pid (procs s p)\<rparr>)\<rparr>)"
  using assms scan_slot [of s b]
  by (simp add: idle_def bget_def acquiresleep_free upd_buf_def upd_slock_def)

text \<open>After \<^verbatim>\<open>bget\<close>, \<^verbatim>\<open>bread\<close> fills a buffer that is not valid from the disk.\<close>

lemma bread_from_bget:
  assumes "bget ROOTDEV b s = Ret i (s\<lparr>bufs := (bufs s)(i := y), slocks := sl\<rparr>)" "held s = {}"
    "b_blockno y = b" "disk_block b < dsize s" "\<not> b_disk y"
  shows "bread ROOTDEV b s = Ret i (s\<lparr>bufs := (bufs s)(i :=
    y\<lparr>b_valid := True, b_data := (if b_valid y then b_data y else disk s (disk_block b))\<rparr>), slocks := sl\<rparr>)"
proof (cases "b_valid y")
  case True
  then have eq: "y\<lparr>b_valid := True\<rparr> = y" by (cases y) simp
  show ?thesis using True assms by (simp add: bread_def eq)
next
  case False
  have eq: "y\<lparr>b_data := d, b_disk := False, b_valid := True\<rparr> = y\<lparr>b_valid := True, b_data := d\<rparr>" for d
    using assms(5) by (cases y) simp
  show ?thesis using False assms
    by (simp add: bread_def virtio_disk_rw_def upd_buf_def Let_def insert_Diff_if eq)
qed

text \<open>
  \<^verbatim>\<open>bread\<close> of a block nobody has locked returns a locked buffer with the block's content; no block's
  content changes, whichever buffer was recycled for it.
\<close>

lemma bread_ok:
  assumes idle: "idle p s" and rdy: "bready s b"
  obtains i t where "bread ROOTDEV b s = Ret i t" "idle p t" "bio_frame s t" "slot t b = Some i"
    "b_data (bufs t i) = bval s b" "bval t = bval s" "dwrites t = dwrites s"
    "refs t = (refs s)(b := refs s b + 1)" "bowner t = (bowner s)(b := Some (p_pid (procs s p)))"
    "\<forall>c j. slot s c = Some j \<and> refs s c > 0 \<longrightarrow> slot t c = Some j"
proof -
  have inv: "bc_inv s" and h: "held s = {}" using idle by (auto simp: idle_def)
  let ?sl = "\<lambda>i. (slocks s (SL_buf i))\<lparr>sl_locked := True, sl_pid := p_pid (procs s p)\<rparr>"
  have "\<exists>i y. bget ROOTDEV b s = Ret i (s\<lparr>bufs := (bufs s)(i := y), slocks := (slocks s)(SL_buf i := ?sl i)\<rparr>) \<and>
      (slot s b = Some i \<or> slot s b = None \<and> i < NBUF \<and> b_refcnt (bufs s i) = 0) \<and>
      b_dev y = ROOTDEV \<and> b_blockno y = b \<and> \<not> b_disk y \<and> unat (b_refcnt y) = refs s b + 1 \<and>
      (if b_valid y then b_data y else disk s (disk_block b)) = bval s b"
  proof (cases "slot s b")
    case (Some i)
    then have "i < NBUF" using slot_SomeD by blast
    then have ok: "buf_ok (disk s) (bufs s i) (slocks s (SL_buf i))" using inv by (simp add: bc_inv_def)
    have "\<not> sl_locked (slocks s (SL_buf i))"
      using rdy Some by (auto simp: bready_def bowner_def split: if_splits)
    from bget_hit [OF idle Some this] show ?thesis
      using Some ok rdy slot_SomeD [OF Some]
      by (intro exI [of _ i] exI [of _ "(bufs s i)\<lparr>b_refcnt := b_refcnt (bufs s i) + 1\<rparr>"])
        (simp add: buf_ok_def refs_def bval_def bready_def unat_refcnt_inc)
  next
    case None
    then have "refs s b = 0" "bval s b = disk s (disk_block b)" by (simp_all add: refs_def bval_def)
    moreover from this rdy obtain i where i: "i < NBUF" "scan_prev (Suc NBUF) (bprev s Head) s = Some i"
      "b_refcnt (bufs s i) = 0"
      using scan_free [OF inv some_free [OF inv]] by (auto simp: bready_def)
    moreover have "buf_ok (disk s) (bufs s i) (slocks s (SL_buf i))" using inv i(1) by (simp add: bc_inv_def)
    ultimately show ?thesis
      using None bget_miss [OF idle None i(2)]
      by (intro exI [of _ i] exI [of _ "(bufs s i)\<lparr>b_dev := ROOTDEV, b_blockno := b, b_valid := False, b_refcnt := 1\<rparr>"])
        (simp add: buf_ok_def)
  qed
  then obtain i y where g: "bget ROOTDEV b s = Ret i (s\<lparr>bufs := (bufs s)(i := y), slocks := (slocks s)(SL_buf i := ?sl i)\<rparr>)"
    "slot s b = Some i \<or> slot s b = None \<and> i < NBUF \<and> b_refcnt (bufs s i) = 0"
    "b_dev y = ROOTDEV" "b_blockno y = b" "\<not> b_disk y" "unat (b_refcnt y) = refs s b + 1"
    "(if b_valid y then b_data y else disk s (disk_block b)) = bval s b" by blast
  let ?x = "y\<lparr>b_valid := True, b_data := bval s b\<rparr>"
  let ?t = "s\<lparr>bufs := (bufs s)(i := ?x), slocks := (slocks s)(SL_buf i := ?sl i)\<rparr>"
  have r: "bread ROOTDEV b s = Ret i ?t"
    using bread_from_bget [OF g(1) h g(4)] rdy g(5,7) by (simp add: bready_def)
  have len: "length (bval s b) = BSIZE"
    using inv slot_SomeD [of s b] by (auto simp: bval_def bc_inv_def buf_ok_def split: option.split)
  have x: "b_dev ?x = ROOTDEV" "b_blockno ?x = b" "b_valid ?x" "b_data ?x = bval s b" "\<not> b_disk ?x"
    "unat (b_refcnt ?x) = refs s b + 1" "sl_locked (?sl i)" "sl_pid (?sl i) = p_pid (procs s p)"
    using g by simp_all
  have "unat b < 2 ^ 31" using rdy by (simp add: bready_def)
  note got = got_buffer [OF inv refl x g(2) len this]
  have "idle p ?t" using got(1) idle by (simp add: idle_def)
  moreover have "bio_frame s ?t" by (simp add: bio_frame_def)
  ultimately show thesis
    using got(2-6) by (intro that [OF r]) simp_all
qed

text \<open>A step that keeps every buffer's name, given by what it does to buffer \<open>i\<close> of block \<open>b\<close>.\<close>

lemma keep_buffer:
  assumes inv: "bc_inv s" and i: "slot s b = Some i"
    and bt: "bufs t = (bufs s)(i := x)" "slocks t (SL_buf i) = l"
      "\<And>j. j \<noteq> i \<Longrightarrow> slocks t (SL_buf j) = slocks s (SL_buf j)"
    and x: "b_dev x = b_dev (bufs s i)" "b_blockno x = b_blockno (bufs s i)"
    and d: "disk t = disk s" and ok: "buf_ok (disk s) x l" and dl: "\<exists>xs. dll t xs"
  shows "bc_inv t" "slot t = slot s"
    "bval t = (bval s)(b := if b_valid x then b_data x else disk s (disk_block b))"
    "refs t = (refs s)(b := unat (b_refcnt x))"
    "bowner t = (bowner s)(b := if sl_locked l then Some (sl_pid l) else None)"
proof -
  have u: "buf_uniq (bufs s)" using inv by (simp add: bc_inv_def)
  note k = upd_keep [OF u bt(1) x]
  show "slot t = slot s" by (rule k(2))
  have ok': "buf_ok (disk t) (bufs t j) (slocks t (SL_buf j))" if "j < NBUF" for j
    using inv ok that bt d by (cases "j = i") (simp_all add: bc_inv_def)
  moreover have "\<forall>n. length (disk t n) = BSIZE" using inv by (simp add: bc_inv_def d)
  ultimately show "bc_inv t" using k(1) dl by (simp add: bc_inv_def)
  have ne: "j \<noteq> i" if "slot s c = Some j" "c \<noteq> b" for c j
    using slot_SomeD [OF that(1)] slot_SomeD [OF i] that(2) by auto
  show "bval t = (bval s)(b := if b_valid x then b_data x else disk s (disk_block b))"
    using i ne by (auto simp: bval_def fun_eq_iff k(2) bt(1) d split: option.split)
  show "refs t = (refs s)(b := unat (b_refcnt x))"
    using i ne by (auto simp: refs_def fun_eq_iff k(2) bt(1) split: option.split)
  show "bowner t = (bowner s)(b := if sl_locked l then Some (sl_pid l) else None)"
    using i ne bt(2,3) by (auto simp: bowner_def fun_eq_iff k(2) split: option.split)
qed

lemma buf_ok_at: "bc_inv s \<Longrightarrow> slot s b = Some i \<Longrightarrow> buf_ok (disk s) (bufs s i) (slocks s (SL_buf i))"
  using slot_SomeD [of s b i] by (simp add: bc_inv_def)

lemma bval_at:
  "bc_inv s \<Longrightarrow> slot s b = Some i \<Longrightarrow> refs s b > 0 \<Longrightarrow> b_valid (bufs s i) \<and> b_data (bufs s i) = bval s b"
  using buf_ok_at [of s b i] by (auto simp: bval_def refs_def buf_ok_def)

lemma owner_refs: "bc_inv s \<Longrightarrow> bowner s b = Some q \<Longrightarrow> refs s b > 0"
  using buf_ok_at [of s b] by (auto simp: bowner_def refs_def buf_ok_def unat_gt_0 split: option.splits if_splits)

lemma holding_owner:
  assumes "idle p s" "slot s b = Some i" "bowner s b = Some (p_pid (procs s p))"
  shows "holdingsleep (SL_buf i) s = Ret True s"
  using assms by (simp add: idle_def bowner_def split: if_splits)

text \<open>Writing into a locked buffer.\<close>

lemma set_data_ok:
  assumes "idle p s" "slot s b = Some i" "refs s b > 0" "length d = BSIZE"
  shows "idle p (upd_buf i (\<lambda>x. x\<lparr>b_data := d\<rparr>) s)"
    "bio_frame s (upd_buf i (\<lambda>x. x\<lparr>b_data := d\<rparr>) s)"
    "slot (upd_buf i (\<lambda>x. x\<lparr>b_data := d\<rparr>) s) = slot s"
    "bval (upd_buf i (\<lambda>x. x\<lparr>b_data := d\<rparr>) s) = (bval s)(b := d)"
    "dwrites (upd_buf i (\<lambda>x. x\<lparr>b_data := d\<rparr>) s) = dwrites s"
    "refs (upd_buf i (\<lambda>x. x\<lparr>b_data := d\<rparr>) s) = refs s"
    "bowner (upd_buf i (\<lambda>x. x\<lparr>b_data := d\<rparr>) s) = bowner s"
proof -
  let ?t = "upd_buf i (\<lambda>x. x\<lparr>b_data := d\<rparr>) s"
  have inv: "bc_inv s" using assms(1) by (simp add: idle_def)
  have dl: "\<exists>xs. dll ?t xs" using inv by (auto simp: bc_inv_def upd_buf_def dll_def)
  have ok: "buf_ok (disk s) ((bufs s i)\<lparr>b_data := d\<rparr>) (slocks s (SL_buf i))"
    using buf_ok_at [OF inv assms(2)] assms(2-4) by (auto simp: buf_ok_def refs_def)
  note k = keep_buffer [OF inv assms(2) _ refl _ _ _ _ _ dl, of "(bufs s i)\<lparr>b_data := d\<rparr>"]
  have v: "b_valid (bufs s i)" using bval_at [OF inv assms(2,3)] by simp
  show "idle p ?t" using k(1) ok assms(1) by (simp add: idle_def upd_buf_def)
  show "bio_frame s ?t" by (simp add: bio_frame_def upd_buf_def)
  show "slot ?t = slot s" using k(2) ok by (simp add: upd_buf_def)
  show "bval ?t = (bval s)(b := d)" using k(3) ok v by (simp add: upd_buf_def)
  show "dwrites ?t = dwrites s" by (simp add: upd_buf_def)
  show "refs ?t = refs s" using k(4) ok assms(2) by (simp add: upd_buf_def refs_def fun_eq_iff)
  show "bowner ?t = bowner s" using k(5) ok assms(2) by (simp add: upd_buf_def bowner_def fun_eq_iff)
qed

lemma apply_writes_append: "apply_writes (ws @ vs) d = apply_writes vs (apply_writes ws d)"
  by (induction ws arbitrary: d) auto

lemma disk_write [simp]: "disk (s\<lparr>dwrites := dwrites s @ [(n, v)]\<rparr>) = (disk s)(n := v)"
  by (simp add: disk_def apply_writes_append)

text \<open>
  \<^verbatim>\<open>bwrite\<close> appends the block's content to the writes of the disk. A clean buffer without references
  elsewhere stays clean because no other buffer holds this disk block.
\<close>

lemma bwrite_ok:
  assumes idle: "idle p s" and i: "slot s b = Some i" and own: "bowner s b = Some (p_pid (procs s p))"
    and rng: "disk_block b < dsize s"
  obtains t where "bwrite i s = Ret () t" "idle p t" "bio_frame s t" "slot t = slot s"
    "dwrites t = dwrites s @ [(disk_block b, bval s b)]" "refs t = refs s" "bowner t = bowner s"
    "\<forall>c. unat c < 2 ^ 31 \<longrightarrow> bval t c = bval s c"
proof -
  have inv: "bc_inv s" and h: "held s = {}" using idle by (auto simp: idle_def)
  have small: "unat c < 2 ^ 31" if "slot s c = Some j" for c j
    using buf_ok_at [OF inv that] slot_SomeD [OF that] by (simp add: buf_ok_def)
  then have others: "disk_block c \<noteq> disk_block b" if "c \<noteq> b" "unat c < 2 ^ 31" for c
    using that i by (simp add: disk_block_id word_unat_eq_iff)
  note ref = owner_refs [OF inv own]
  note ok = buf_ok_at [OF inv i] and at = bval_at [OF inv i ref]
  have bno: "b_blockno (bufs s i) = b" using slot_SomeD [OF i] by simp
  let ?t = "s\<lparr>dwrites := dwrites s @ [(disk_block b, bval s b)]\<rparr>"
  have eq: "(bufs s i)\<lparr>b_disk := False\<rparr> = bufs s i" using ok by (cases "bufs s i") (simp add: buf_ok_def)
  have r: "bwrite i s = Ret () ?t"
    using holding_owner [OF idle i own] rng h at bno
    by (simp add: bwrite_def virtio_disk_rw_def upd_buf_def Let_def eq insert_Diff_if)
  have sl: "slot ?t = slot s" by (rule slot_bufs) simp
  have "buf_ok (disk ?t) (bufs ?t j) (slocks ?t (SL_buf j))" if j: "j < NBUF" for j
  proof (cases "b_dev (bufs s j) = ROOTDEV \<and> j \<noteq> i")
    case True
    then have s: "slot s (b_blockno (bufs s j)) = Some j" using slot_Some [of s] inv j by (auto simp: bc_inv_def)
    with True i have "b_blockno (bufs s j) \<noteq> b" by auto
    with others small [OF s] have "disk_block (b_blockno (bufs s j)) \<noteq> disk_block b" by auto
    then show ?thesis using buf_ok_at [OF inv s] by (simp add: buf_ok_def)
  next
    case False
    then show ?thesis using inv j ok ref i by (auto simp: bc_inv_def buf_ok_def refs_def)
  qed
  moreover have "length (bval s b) = BSIZE" using ok at by (auto simp: buf_ok_def)
  moreover have "dll ?t xs = dll s xs" for xs by (rule dll_cong) simp_all
  ultimately have "bc_inv ?t" using inv by (auto simp: bc_inv_def)
  then have "idle p ?t" using idle by (simp add: idle_def)
  moreover have "bval ?t c = bval s c" if "unat c < 2 ^ 31" for c
    using others [OF _ that] at i by (cases "c = b") (auto simp: bval_def split: option.split)
  ultimately show thesis
    using r by (intro that [of ?t]) (simp_all add: bio_frame_def)
qed

lemma releasesleep_buf:
  assumes "held s = {}"
  shows "\<exists>ps. releasesleep (SL_buf i) s = Ret () (s\<lparr>slocks := (slocks s)(SL_buf i :=
      (slocks s (SL_buf i))\<lparr>sl_locked := False, sl_pid := 0\<rparr>), procs := ps\<rparr>) \<and>
    (\<forall>j. p_pid (ps j) = p_pid (procs s j) \<and> p_killed (ps j) = p_killed (procs s j))"
  using assms
  by (intro exI [of _ "woken (Ch_sleeplock (SL_buf i)) (curproc s) (procs s)"])
    (simp add: releasesleep_Ret upd_slock_def)

lemma brelse_ok:
  assumes idle: "idle p s" and i: "slot s b = Some i" and own: "bowner s b = Some (p_pid (procs s p))"
    and clean: "refs s b = 1 \<Longrightarrow> bval s b = disk s (disk_block b)"
  obtains t where "brelse i s = Ret () t" "idle p t" "bio_frame s t" "slot t = slot s" "bval t = bval s"
    "dwrites t = dwrites s" "refs t = (refs s)(b := refs s b - 1)" "bowner t = (bowner s)(b := None)"
proof -
  have inv: "bc_inv s" and h: "held s = {}" using idle by (auto simp: idle_def)
  note ref = owner_refs [OF inv own]
  note ok = buf_ok_at [OF inv i] and at = bval_at [OF inv i ref]
  obtain xs where xs: "dll s xs" using inv by (auto simp: bc_inv_def)
  let ?l = "(slocks s (SL_buf i))\<lparr>sl_locked := False, sl_pid := 0\<rparr>"
  let ?x = "(bufs s i)\<lparr>b_refcnt := b_refcnt (bufs s i) - 1\<rparr>"
  obtain ps where ps: "releasesleep (SL_buf i) s = Ret () (s\<lparr>slocks := (slocks s)(SL_buf i := ?l), procs := ps\<rparr>)"
    "\<And>j. p_pid (ps j) = p_pid (procs s j) \<and> p_killed (ps j) = p_killed (procs s j)"
    using releasesleep_buf [OF h] by blast
  let ?u = "s\<lparr>slocks := (slocks s)(SL_buf i := ?l), procs := ps, held := {L_bcache}, bufs := (bufs s)(i := ?x)\<rparr>"
  have "dll ?u xs" using xs by (simp add: dll_def)
  then obtain pv nx where f: "to_front i ?u = ?u\<lparr>bprev := pv, bnext := nx\<rparr>" "dll (to_front i ?u) (i # remove1 i xs)"
    using to_front_dll slot_SomeD [OF i] by metis
  let ?v = "if b_refcnt ?x = 0 then to_front i ?u else ?u"
  let ?t = "?v\<lparr>held := {}\<rparr>"
  have r: "brelse i s = Ret () ?t"
    using holding_owner [OF idle i own] ps(1) h
    by (simp add: brelse_def upd_buf_def Let_def)
  have bt: "bufs ?t = (bufs s)(i := ?x)" "slocks ?t = (slocks s)(SL_buf i := ?l)" "disk ?t = disk s" "dwrites ?t = dwrites s"
    by (simp_all split: if_split)
  have "\<exists>ys. dll ?v ys" using f(2) \<open>dll ?u xs\<close> by (cases "b_refcnt ?x = 0") auto
  then have dl: "\<exists>ys. dll ?t ys" by (auto simp: dll_def)
  have rx: "unat (b_refcnt ?x) = refs s b - 1"
    using ref i by (simp add: refs_def unat_minus_one unat_gt_0 [symmetric])
  have okx: "buf_ok (disk s) ?x ?l"
  proof -
    have "refs s b = 1" if "b_refcnt ?x = 0" using rx ref that by simp
    then show ?thesis using ok at clean slot_SomeD [OF i] by (auto simp: buf_ok_def)
  qed
  note k = keep_buffer [OF inv i bt(1) _ _ _ _ bt(3) okx dl]
  have "bc_inv ?t" using k(1) bt(2) by simp
  then have "idle p ?t" using idle by (simp add: idle_def)
  moreover have "bio_frame s ?t" using h ps(2) by (simp add: bio_frame_def)
  moreover have "bval ?t = bval s" using k(3) bt(2) at by (simp add: fun_eq_iff)
  moreover have "refs ?t = (refs s)(b := refs s b - 1)" "bowner ?t = (bowner s)(b := None)" "slot ?t = slot s"
    using k(2,4,5) bt(2) rx by simp_all
  ultimately show thesis using r bt(4) that by blast
qed

lemma bpin_ok:
  assumes "bc_inv s" "L_bcache \<notin> held s" "slot s b = Some i" "refs s b > 0" "refs s b + 1 < 2 ^ 32"
  obtains t where "bpin i s = Ret () t" "bc_inv t" "bio_frame s t" "slot t = slot s" "bval t = bval s"
    "dwrites t = dwrites s" "refs t = (refs s)(b := refs s b + 1)" "bowner t = bowner s"
proof -
  let ?x = "(bufs s i)\<lparr>b_refcnt := b_refcnt (bufs s i) + 1\<rparr>"
  let ?t = "s\<lparr>bufs := (bufs s)(i := ?x)\<rparr>"
  note ok = buf_ok_at [OF assms(1,3)] and at = bval_at [OF assms(1,3,4)]
  have rx: "unat (b_refcnt ?x) = refs s b + 1"
    using assms(3,5) by (simp add: refs_def unat_refcnt_inc)
  then have "b_refcnt ?x \<noteq> 0" by auto
  then have okx: "buf_ok (disk s) ?x (slocks s (SL_buf i))"
    using ok at assms(3,4) slot_SomeD [OF assms(3)] by (auto simp: buf_ok_def)
  have dl: "\<exists>xs. dll ?t xs" using assms(1) by (auto simp: bc_inv_def dll_def)
  note k = keep_buffer [OF assms(1,3) _ _ _ _ _ _ okx dl, simplified]
  have "bpin i s = Ret () ?t" using assms(2) by (simp add: bpin_def upd_buf_def)
  moreover have "bio_frame s ?t" by (simp add: bio_frame_def)
  moreover have "bval ?t = bval s" using k(3) at by (simp add: fun_eq_iff)
  moreover have "bowner ?t = bowner s" using k(5) assms(3) by (simp add: bowner_def fun_eq_iff)
  ultimately show thesis using k(1,2,4) rx by (intro that [of ?t]) simp_all
qed

lemma bunpin_ok:
  assumes "bc_inv s" "L_bcache \<notin> held s" "slot s b = Some i" "refs s b > 0"
    and clean: "refs s b = 1 \<Longrightarrow> bval s b = disk s (disk_block b) \<and> bowner s b = None"
  obtains t where "bunpin i s = Ret () t" "bc_inv t" "bio_frame s t" "slot t = slot s" "bval t = bval s"
    "dwrites t = dwrites s" "refs t = (refs s)(b := refs s b - 1)" "bowner t = bowner s"
proof -
  let ?x = "(bufs s i)\<lparr>b_refcnt := b_refcnt (bufs s i) - 1\<rparr>"
  let ?t = "s\<lparr>bufs := (bufs s)(i := ?x)\<rparr>"
  note ok = buf_ok_at [OF assms(1,3)] and at = bval_at [OF assms(1,3,4)]
  have rx: "unat (b_refcnt ?x) = refs s b - 1"
    using assms(3,4) by (simp add: refs_def unat_minus_one unat_gt_0 [symmetric])
  have "bval s b = disk s (disk_block b) \<and> \<not> sl_locked (slocks s (SL_buf i))" if "b_refcnt ?x = 0"
  proof -
    have "refs s b = 1" using rx assms(4) that by simp
    from clean [OF this] show ?thesis using assms(3) by (auto simp: bowner_def split: if_splits)
  qed
  then have okx: "buf_ok (disk s) ?x (slocks s (SL_buf i))"
    using ok at slot_SomeD [OF assms(3)] by (auto simp: buf_ok_def)
  have dl: "\<exists>xs. dll ?t xs" using assms(1) by (auto simp: bc_inv_def dll_def)
  note k = keep_buffer [OF assms(1,3) _ _ _ _ _ _ okx dl, simplified]
  have "bunpin i s = Ret () ?t" using assms(2) by (simp add: bunpin_def upd_buf_def)
  moreover have "bio_frame s ?t" by (simp add: bio_frame_def)
  moreover have "bval ?t = bval s" using k(3) at by (simp add: fun_eq_iff)
  moreover have "bowner ?t = bowner s" using k(5) assms(3) by (simp add: bowner_def fun_eq_iff)
  ultimately show thesis using k(1,2,4) rx by (intro that [of ?t]) simp_all
qed

section \<open>Properties\<close>

text \<open>
  C16. \<^verbatim>\<open>bread\<close> of a block nobody has locked, with a buffer to spare, returns a buffer of that block,
  locked by the caller, that holds the block's current content. No other block's content, lock or
  reference count changes and nothing is written to disk, whichever buffer was recycled.
\<close>

theorem bread_returns_block:
  assumes "idle p s" "bready s b"
  shows "\<exists>i t. bread ROOTDEV b s = Ret i t \<and> idle p t \<and>
    b_dev (bufs t i) = ROOTDEV \<and> b_blockno (bufs t i) = b \<and> b_data (bufs t i) = bval s b \<and>
    bval t = bval s \<and> dwrites t = dwrites s \<and> refs t = (refs s)(b := refs s b + 1) \<and>
    bowner t = (bowner s)(b := Some (p_pid (procs s p)))"
proof -
  obtain i t where *: "bread ROOTDEV b s = Ret i t" "idle p t" "bio_frame s t" "slot t b = Some i"
    "b_data (bufs t i) = bval s b" "bval t = bval s" "dwrites t = dwrites s"
    "refs t = (refs s)(b := refs s b + 1)" "bowner t = (bowner s)(b := Some (p_pid (procs s p)))"
    by (rule bread_ok [OF assms])
  then show ?thesis using slot_SomeD [OF *(4)] by (intro exI [of _ i] exI [of _ t]) simp
qed


text \<open>The cache at power on, over a disk of 2000 zero blocks, and after \<^verbatim>\<open>binit\<close>.\<close>

definition bio_boot :: bio_state where
  "bio_boot = \<lparr>held = {}, procs = (\<lambda>_. zero_proc\<lparr>p_state := RUNNING, p_pid := 1\<rparr>), curproc = Some 0, consout = '''',
     mem = (\<lambda>_. 0), freelist = 0, kend = 0x80022000,
     slocks = (\<lambda>_. \<lparr>sl_locked = False, sl_name = '''', sl_pid = 0\<rparr>),
     bufs = (\<lambda>_. \<lparr>b_valid = False, b_disk = False, b_dev = 0, b_blockno = 0, b_refcnt = 0, b_data = replicate BSIZE 0\<rparr>),
     bprev = (\<lambda>_. Head), bnext = (\<lambda>_. Head), dinit = (\<lambda>_. replicate BSIZE 0), dsize = 2000, dwrites = []\<rparr>"

lemma bc_inv_empty:
  assumes "dll t xs" "\<And>i. i < NBUF \<Longrightarrow> \<not> b_valid (bufs t i) \<and> \<not> b_disk (bufs t i) \<and> b_dev (bufs t i) = 0 \<and> b_refcnt (bufs t i) = 0"
    "\<And>i. i < NBUF \<Longrightarrow> \<not> sl_locked (slocks t (SL_buf i))" "\<And>n. length (disk t n) = BSIZE"
  shows "bc_inv t" "slot t b = None" "bval t b = disk t (disk_block b)" "refs t b = 0" "bowner t b = None"
proof -
  have none: "slot t c = None" for c
    using assms(2) by (simp add: slot_None ROOTDEV_def)
  then show "slot t b = None" "bval t b = disk t (disk_block b)" "refs t b = 0" "bowner t b = None"
    by (simp_all add: bval_def refs_def bowner_def)
  show "bc_inv t"
    using assms by (auto simp: bc_inv_def buf_ok_def buf_uniq_def ROOTDEV_def)
qed

lemma bio_boot_ready:
  "\<exists>t. binit bio_boot = Ret () t \<and> idle 0 t \<and> dll t (rev [0..<NBUF]) \<and> bready t 5 \<and> slot t 5 = None \<and>
     bval t 5 = replicate BSIZE 0"
proof -
  obtain t where t: "binit bio_boot = Ret () t" "dll t (rev [0..<NBUF])" "bufs t = bufs bio_boot"
    "\<forall>i < NBUF. \<not> sl_locked (slocks t (SL_buf i))"
    using binit_dll [of bio_boot] by blast
  have same: "held t = held bio_boot \<and> curproc t = curproc bio_boot \<and> dsize t = dsize bio_boot \<and> disk t = disk bio_boot"
  proof -
    have "foreach xs binit_one s = Ret () u \<Longrightarrow>
        held u = held s \<and> curproc u = curproc s \<and> dsize u = dsize s \<and> disk u = disk s" for xs and s u :: bio_state
    proof (induction xs arbitrary: s)
      case (Cons x xs)
      then obtain v where v: "binit_one x s = Ret () v" "foreach xs binit_one v = Ret () u"
        by (auto simp: res_simps)
      then have "held v = held s \<and> curproc v = curproc s \<and> dsize v = dsize s \<and> disk v = disk s"
        by (auto simp: binit_one_def initsleeplock_def upd_slock_def Let_def)
      with Cons.IH [OF v(2)] show ?case by simp
    qed auto
    from this [of "[0..<NBUF]"] t(1) show ?thesis by (fastforce simp: binit_def Let_def)
  qed
  have d: "disk bio_boot = (\<lambda>_. replicate BSIZE 0)" by (simp add: disk_def bio_boot_def)
  have "\<not> b_valid (bufs t i) \<and> \<not> b_disk (bufs t i) \<and> b_dev (bufs t i) = 0 \<and> b_refcnt (bufs t i) = 0" for i
    using t(3) by (simp add: bio_boot_def)
  moreover have "length (disk t n) = BSIZE" for n using same d by simp
  ultimately have e: "bc_inv t" "slot t b = None" "bval t b = disk t (disk_block b)" "refs t b = 0" "bowner t b = None" for b
    using bc_inv_empty [OF t(2)] t(4) by blast+
  have "idle 0 t" using e(1) same by (simp add: idle_def bio_boot_def)
  moreover have "bready t 5"
    using e(4,5) same by (simp add: bready_def disk_block_def bio_boot_def NBUF_def MAXOPBLOCKS_def)
  ultimately show ?thesis using t(1,2) e(2,3) same d by (intro exI [of _ t]) simp
qed

theorem bread_returns_block_witness:
  "\<exists>s i t. binit bio_boot = Ret () s \<and> bread ROOTDEV 5 s = Ret i t \<and> b_data (bufs t i) = replicate BSIZE 0 \<and>
     bowner t 5 = Some (p_pid (procs s 0))"
proof -
  obtain s where s: "binit bio_boot = Ret () s" "idle 0 s" "bready s 5" "bval s 5 = replicate BSIZE 0"
    using bio_boot_ready by blast
  show ?thesis using bread_returns_block [OF s(2,3)] s(1,4) by (metis fun_upd_same)
qed


lemma unreferenced_clean: "bc_inv s \<Longrightarrow> refs s b = 0 \<Longrightarrow> bval s b = disk s (disk_block b)"
  using buf_ok_at [of s b] slot_SomeD [of s b]
  by (auto simp: refs_def bval_def buf_ok_def unat_eq_zero split: option.splits)

lemma length_bval [simp]: "bc_inv s \<Longrightarrow> length (bval s b) = BSIZE"
  using slot_SomeD [of s b] by (auto simp: bval_def bc_inv_def buf_ok_def split: option.split)

end
