(* ===== verification/Log.thy ===== *)
theory Log
  imports Bio
begin

text \<open>
  \<^verbatim>\<open>kernel/log.c\<close>, the redo log. The first part is the log on the disk alone: the writes a commit
  makes, the writes recovery makes, and the proof that whichever prefix of a commit's writes reaches
  the disk, and however often recovery is itself cut short, recovery ends with all or with none of
  the transaction's blocks at their home locations. It is stated for any encoding of the header
  block that can be read back. The second part is the code, which is shown to make exactly these
  writes.
\<close>

declare upt_Suc [simp del]

section \<open>A redo log on a disk\<close>

text \<open>
  \<open>enc bs h\<close> is header block \<open>h\<close> overwritten to name the home blocks \<open>bs\<close>, \<open>dec h\<close> the home blocks a
  header names, and \<open>good b\<close> says that \<open>b\<close> can be a home block; \<open>base\<close> is the block number of the header, and the log blocks follow it.
\<close>

locale redo_log =
  fixes enc :: "nat list \<Rightarrow> block \<Rightarrow> block"
    and dec :: "block \<Rightarrow> nat list"
    and ok :: "block \<Rightarrow> bool"
    and good :: "nat \<Rightarrow> bool"
    and cap :: nat
    and base :: nat
  assumes dec_enc: "ok h \<Longrightarrow> length bs \<le> cap \<Longrightarrow> \<forall>b \<in> set bs. good b \<Longrightarrow> dec (enc bs h) = bs"
    and ok_enc: "ok h \<Longrightarrow> length bs \<le> cap \<Longrightarrow> ok (enc bs h)"

text \<open>Writes of the log blocks, of the home blocks, and of recovery.\<close>

definition log_copies :: "nat \<Rightarrow> block list \<Rightarrow> (nat \<times> block) list" where
  "log_copies base vs = zip [Suc base..<Suc base + length vs] vs"

definition commit_writes :: "(nat list \<Rightarrow> block \<Rightarrow> block) \<Rightarrow> nat \<Rightarrow> nat list \<Rightarrow> block list \<Rightarrow> block \<Rightarrow> (nat \<times> block) list" where
  "commit_writes enc base bs vs h =
     log_copies base vs @ [(base, enc bs h)] @ zip bs vs @ [(base, enc [] (enc bs h))]"

definition home_writes :: "(block \<Rightarrow> nat list) \<Rightarrow> nat \<Rightarrow> (nat \<Rightarrow> block) \<Rightarrow> (nat \<times> block) list" where
  "home_writes dec base d = (let bs = dec (d base) in zip bs (map d [Suc base..<Suc base + length bs]))"

definition recovery_writes ::
  "(nat list \<Rightarrow> block \<Rightarrow> block) \<Rightarrow> (block \<Rightarrow> nat list) \<Rightarrow> nat \<Rightarrow> (nat \<Rightarrow> block) \<Rightarrow> (nat \<times> block) list" where
  "recovery_writes enc dec base d = home_writes dec base d @ [(base, enc [] (d base))]"

text \<open>The blocks after a crash and any number of recoveries, all but the last cut short.\<close>

inductive recovers_to ::
  "(nat list \<Rightarrow> block \<Rightarrow> block) \<Rightarrow> (block \<Rightarrow> nat list) \<Rightarrow> nat \<Rightarrow> (nat \<Rightarrow> block) \<Rightarrow> (nat \<Rightarrow> block) \<Rightarrow> bool"
  for enc dec base where
  finish: "recovers_to enc dec base d (apply_writes (recovery_writes enc dec base d) d)"
| crash: "recovers_to enc dec base (apply_writes (take k (recovery_writes enc dec base d)) d) d' \<Longrightarrow>
    recovers_to enc dec base d d'"

lemma apply_writes_outside: "b \<notin> fst ` set ws \<Longrightarrow> apply_writes ws d b = d b"
  by (induction ws d rule: apply_writes.induct) auto

lemma apply_zip:
  assumes "distinct bs" "length vs = length bs"
  shows "i < length bs \<Longrightarrow> apply_writes (zip bs vs) d (bs ! i) = vs ! i"
    and "b \<notin> set bs \<Longrightarrow> apply_writes (zip bs vs) d b = d b"
proof -
  show "i < length bs \<Longrightarrow> apply_writes (zip bs vs) d (bs ! i) = vs ! i"
    using assms
  proof (induction bs arbitrary: vs d i)
    case (Cons b bs)
    then obtain v ws where vs: "vs = v # ws" by (cases vs) auto
    show ?case
    proof (cases i)
      case 0
      have "apply_writes (zip bs ws) (d(b := v)) b = (d(b := v)) b"
        using Cons.prems(2) by (intro apply_writes_outside) (auto dest: set_zip_leftD)
      then show ?thesis using 0 vs by simp
    next
      case (Suc j)
      then show ?thesis using Cons vs by simp
    qed
  qed simp
  show "b \<notin> set bs \<Longrightarrow> apply_writes (zip bs vs) d b = d b"
    by (intro apply_writes_outside) (auto dest: set_zip_leftD)
qed

text \<open>A prefix of the writes followed by all of them is all of them.\<close>

lemma apply_zip_again:
  assumes "distinct bs" "length vs = length bs"
  shows "apply_writes (zip bs vs) (apply_writes (take k (zip bs vs)) d) = apply_writes (zip bs vs) d"
proof
  fix b
  show "apply_writes (zip bs vs) (apply_writes (take k (zip bs vs)) d) b = apply_writes (zip bs vs) d b"
  proof (cases "b \<in> set bs")
    case True
    then obtain i where "i < length bs" "b = bs ! i" by (metis in_set_conv_nth)
    then show ?thesis using apply_zip(1) [OF assms] by simp
  next
    case False
    then have "b \<notin> fst ` set (take k (zip bs vs))" by (auto dest!: in_set_takeD set_zip_leftD)
    then show ?thesis using False apply_zip(2) [OF assms] by (simp add: apply_writes_outside)
  qed
qed

context redo_log
begin

abbreviation area :: "nat set" where
  "area \<equiv> {base..base + cap}"

definition logok :: "(nat \<Rightarrow> block) \<Rightarrow> bool" where
  "logok d \<longleftrightarrow> ok (d base) \<and> (let bs = dec (d base) in
     length bs \<le> cap \<and> distinct bs \<and> set bs \<inter> area = {} \<and> (\<forall>b \<in> set bs. good b))"

definition installed :: "(nat \<Rightarrow> block) \<Rightarrow> nat \<Rightarrow> block" where
  "installed d = apply_writes (home_writes dec base d) d"

lemma home_writes_cong:
  assumes "dec (d' base) = dec (d base)" "length (dec (d base)) \<le> cap"
    "\<And>b. b \<in> area \<Longrightarrow> b \<noteq> base \<Longrightarrow> d' b = d b"
  shows "home_writes dec base d' = home_writes dec base d"
proof -
  have "map d' [Suc base..<Suc base + length (dec (d base))] = map d [Suc base..<Suc base + length (dec (d base))]"
    using assms(2) by (intro map_cong refl assms(3)) auto
  then show ?thesis by (simp only: home_writes_def Let_def assms(1))
qed

lemma home_writes_fst: "(b, v) \<in> set (home_writes dec base d) \<Longrightarrow> b \<in> set (dec (d base))"
  by (auto simp: home_writes_def Let_def dest: set_zip_leftD)

lemma installed_none: "dec (d base) = [] \<Longrightarrow> installed d = d"
  by (simp add: installed_def home_writes_def)

lemma dec_empty: "ok h \<Longrightarrow> dec (enc [] h) = []"
  by (rule dec_enc) auto

lemma partial_recovery:
  fixes d k
  assumes "logok d"
  defines "d' \<equiv> apply_writes (take k (recovery_writes enc dec base d)) d"
  shows "logok d' \<and> (\<forall>b. b \<notin> area \<longrightarrow> installed d' b = installed d b)"
proof (cases "k \<le> length (home_writes dec base d)")
  case True
  let ?hw = "home_writes dec base d"
  have d': "d' = apply_writes (take k ?hw) d"
    using True by (simp add: d'_def recovery_writes_def)
  have in_area: "d' b = d b" if "b \<in> area" for b
  proof -
    have "b \<notin> fst ` set (take k ?hw)"
      using that assms(1) by (auto simp: logok_def Let_def dest!: in_set_takeD home_writes_fst)
    then show ?thesis by (simp add: d' apply_writes_outside)
  qed
  then have base: "d' base = d base" by simp
  have "home_writes dec base d' = ?hw"
    using assms(1) in_area base by (intro home_writes_cong) (auto simp: logok_def Let_def)
  moreover have "apply_writes ?hw (apply_writes (take k ?hw) d) = apply_writes ?hw d"
    using assms(1) by (simp add: home_writes_def Let_def apply_zip_again logok_def)
  ultimately have "installed d' = installed d" by (simp add: installed_def d')
  then show ?thesis using assms(1) base by (simp add: logok_def)
next
  case False
  then have d': "d' = (installed d)(base := enc [] (d base))"
    by (simp add: d'_def recovery_writes_def apply_writes_append installed_def)
  then have "dec (d' base) = []" "ok (d' base)"
    using assms(1) by (simp_all add: dec_empty ok_enc logok_def)
  then show ?thesis using d' by (auto simp: logok_def installed_none)
qed

lemma recovers_installed:
  assumes "recovers_to enc dec base d d'" "logok d"
  shows "\<forall>b. b \<notin> area \<longrightarrow> d' b = installed d b"
  using assms
proof (induction rule: recovers_to.induct)
  case (finish d)
  have "apply_writes (recovery_writes enc dec base d) d = (installed d)(base := enc [] (d base))"
    by (simp add: recovery_writes_def apply_writes_append installed_def)
  then show ?case by simp
next
  case (crash k d d')
  then show ?case using partial_recovery [OF crash.prems, of k] by simp
qed

lemma commit_prefix:
  fixes d bs vs k
  assumes "ok (d base)" "dec (d base) = []" "length bs \<le> cap" "length vs = length bs" "distinct bs"
    "set bs \<inter> area = {}" "\<forall>b \<in> set bs. good b"
  defines "d' \<equiv> apply_writes (take k (commit_writes enc base bs vs (d base))) d"
  shows "logok d' \<and> ((\<forall>b. b \<notin> area \<longrightarrow> installed d' b = d b) \<or>
    (\<forall>b. b \<notin> area \<longrightarrow> installed d' b = apply_writes (zip bs vs) d b))"
proof -
  let ?n = "length vs" and ?C = "log_copies base vs"
  have lC: "length ?C = ?n" by (simp add: log_copies_def)
  have outC: "apply_writes (take j ?C) d b = d b" if "b \<notin> area \<or> b = base" for j b
    using that assms(3,4)
    by (intro apply_writes_outside) (auto simp: log_copies_def dest!: in_set_takeD set_zip_leftD)
  have dec_bs: "dec (enc bs (d base)) = bs" using assms by (intro dec_enc) auto
  have "k \<le> ?n \<or> (k = Suc ?n + (k - Suc ?n) \<and> k - Suc ?n \<le> ?n) \<or> k > Suc ?n + ?n" by arith
  then consider "k \<le> ?n" | j where "k = Suc ?n + j" "j \<le> ?n" | "k > Suc ?n + ?n" by blast
  then show ?thesis
  proof cases
    case 1
    then have d': "d' = apply_writes (take k ?C) d" by (simp add: d'_def commit_writes_def lC)
    then have "d' base = d base" using outC by simp
    then show ?thesis using outC assms(1,2) by (auto simp: d' logok_def installed_none)
  next
    case (2 j)
    let ?Z = "take j (zip bs vs)"
    have d': "d' = apply_writes ?Z ((apply_writes ?C d)(base := enc bs (d base)))"
      using 2 assms(4) by (simp add: d'_def commit_writes_def lC apply_writes_append)
    have inZ: "d' b = ((apply_writes ?C d)(base := enc bs (d base))) b" if "b \<in> area" for b
      using that assms(6) unfolding d'
      by (intro apply_writes_outside) (auto dest!: in_set_takeD set_zip_leftD)
    have b: "d' base = enc bs (d base)" using inZ by simp
    have logs: "d' (Suc base + i) = vs ! i" if "i < ?n" for i
    proof -
      have "apply_writes ?C d ([Suc base..<Suc base + ?n] ! i) = vs ! i"
        unfolding log_copies_def using that by (intro apply_zip(1)) auto
      then show ?thesis using inZ [of "Suc base + i"] that assms(3,4) by (simp add: nth_append)
    qed
    have "map d' [Suc base..<Suc base + length bs] = vs"
      using logs assms(4) by (intro nth_equalityI) (auto simp del: upt_Suc)
    then have "home_writes dec base d' = zip bs vs" by (simp add: home_writes_def b dec_bs)
    then have inst: "installed d' = apply_writes (zip bs vs) ((apply_writes ?C d)(base := enc bs (d base)))"
      using apply_zip_again [OF assms(5,4), of j] by (simp add: installed_def d')
    have "apply_writes (zip bs vs) e b = apply_writes (zip bs vs) d b"
      if "e b = d b" for e b
      using that apply_zip [OF assms(5,4)] by (cases "b \<in> set bs") (auto simp: in_set_conv_nth)
    moreover have "((apply_writes ?C d)(base := enc bs (d base))) b = d b" if "b \<notin> area" for b
      using that outC [of b ?n] lC by auto
    ultimately have "\<forall>b. b \<notin> area \<longrightarrow> installed d' b = apply_writes (zip bs vs) d b"
      unfolding inst by blast
    moreover have "logok d'" using assms(1,3,5-7) by (simp add: logok_def b dec_bs ok_enc)
    ultimately show ?thesis by blast
  next
    case 3
    have d': "d' = (apply_writes (zip bs vs) ((apply_writes ?C d)(base := enc bs (d base))))(base := enc [] (enc bs (d base)))"
      using 3 assms(4) by (simp add: d'_def commit_writes_def lC apply_writes_append)
    have "dec (d' base) = []" "ok (d' base)" using assms(1,3) by (simp_all add: d' dec_empty ok_enc)
    then have "installed d' = d'" "logok d'" by (auto simp: installed_none logok_def)
    moreover have "d' b = apply_writes (zip bs vs) d b" if "b \<notin> area" for b
      using that outC [of b ?n] lC apply_zip [OF assms(5,4)]
      by (cases "b \<in> set bs") (auto simp: d' in_set_conv_nth)
    ultimately show ?thesis by simp
  qed
qed

text \<open>
  Crash safety: cut a commit's writes anywhere, recover, possibly crashing during recovery any
  number of times; outside the log all blocks are old or all are new.
\<close>

lemma crash_safe:
  assumes "ok (d base)" "dec (d base) = []" "length bs \<le> cap" "length vs = length bs" "distinct bs"
    "set bs \<inter> area = {}" "\<forall>b \<in> set bs. good b"
    and "recovers_to enc dec base (apply_writes (take k (commit_writes enc base bs vs (d base))) d) d'"
  shows "(\<forall>b. b \<notin> area \<longrightarrow> d' b = d b) \<or> (\<forall>b. b \<notin> area \<longrightarrow> d' b = apply_writes (zip bs vs) d b)"
  using commit_prefix [of d bs vs k, OF assms(1-7)] recovers_installed [OF assms(8)] by auto

end

section \<open>The log in memory\<close>

definition LOGSIZE :: nat where "LOGSIZE = MAXOPBLOCKS * 3"

text \<open>
  \<^verbatim>\<open>struct log\<close>. The block number \<^verbatim>\<open>log.start + tail + 1\<close> is an unsigned 32-bit number; the counters are
  integers. The array \<^verbatim>\<open>lh.block\<close> has \<open>LOGSIZE\<close> entries and no invariant state has \<^verbatim>\<open>lh.n\<close> larger.
\<close>

record log_state = bio_state +
  lg_start :: uint32
  lg_size :: int
  lg_outstanding :: int
  lg_committing :: bool
  lg_dev :: uint32
  lg_n :: int
  lg_block :: "nat \<Rightarrow> uint32"

section \<open>Operations\<close>

definition install_one :: "bool \<Rightarrow> nat \<Rightarrow> 'z log_state_scheme \<Rightarrow> ('z log_state_scheme, unit) res" where
  "install_one recovering tail s =
     bnd (bread (lg_dev s) (lg_start s + of_nat tail + 1) s) (\<lambda>lbuf s.
     bnd (bread (lg_dev s) (lg_block s tail) s) (\<lambda>dbuf s.
     let s = upd_buf dbuf (\<lambda>b. b\<lparr>b_data := b_data (bufs s lbuf)\<rparr>) s in
     bnd (bwrite dbuf s) (\<lambda>_ s.
     bnd (if \<not> recovering then bunpin dbuf s else Ret () s) (\<lambda>_ s.
     bnd (brelse lbuf s) (\<lambda>_ s.
     brelse dbuf s)))))"

definition install_trans :: "bool \<Rightarrow> 'z log_state_scheme \<Rightarrow> ('z log_state_scheme, unit) res" where
  "install_trans recovering s = foreach [0..<nat (lg_n s)] (install_one recovering) s"

definition read_head :: "'z log_state_scheme \<Rightarrow> ('z log_state_scheme, unit) res" where
  "read_head s =
     bnd (bread (lg_dev s) (lg_start s) s) (\<lambda>buf s.
     let lh = b_data (bufs s buf);
         s = s\<lparr>lg_n := sint (rd32 lh 0)\<rparr>;
         s = s\<lparr>lg_block := (\<lambda>i. if i < nat (lg_n s) then rd32 lh (4 + 4 * i) else lg_block s i)\<rparr>
     in brelse buf s)"

text \<open>The header block after the assignments of \<^verbatim>\<open>write_head\<close>.\<close>

definition put_head :: "int \<Rightarrow> (nat \<Rightarrow> uint32) \<Rightarrow> block \<Rightarrow> block" where
  "put_head n blk hb = fold (\<lambda>i hb. wr32 hb (4 + 4 * i) (blk i)) [0..<nat n] (wr32 hb 0 (of_int n))"

definition write_head :: "'z log_state_scheme \<Rightarrow> ('z log_state_scheme, unit) res" where
  "write_head s =
     bnd (bread (lg_dev s) (lg_start s) s) (\<lambda>buf s.
     let s = upd_buf buf (\<lambda>b. b\<lparr>b_data := put_head (lg_n s) (lg_block s) (b_data b)\<rparr>) s in
     bnd (bwrite buf s) (\<lambda>_ s.
     brelse buf s))"

definition recover_from_log :: "'z log_state_scheme \<Rightarrow> ('z log_state_scheme, unit) res" where
  "recover_from_log s =
     bnd (read_head s) (\<lambda>_ s.
     bnd (install_trans True s) (\<lambda>_ s.
     let s = s\<lparr>lg_n := 0\<rparr> in
     write_head s))"

text \<open>\<^verbatim>\<open>sizeof(struct logheader)\<close> is \<open>4 + 4 * LOGSIZE\<close>; the superblock gives the log's place and size.\<close>

definition initlog :: "uint32 \<Rightarrow> uint32 \<Rightarrow> uint32 \<Rightarrow> 'z log_state_scheme \<Rightarrow> ('z log_state_scheme, unit) res" where
  "initlog dev logstart nlog s =
     (if 4 + 4 * LOGSIZE \<ge> BSIZE then Panic ''initlog: too big logheader''
      else let s = s\<lparr>lg_start := logstart, lg_size := sint nlog, lg_dev := dev\<rparr> in
        recover_from_log s)"

definition begin_op_loop :: "'z log_state_scheme \<Rightarrow> ('z log_state_scheme, unit) res" where
  "begin_op_loop s =
     (if lg_committing s then sleep Ch_log L_log s
      else if lg_n s + (lg_outstanding s + 1) * int MAXOPBLOCKS > int LOGSIZE then sleep Ch_log L_log s
      else rel L_log (s\<lparr>lg_outstanding := lg_outstanding s + 1\<rparr>))"

definition begin_op :: "'z log_state_scheme \<Rightarrow> ('z log_state_scheme, unit) res" where
  "begin_op s = bnd (acq L_log s) (\<lambda>_ s. begin_op_loop s)"

definition begin_op_resume :: "'z log_state_scheme \<Rightarrow> ('z log_state_scheme, unit) res" where
  "begin_op_resume s = bnd (sleep_resume L_log s) (\<lambda>_ s. begin_op_loop s)"

definition write_log_one :: "nat \<Rightarrow> 'z log_state_scheme \<Rightarrow> ('z log_state_scheme, unit) res" where
  "write_log_one tail s =
     bnd (bread (lg_dev s) (lg_start s + of_nat tail + 1) s) (\<lambda>to s.
     bnd (bread (lg_dev s) (lg_block s tail) s) (\<lambda>from s.
     let s = upd_buf to (\<lambda>b. b\<lparr>b_data := b_data (bufs s from)\<rparr>) s in
     bnd (bwrite to s) (\<lambda>_ s.
     bnd (brelse from s) (\<lambda>_ s.
     brelse to s))))"

definition write_log :: "'z log_state_scheme \<Rightarrow> ('z log_state_scheme, unit) res" where
  "write_log s = foreach [0..<nat (lg_n s)] write_log_one s"

definition commit :: "'z log_state_scheme \<Rightarrow> ('z log_state_scheme, unit) res" where
  "commit s =
     (if lg_n s > 0 then
        bnd (write_log s) (\<lambda>_ s.
        bnd (write_head s) (\<lambda>_ s.
        bnd (install_trans False s) (\<lambda>_ s.
        let s = s\<lparr>lg_n := 0\<rparr> in
        write_head s)))
      else Ret () s)"

definition end_op :: "'z log_state_scheme \<Rightarrow> ('z log_state_scheme, unit) res" where
  "end_op s =
     bnd (acq L_log s) (\<lambda>_ s.
     let s = s\<lparr>lg_outstanding := lg_outstanding s - 1\<rparr> in
     if lg_committing s then Panic ''log.committing''
     else let do_commit = (lg_outstanding s = 0) in
       bnd (if do_commit then Ret () (s\<lparr>lg_committing := True\<rparr>) else wakeup Ch_log s) (\<lambda>_ s.
       bnd (rel L_log s) (\<lambda>_ s.
       if do_commit then
         bnd (commit s) (\<lambda>_ s.
         bnd (acq L_log s) (\<lambda>_ s.
         let s = s\<lparr>lg_committing := False\<rparr> in
         bnd (wakeup Ch_log s) (\<lambda>_ s.
         rel L_log s)))
       else Ret () s)))"

fun log_index :: "nat \<Rightarrow> nat \<Rightarrow> uint32 \<Rightarrow> 'z log_state_scheme \<Rightarrow> nat" where
  "log_index 0 i b s = i"
| "log_index (Suc k) i b s = (if lg_block s i = b then i else log_index k (Suc i) b s)"

definition log_write :: "nat \<Rightarrow> 'z log_state_scheme \<Rightarrow> ('z log_state_scheme, unit) res" where
  "log_write b s =
     bnd (acq L_log s) (\<lambda>_ s.
     if lg_n s \<ge> int LOGSIZE \<or> lg_n s \<ge> lg_size s - 1 then Panic ''too big a transaction''
     else if lg_outstanding s < 1 then Panic ''log_write outside of trans''
     else let i = log_index (nat (lg_n s)) 0 (b_blockno (bufs s b)) s;
              s = s\<lparr>lg_block := (lg_block s)(i := b_blockno (bufs s b))\<rparr>
          in bnd (if int i = lg_n s then bnd (bpin b s) (\<lambda>_ s. Ret () (s\<lparr>lg_n := lg_n s + 1\<rparr>)) else Ret () s) (\<lambda>_ s.
             rel L_log s))"

section \<open>The header block\<close>

text \<open>Writing and reading the header, over lists of block numbers.\<close>

definition enc_head :: "nat list \<Rightarrow> block \<Rightarrow> block" where
  "enc_head bs h = put_head (int (length bs)) (\<lambda>i. of_nat (bs ! i)) h"

definition dec_head :: "block \<Rightarrow> nat list" where
  "dec_head h = map (\<lambda>i. unat (rd32 h (4 + 4 * i))) [0..<nat (sint (rd32 h 0))]"

lemma put_blocks:
  fixes blk :: "nat \<Rightarrow> uint32"
  assumes "length h = BSIZE" "n \<le> 254"
  defines "r \<equiv> fold (\<lambda>i hb. wr32 hb (4 + 4 * i) (blk i)) [0..<n] h"
  shows "length r = BSIZE" "rd32 r 0 = rd32 h 0" "i < n \<Longrightarrow> rd32 r (4 + 4 * i) = blk i"
  unfolding r_def using assms(1,2)
proof (induction n arbitrary: i)
  case (Suc n)
  let ?r = "fold (\<lambda>i hb. wr32 hb (4 + 4 * i) (blk i)) [0..<n] h"
  {
    case 1
    then show ?case using Suc by (simp add: upt_Suc BSIZE_def)
  next
    case 2
    then show ?case using Suc by (simp add: upt_Suc rd_wr_other BSIZE_def)
  next
    case 3
    have len: "length ?r = 1024" using Suc 3 by (simp add: BSIZE_def)
    show ?case
    proof (cases "i = n")
      case True
      then show ?thesis using len 3 by (simp add: upt_Suc rd_wr_same)
    next
      case False
      then show ?thesis using len Suc 3 by (simp add: upt_Suc rd_wr_other BSIZE_def)
    qed
  }
qed simp_all

lemma length_enc_head:
  assumes "length h = BSIZE" "length bs \<le> LOGSIZE - 1"
  shows "length (enc_head bs h) = BSIZE"
  using assms put_blocks(1) [of "wr32 h 0 (of_int (int (length bs)))" "length bs" "\<lambda>i. of_nat (bs ! i)"]
  by (simp add: enc_head_def put_head_def BSIZE_def LOGSIZE_def MAXOPBLOCKS_def)

lemma head_round_trip:
  assumes "length h = BSIZE" "length bs \<le> LOGSIZE - 1" "\<And>b. b \<in> set bs \<Longrightarrow> b < 2 ^ 31"
  shows "dec_head (enc_head bs h) = bs"
proof -
  let ?n = "length bs" and ?h = "wr32 h 0 (of_int (int (length bs)))"
  have n: "?n \<le> 254" using assms(2) by (simp add: LOGSIZE_def MAXOPBLOCKS_def)
  have h: "length ?h = BSIZE" using assms(1) by (simp add: BSIZE_def)
  note p = put_blocks [OF h n, where blk = "\<lambda>i. of_nat (bs ! i)"]
  have e: "enc_head bs h = fold (\<lambda>i hb. wr32 hb (4 + 4 * i) (of_nat (bs ! i))) [0..<?n] ?h"
    by (simp add: enc_head_def put_head_def)
  have "rd32 ?h 0 = of_nat ?n" using assms(1) by (simp add: rd_wr_same BSIZE_def)
  moreover have "sint (of_nat ?n :: uint32) = int ?n"
    using n by (simp add: signed_of_nat signed_take_bit_int_eq_self)
  ultimately have "sint (rd32 (enc_head bs h) 0) = int ?n" using p(2) by (simp add: e)
  then have "dec_head (enc_head bs h) = map (\<lambda>i. unat (of_nat (bs ! i) :: uint32)) [0..<?n]"
    using p(3) by (simp add: dec_head_def e)
  also have "\<dots> = map (\<lambda>i. bs ! i) [0..<?n]"
  proof (rule map_cong [OF refl])
    fix i assume "i \<in> set [0..<?n]"
    then have "bs ! i < 2 ^ 31" using assms(3) by simp
    then show "unat (of_nat (bs ! i) :: uint32) = bs ! i" by (simp add: unat_of_nat take_bit_nat_eq_self)
  qed
  finally show ?thesis by (simp add: map_nth)
qed

interpretation lg: redo_log enc_head dec_head "\<lambda>h. length h = BSIZE" "\<lambda>b. b < lim \<and> b < 2 ^ 31" "LOGSIZE - 1" base
  for lim base
  by unfold_locales (simp_all add: head_round_trip length_enc_head)

section \<open>The code makes these writes\<close>

lemma bio_frame_log:
  assumes "bio_frame s t"
  shows "lg_start t = lg_start s" "lg_size t = lg_size s" "lg_outstanding t = lg_outstanding s"
    "lg_committing t = lg_committing s" "lg_dev t = lg_dev s" "lg_n t = lg_n s" "lg_block t = lg_block s"
    "log_state.more t = log_state.more s"
  using assms by (cases s; cases t; simp add: bio_frame_def bio_state.defs)+

lemma bio_frame_pid: "bio_frame s t \<Longrightarrow> p_pid (procs t p) = p_pid (procs s p)"
  by (simp add: bio_frame_def)

lemma bio_frame_disk: "bio_frame s t \<Longrightarrow> dwrites t = dwrites s @ ws \<Longrightarrow> disk t = apply_writes ws (disk s)"
  by (simp add: bio_frame_def disk_def apply_writes_append)

lemma bio_frame_dsize: "bio_frame s t \<Longrightarrow> dsize t = dsize s"
  by (simp add: bio_frame_def)

lemma unreferenced_free: "bc_inv s \<Longrightarrow> refs s b = 0 \<Longrightarrow> bowner s b = None"
  using owner_refs [of s b] by (cases "bowner s b") auto

lemma breadyI:
  assumes "idle p s" "unat b < dsize s" "dsize s \<le> 2 ^ 31" "bowner s b = None" "refs s b + 1 < 2 ^ 32"
    "refs s b > 0 \<or> card {c. refs s c > 0} < NBUF"
  shows "bready s b"
  using assms disk_block_id [of b] by (simp add: bready_def)

text \<open>
  What a step of the log's loops does to the disk and the cache: \<open>ws\<close> are the writes it adds and
  \<open>f\<close> the change to the blocks' contents; references and locks are as before unless said otherwise.
\<close>

definition log_effect ::
  "nat \<Rightarrow> 'z log_state_scheme \<Rightarrow> (nat \<times> block) list \<Rightarrow> (uint32 \<Rightarrow> block) \<Rightarrow> (uint32 \<Rightarrow> nat) \<Rightarrow> 'z log_state_scheme \<Rightarrow> bool" where
  "log_effect p s ws v r t \<longleftrightarrow> idle p t \<and> bio_frame s t \<and> dwrites t = dwrites s @ ws \<and>
     (\<forall>c. unat c < 2 ^ 31 \<longrightarrow> bval t c = v c) \<and> refs t = r \<and> bowner t = bowner s"

lemma write_log_one_ok:
  fixes s :: "'z log_state_scheme"
  defines "L \<equiv> \<lambda>k. lg_start s + of_nat k + 1"
  assumes idle: "idle p s" and dev: "lg_dev s = ROOTDEV" and ds: "dsize s \<le> 2 ^ 31"
    and L: "unat (L k) < dsize s" "refs s (L k) = 0" "card {c. refs s c > 0} < NBUF"
    and H: "unat (lg_block s k) < dsize s" "refs s (lg_block s k) > 0" "refs s (lg_block s k) + 1 < 2 ^ 32"
      "bowner s (lg_block s k) = None"
  obtains t where "write_log_one k s = Ret () t"
    "log_effect p s [(unat (L k), bval s (lg_block s k))] ((bval s)(L k := bval s (lg_block s k))) (refs s) t"
proof -
  let ?L = "L k" and ?H = "lg_block s k" and ?pid = "p_pid (procs s p)"
  have inv: "bc_inv s" using idle by (simp add: idle_def)
  have ne: "?H \<noteq> ?L" "?L \<noteq> ?H" using L(2) H(2) by auto
  have own: "bowner s ?L = None" using unreferenced_free [OF inv L(2)] .
  have db: "disk_block ?L = unat ?L" using L(1) ds by (simp add: disk_block_id)
  have "bready s ?L" using idle L ds own by (intro breadyI) auto
  then obtain i s1 where 1: "bread ROOTDEV ?L s = Ret i s1" "idle p s1" "bio_frame s s1"
    "slot s1 ?L = Some i" "b_data (bufs s1 i) = bval s ?L" "bval s1 = bval s" "dwrites s1 = dwrites s"
    "refs s1 = (refs s)(?L := refs s ?L + 1)" "bowner s1 = (bowner s)(?L := Some ?pid)"
    "\<forall>c j. slot s c = Some j \<and> refs s c > 0 \<longrightarrow> slot s1 c = Some j"
    by (rule bread_ok [OF idle])
  have "bready s1 ?H"
    using 1(2) bio_frame_dsize [OF 1(3)] H ds ne by (intro breadyI) (auto simp: 1(8,9))
  then obtain j s2 where 2: "bread ROOTDEV ?H s1 = Ret j s2" "idle p s2" "bio_frame s1 s2"
    "slot s2 ?H = Some j" "b_data (bufs s2 j) = bval s1 ?H" "bval s2 = bval s1" "dwrites s2 = dwrites s1"
    "refs s2 = (refs s1)(?H := refs s1 ?H + 1)" "bowner s2 = (bowner s1)(?H := Some (p_pid (procs s1 p)))"
    "\<forall>c j. slot s1 c = Some j \<and> refs s1 c > 0 \<longrightarrow> slot s2 c = Some j"
    by (rule bread_ok [OF 1(2)])
  have sL: "slot s2 ?L = Some i" using 1(4,8) 2(10) by simp
  let ?s3 = "upd_buf i (\<lambda>b. b\<lparr>b_data := bval s ?H\<rparr>) s2"
  have "refs s2 ?L > 0" "length (bval s ?H) = BSIZE" using 1(8) 2(8) ne inv by auto
  note 3 = set_data_ok [OF 2(2) sL this]
  have f3: "bio_frame s ?s3" using 1(3) 2(3) 3(2) by (blast intro: bio_frame_trans)
  have o3: "bowner ?s3 = (bowner s)(?L := Some ?pid, ?H := Some ?pid)"
    "refs ?s3 = (refs s)(?L := 1, ?H := refs s ?H + 1)" "bval ?s3 = (bval s)(?L := bval s ?H)"
    using 3(4,6,7) 1(6,8,9) 2(6,8,9) bio_frame_pid [OF 1(3)] L(2) ne by simp_all
  have "bowner ?s3 ?L = Some (p_pid (procs ?s3 p))" "disk_block ?L < dsize ?s3" "slot ?s3 ?L = Some i"
    using o3 sL 3(3) ne bio_frame_pid [OF f3] bio_frame_dsize [OF f3] L(1) db by simp_all
  then obtain s4 where 4: "bwrite i ?s3 = Ret () s4" "idle p s4" "bio_frame ?s3 s4" "slot s4 = slot ?s3"
    "dwrites s4 = dwrites ?s3 @ [(disk_block ?L, bval ?s3 ?L)]" "refs s4 = refs ?s3" "bowner s4 = bowner ?s3"
    "\<forall>c. unat c < 2 ^ 31 \<longrightarrow> bval s4 c = bval ?s3 c"
    using bwrite_ok [OF 3(1), of ?L i] by metis
  have f4: "bio_frame s s4" using f3 4(3) by (rule bio_frame_trans)
  have "slot s4 ?H = Some j" "bowner s4 ?H = Some (p_pid (procs s4 p))"
    and two: "refs s4 ?H = 1 \<Longrightarrow> bval s4 ?H = disk s4 (disk_block ?H)"
    using 2(4) 3(3) o3 4(4,6,7) bio_frame_pid [OF f4] H(2) by simp_all
  then obtain s5 where 5: "brelse j s4 = Ret () s5" "idle p s5" "bio_frame s4 s5" "slot s5 = slot s4"
    "bval s5 = bval s4" "dwrites s5 = dwrites s4" "refs s5 = (refs s4)(?H := refs s4 ?H - 1)"
    "bowner s5 = (bowner s4)(?H := None)"
    using brelse_ok [OF 4(2), of ?H j] by metis
  have f5: "bio_frame s s5" using f4 5(3) by (rule bio_frame_trans)
  have w5: "dwrites s5 = dwrites s @ [(unat ?L, bval s ?H)]" using 5(6) 4(5) 3(5) 2(7) 1(7) o3(3) db by simp
  have o5: "refs s5 = (refs s)(?L := 1)" "bowner s5 = (bowner s)(?L := Some ?pid)"
    using 5(7,8) 4(6,7) o3 H(4) ne by (auto simp: fun_eq_iff)
  have "bval s5 ?L = disk s5 (disk_block ?L)"
    using bio_frame_disk [OF f5 w5] 5(5) 4(8) o3(3) L(1) ds db by simp
  moreover have "slot s5 ?L = Some i" "bowner s5 ?L = Some (p_pid (procs s5 p))"
    using 5(4) 4(4) 3(3) sL o5 bio_frame_pid [OF f5] by simp_all
  ultimately obtain t where 6: "brelse i s5 = Ret () t" "idle p t" "bio_frame s5 t" "slot t = slot s5" "bval t = bval s5"
    "dwrites t = dwrites s5" "refs t = (refs s5)(?L := refs s5 ?L - 1)" "bowner t = (bowner s5)(?L := None)"
    using brelse_ok [OF 5(2), of ?L i] by metis
  show thesis
  proof (rule that)
    show "write_log_one k s = Ret () t"
      using 1(1,6) 2(1,5) 4(1) 5(1) 6(1) bio_frame_log [OF 1(3)] dev by (simp add: write_log_one_def L_def)
    show "log_effect p s [(unat ?L, bval s ?H)] ((bval s)(?L := bval s ?H)) (refs s) t"
      using 6 5(5) 4(8) o3(3) o5 w5 L(2) own bio_frame_trans [OF f5 6(3)] by (auto simp: log_effect_def fun_eq_iff)
  qed
qed

lemma install_one_ok:
  fixes s :: "'z log_state_scheme"
  defines "L \<equiv> \<lambda>k. lg_start s + of_nat k + 1"
  assumes idle: "idle p s" and dev: "lg_dev s = ROOTDEV" and ds: "dsize s \<le> 2 ^ 31"
    and L: "unat (L k) < dsize s" "refs s (L k) = 0" "card {c. refs s c > 0} < NBUF" "L k \<noteq> lg_block s k"
    and H: "unat (lg_block s k) < dsize s" "bowner s (lg_block s k) = None"
      "if recovering then refs s (lg_block s k) = 0 \<and> card {c. refs s c > 0} + 1 < NBUF else refs s (lg_block s k) = 1"
  obtains t where "install_one recovering k s = Ret () t"
    "log_effect p s [(unat (lg_block s k), bval s (L k))] ((bval s)(lg_block s k := bval s (L k)))
       ((refs s)(lg_block s k := 0)) t"
proof -
  let ?L = "L k" and ?H = "lg_block s k" and ?pid = "p_pid (procs s p)"
  have inv: "bc_inv s" using idle by (simp add: idle_def)
  have ne: "?H \<noteq> ?L" "?L \<noteq> ?H" using L(4) by auto
  have own: "bowner s ?L = None" using unreferenced_free [OF inv L(2)] .
  have db: "disk_block ?H = unat ?H" "disk_block ?L = unat ?L" using L(1) H(1) ds by (simp_all add: disk_block_id)
  have "bready s ?L" using idle L ds own by (intro breadyI) auto
  then obtain i s1 where 1: "bread ROOTDEV ?L s = Ret i s1" "idle p s1" "bio_frame s s1"
    "slot s1 ?L = Some i" "b_data (bufs s1 i) = bval s ?L" "bval s1 = bval s" "dwrites s1 = dwrites s"
    "refs s1 = (refs s)(?L := refs s ?L + 1)" "bowner s1 = (bowner s)(?L := Some ?pid)"
    "\<forall>c j. slot s c = Some j \<and> refs s c > 0 \<longrightarrow> slot s1 c = Some j"
    by (rule bread_ok [OF idle])
  have c1: "card {c. refs s1 c > 0} \<le> card {c. refs s c > 0} + 1"
  proof -
    have "{c. refs s1 c > 0} \<subseteq> insert ?L {c. refs s c > 0}" by (auto simp: 1(8))
    then have "card {c. refs s1 c > 0} \<le> card (insert ?L {c. refs s c > 0})" by (intro card_mono) auto
    then show ?thesis by (simp add: card_insert_if split: if_splits)
  qed
  have "refs s1 ?H > 0 \<or> card {c. refs s1 c > 0} < NBUF"
  proof (cases recovering)
    case True
    then have "card {c. refs s c > 0} + 1 < NBUF" using H(3) by simp
    with c1 show ?thesis by linarith
  qed (use H(3) ne in \<open>simp add: 1(8)\<close>)
  moreover have "refs s1 ?H + 1 < 2 ^ 32" using H(3) ne by (simp add: 1(8) split: if_splits)
  ultimately have "bready s1 ?H"
    using 1(2,9) bio_frame_dsize [OF 1(3)] H(1,2) ds ne by (intro breadyI) auto
  then obtain j s2 where 2: "bread ROOTDEV ?H s1 = Ret j s2" "idle p s2" "bio_frame s1 s2"
    "slot s2 ?H = Some j" "b_data (bufs s2 j) = bval s1 ?H" "bval s2 = bval s1" "dwrites s2 = dwrites s1"
    "refs s2 = (refs s1)(?H := refs s1 ?H + 1)" "bowner s2 = (bowner s1)(?H := Some (p_pid (procs s1 p)))"
    "\<forall>c j. slot s1 c = Some j \<and> refs s1 c > 0 \<longrightarrow> slot s2 c = Some j"
    by (rule bread_ok [OF 1(2)])
  have sL: "slot s2 ?L = Some i" using 1(4,8) 2(10) by simp
  have dat: "b_data (bufs s2 i) = bval s ?L"
    using bval_at [of s2 ?L i] 2(2,6,8) sL 1(6,8) ne by (simp add: idle_def)
  let ?s3 = "upd_buf j (\<lambda>b. b\<lparr>b_data := bval s ?L\<rparr>) s2"
  have "refs s2 ?H > 0" "length (bval s ?L) = BSIZE" using 2(8) inv by auto
  note 3 = set_data_ok [OF 2(2,4) this]
  have f3: "bio_frame s ?s3" using 1(3) 2(3) 3(2) by (blast intro: bio_frame_trans)
  have o3: "bowner ?s3 = (bowner s)(?L := Some ?pid, ?H := Some ?pid)"
    "refs ?s3 = (refs s)(?L := 1, ?H := refs s ?H + 1)" "bval ?s3 = (bval s)(?H := bval s ?L)"
    using 3(4,6,7) 1(6,8,9) 2(6,8,9) bio_frame_pid [OF 1(3)] L(2) ne by simp_all
  have "bowner ?s3 ?H = Some (p_pid (procs ?s3 p))" "disk_block ?H < dsize ?s3" "slot ?s3 ?H = Some j"
    using o3 2(4) 3(3) bio_frame_pid [OF f3] bio_frame_dsize [OF f3] H(1) db by simp_all
  then obtain s4 where 4: "bwrite j ?s3 = Ret () s4" "idle p s4" "bio_frame ?s3 s4" "slot s4 = slot ?s3"
    "dwrites s4 = dwrites ?s3 @ [(disk_block ?H, bval ?s3 ?H)]" "refs s4 = refs ?s3" "bowner s4 = bowner ?s3"
    "\<forall>c. unat c < 2 ^ 31 \<longrightarrow> bval s4 c = bval ?s3 c"
    using bwrite_ok [OF 3(1), of ?H j] by metis
  have f4: "bio_frame s s4" using f3 4(3) by (rule bio_frame_trans)
  have w4: "dwrites s4 = dwrites s @ [(unat ?H, bval s ?L)]" using 4(5) 3(5) 2(7) 1(7) o3(3) db by simp
  obtain s5 where 5: "(if \<not> recovering then bunpin j s4 else Ret () s4) = Ret () s5" "idle p s5" "bio_frame s4 s5"
    "slot s5 = slot s4" "bval s5 = bval s4" "dwrites s5 = dwrites s4" "bowner s5 = bowner s4"
    "refs s5 = (refs s)(?L := 1, ?H := 1)"
  proof (cases recovering)
    case True
    then show thesis using 4(2,6) o3(2) H(3) by (intro that [of s4]) simp_all
  next
    case False
    have "bc_inv s4" "L_bcache \<notin> held s4" "slot s4 ?H = Some j" "refs s4 ?H > 0"
      "refs s4 ?H = 1 \<Longrightarrow> bval s4 ?H = disk s4 (disk_block ?H) \<and> bowner s4 ?H = None"
      using 4(2,4,6) o3(2) 2(4) 3(3) False H(3) by (auto simp: idle_def)
    then obtain u where u: "bunpin j s4 = Ret () u" "bc_inv u" "bio_frame s4 u" "slot u = slot s4" "bval u = bval s4"
      "dwrites u = dwrites s4" "refs u = (refs s4)(?H := refs s4 ?H - 1)" "bowner u = bowner s4"
      by (rule bunpin_ok)
    moreover from u(2,3) 4(2) have "idle p u" by (simp add: idle_def bio_frame_def)
    ultimately show thesis using False H(3) 4(6) o3(2) by (intro that [of u]) simp_all
  qed
  have f5: "bio_frame s s5" using f4 5(3) by (rule bio_frame_trans)
  have w5: "dwrites s5 = dwrites s @ [(unat ?H, bval s ?L)]" using 5(6) w4 by simp
  have v5: "bval s5 c = ((bval s)(?H := bval s ?L)) c" if "unat c < 2 ^ 31" for c using that 5(5) 4(8) o3(3) by simp
  have d5: "disk s5 = (disk s)(unat ?H := bval s ?L)" using bio_frame_disk [OF f5 w5] by simp
  have "slot s5 ?L = Some i" "bowner s5 ?L = Some (p_pid (procs s5 p))"
    and cL: "bval s5 ?L = disk s5 (disk_block ?L)"
    using 5(4,7) 4(4,7) 3(3) sL o3 ne bio_frame_pid [OF f5] v5 [of ?L] d5 L(1) ds db
      unreferenced_clean [OF inv L(2)] by (simp_all add: word_unat_eq_iff)
  then obtain s6 where 6: "brelse i s5 = Ret () s6" "idle p s6" "bio_frame s5 s6" "slot s6 = slot s5" "bval s6 = bval s5"
    "dwrites s6 = dwrites s5" "refs s6 = (refs s5)(?L := refs s5 ?L - 1)" "bowner s6 = (bowner s5)(?L := None)"
    using brelse_ok [OF 5(2), of ?L i] by metis
  have f6: "bio_frame s s6" using f5 6(3) by (rule bio_frame_trans)
  have "disk s6 = disk s5" using bio_frame_disk [OF 6(3), of "[]"] 6(6) by simp
  then have "slot s6 ?H = Some j" "bowner s6 ?H = Some (p_pid (procs s6 p))" "bval s6 ?H = disk s6 (disk_block ?H)"
    using 6(4,5,8) 5(4,7) 4(4,7) 3(3) 2(4) o3 ne bio_frame_pid [OF f6] v5 [of ?H] d5 H(1) ds db by simp_all
  then obtain t where 7: "brelse j s6 = Ret () t" "idle p t" "bio_frame s6 t" "slot t = slot s6" "bval t = bval s6"
    "dwrites t = dwrites s6" "refs t = (refs s6)(?H := refs s6 ?H - 1)" "bowner t = (bowner s6)(?H := None)"
    using brelse_ok [OF 6(2), of ?H j] by metis
  show thesis
  proof (rule that)
    show "install_one recovering k s = Ret () t"
      using 1(1) 2(1) 4(1) 5(1) 6(1) 7(1) bio_frame_log [OF 1(3)] dat dev by (simp add: install_one_def L_def)
    show "log_effect p s [(unat ?H, bval s ?L)] ((bval s)(?H := bval s ?L)) ((refs s)(?H := 0)) t"
      using 7 6(5-8) 5(7,8) 4(7) w5 v5 o3(1) L(2) H(2) own ne bio_frame_trans [OF f6 7(3)]
      by (auto simp: log_effect_def fun_eq_iff)
  qed
qed

text \<open>The cache does not depend on the log's variables.\<close>

lemma disk_log [simp]: "disk (s\<lparr>lg_n := x\<rparr>) = disk s" "disk (s\<lparr>lg_block := y\<rparr>) = disk s"
  "disk (s\<lparr>lg_outstanding := z\<rparr>) = disk s" "disk (s\<lparr>lg_committing := c\<rparr>) = disk s"
  by (simp_all add: disk_def)

lemma slot_log [simp]: "slot (s\<lparr>lg_n := x\<rparr>) = slot s" "slot (s\<lparr>lg_block := y\<rparr>) = slot s"
  "slot (s\<lparr>lg_outstanding := z\<rparr>) = slot s" "slot (s\<lparr>lg_committing := c\<rparr>) = slot s"
  by (rule slot_bufs, simp)+

lemma refs_log [simp]: "refs (s\<lparr>lg_n := x\<rparr>) = refs s" "refs (s\<lparr>lg_block := y\<rparr>) = refs s"
  "refs (s\<lparr>lg_outstanding := z\<rparr>) = refs s" "refs (s\<lparr>lg_committing := c\<rparr>) = refs s"
  by (simp_all add: refs_def fun_eq_iff split: option.split)

lemma bowner_log [simp]: "bowner (s\<lparr>lg_n := x\<rparr>) = bowner s" "bowner (s\<lparr>lg_block := y\<rparr>) = bowner s"
  "bowner (s\<lparr>lg_outstanding := z\<rparr>) = bowner s" "bowner (s\<lparr>lg_committing := c\<rparr>) = bowner s"
  by (simp_all add: bowner_def fun_eq_iff split: option.split)

lemma bval_log [simp]: "bval (s\<lparr>lg_n := x\<rparr>) = bval s" "bval (s\<lparr>lg_block := y\<rparr>) = bval s"
  "bval (s\<lparr>lg_outstanding := z\<rparr>) = bval s" "bval (s\<lparr>lg_committing := c\<rparr>) = bval s"
  by (simp_all add: bval_def fun_eq_iff split: option.split)

lemma bc_inv_log [simp]: "bc_inv (s\<lparr>lg_n := x\<rparr>) = bc_inv s" "bc_inv (s\<lparr>lg_block := y\<rparr>) = bc_inv s"
  "bc_inv (s\<lparr>lg_outstanding := z\<rparr>) = bc_inv s" "bc_inv (s\<lparr>lg_committing := c\<rparr>) = bc_inv s"
  by (simp_all add: bc_inv_def dll_def)

lemma idle_log [simp]: "idle p (s\<lparr>lg_n := x\<rparr>) = idle p s" "idle p (s\<lparr>lg_block := y\<rparr>) = idle p s"
  "idle p (s\<lparr>lg_outstanding := z\<rparr>) = idle p s" "idle p (s\<lparr>lg_committing := c\<rparr>) = idle p s"
  by (simp_all add: idle_def)

lemma write_head_ok:
  assumes idle: "idle p s" and dev: "lg_dev s = ROOTDEV" and ds: "dsize s \<le> 2 ^ 31"
    and st: "unat (lg_start s) < dsize s" "refs s (lg_start s) = 0" "card {c. refs s c > 0} < NBUF"
    and n: "nat (lg_n s) \<le> 254"
  obtains t where "write_head s = Ret () t"
    "log_effect p s [(unat (lg_start s), put_head (lg_n s) (lg_block s) (bval s (lg_start s)))]
       ((bval s)(lg_start s := put_head (lg_n s) (lg_block s) (bval s (lg_start s)))) (refs s) t"
proof -
  let ?L = "lg_start s" and ?pid = "p_pid (procs s p)" and ?v = "put_head (lg_n s) (lg_block s) (bval s (lg_start s))"
  have inv: "bc_inv s" using idle by (simp add: idle_def)
  have own: "bowner s ?L = None" using unreferenced_free [OF inv st(2)] .
  have db: "disk_block ?L = unat ?L" using st(1) ds by (simp add: disk_block_id)
  have "bready s ?L" using idle st ds own by (intro breadyI) auto
  then obtain i s1 where 1: "bread ROOTDEV ?L s = Ret i s1" "idle p s1" "bio_frame s s1"
    "slot s1 ?L = Some i" "b_data (bufs s1 i) = bval s ?L" "bval s1 = bval s" "dwrites s1 = dwrites s"
    "refs s1 = (refs s)(?L := refs s ?L + 1)" "bowner s1 = (bowner s)(?L := Some ?pid)"
    "\<forall>c j. slot s c = Some j \<and> refs s c > 0 \<longrightarrow> slot s1 c = Some j"
    by (rule bread_ok [OF idle])
  have "length (bval s ?L) = 1024" using inv by (simp add: BSIZE_def)
  then have len: "length ?v = BSIZE"
    using put_blocks(1) [OF _ n, of "wr32 (bval s ?L) 0 (of_int (lg_n s))"] by (simp add: put_head_def BSIZE_def)
  let ?s3 = "upd_buf i (\<lambda>b. b\<lparr>b_data := ?v\<rparr>) s1"
  have "refs s1 ?L > 0" using 1(8) by simp
  note 3 = set_data_ok [OF 1(2,4) this len]
  have f3: "bio_frame s ?s3" using 1(3) 3(2) by (rule bio_frame_trans)
  have "bowner ?s3 ?L = Some (p_pid (procs ?s3 p))" "disk_block ?L < dsize ?s3" "slot ?s3 ?L = Some i"
    using 3(3,7) 1(4,9) bio_frame_pid [OF f3] bio_frame_dsize [OF f3] st(1) db by simp_all
  then obtain s4 where 4: "bwrite i ?s3 = Ret () s4" "idle p s4" "bio_frame ?s3 s4" "slot s4 = slot ?s3"
    "dwrites s4 = dwrites ?s3 @ [(disk_block ?L, bval ?s3 ?L)]" "refs s4 = refs ?s3" "bowner s4 = bowner ?s3"
    "\<forall>c. unat c < 2 ^ 31 \<longrightarrow> bval s4 c = bval ?s3 c"
    using bwrite_ok [OF 3(1), of ?L i] by metis
  have f4: "bio_frame s s4" using f3 4(3) by (rule bio_frame_trans)
  have w4: "dwrites s4 = dwrites s @ [(unat ?L, ?v)]" using 4(5) 3(4,5) 1(7) db by simp
  have "bval s4 ?L = disk s4 (disk_block ?L)"
    using bio_frame_disk [OF f4 w4] 4(8) 3(4) st(1) ds db by simp
  moreover have "slot s4 ?L = Some i" "bowner s4 ?L = Some (p_pid (procs s4 p))"
    using 4(4,7) 3(3,7) 1(4,9) bio_frame_pid [OF f4] by simp_all
  ultimately obtain t where 6: "brelse i s4 = Ret () t" "idle p t" "bio_frame s4 t" "slot t = slot s4" "bval t = bval s4"
    "dwrites t = dwrites s4" "refs t = (refs s4)(?L := refs s4 ?L - 1)" "bowner t = (bowner s4)(?L := None)"
    using brelse_ok [OF 4(2), of ?L i] by metis
  show thesis
  proof (rule that)
    have "upd_buf i (\<lambda>b. b\<lparr>b_data := put_head (lg_n s) (lg_block s) (b_data b)\<rparr>) s1 = ?s3"
      using 1(5) by (simp add: upd_buf_def)
    then show "write_head s = Ret () t"
      using 1(1) 4(1) 6(1) bio_frame_log [OF 1(3)] dev by (simp add: write_head_def)
    show "log_effect p s [(unat ?L, ?v)] ((bval s)(?L := ?v)) (refs s) t"
      using 6 4(6-8) 3(4,6,7) 1(6,8,9) w4 st(2) own bio_frame_trans [OF f4 6(3)] by (auto simp: log_effect_def fun_eq_iff)
  qed
qed

lemma read_head_ok:
  assumes idle: "idle p s" and dev: "lg_dev s = ROOTDEV" and ds: "dsize s \<le> 2 ^ 31"
    and st: "unat (lg_start s) < dsize s" "refs s (lg_start s) = 0" "card {c. refs s c > 0} < NBUF"
  obtains t where "read_head s = Ret () t"
    "log_effect p (s\<lparr>lg_n := sint (rd32 (bval s (lg_start s)) 0),
        lg_block := (\<lambda>i. if i < nat (sint (rd32 (bval s (lg_start s)) 0))
          then rd32 (bval s (lg_start s)) (4 + 4 * i) else lg_block s i)\<rparr>) [] (bval s) (refs s) t"
proof -
  let ?L = "lg_start s" and ?pid = "p_pid (procs s p)"
  let ?u = "\<lambda>s'. s'\<lparr>lg_n := sint (rd32 (bval s ?L) 0),
    lg_block := (\<lambda>i. if i < nat (sint (rd32 (bval s ?L) 0)) then rd32 (bval s ?L) (4 + 4 * i) else lg_block s i)\<rparr>"
  have inv: "bc_inv s" using idle by (simp add: idle_def)
  have own: "bowner s ?L = None" using unreferenced_free [OF inv st(2)] .
  have "bready s ?L" using idle st ds own by (intro breadyI) auto
  then obtain i s1 where 1: "bread ROOTDEV ?L s = Ret i s1" "idle p s1" "bio_frame s s1"
    "slot s1 ?L = Some i" "b_data (bufs s1 i) = bval s ?L" "bval s1 = bval s" "dwrites s1 = dwrites s"
    "refs s1 = (refs s)(?L := refs s ?L + 1)" "bowner s1 = (bowner s)(?L := Some ?pid)"
    "\<forall>c j. slot s c = Some j \<and> refs s c > 0 \<longrightarrow> slot s1 c = Some j"
    by (rule bread_ok [OF idle])
  have fr: "bio_frame (?u s) (?u s1)"
    using 1(3) by (cases s; cases s1; simp add: bio_frame_def bio_state.defs log_state.defs)
  have d1: "disk (?u s1) = disk s" using bio_frame_disk [OF 1(3), of "[]"] 1(7) by simp
  have "idle p (?u s1)" "slot (?u s1) ?L = Some i" "bowner (?u s1) ?L = Some (p_pid (procs (?u s1) p))"
    "bval (?u s1) ?L = disk (?u s1) (disk_block ?L)"
    using 1(2,4,6,9) d1 bio_frame_pid [OF 1(3)] unreferenced_clean [OF inv st(2)] by simp_all
  then obtain t where t: "brelse i (?u s1) = Ret () t" "idle p t" "bio_frame (?u s1) t" "slot t = slot (?u s1)"
    "bval t = bval (?u s1)" "dwrites t = dwrites (?u s1)" "refs t = (refs (?u s1))(?L := refs (?u s1) ?L - 1)"
    "bowner t = (bowner (?u s1))(?L := None)"
    by (rule brelse_ok)
  show thesis
  proof (rule that)
    show "read_head s = Ret () t"
      using 1(1,5) t(1) bio_frame_log [OF 1(3)] dev by (simp add: read_head_def Let_def cong: if_cong)
    show "log_effect p (?u s) [] (bval s) (refs s) t"
      using t(2,5-8) 1(6-9) st(2) own bio_frame_trans [OF fr t(3)] by (auto simp: log_effect_def fun_eq_iff)
  qed
qed

text \<open>Where the log lies: header and log blocks inside the disk, the disk addressable.\<close>

definition log_place :: "nat \<Rightarrow> 'z log_state_scheme \<Rightarrow> bool" where
  "log_place p s \<longleftrightarrow> idle p s \<and> lg_dev s = ROOTDEV \<and> dsize s \<le> 2 ^ 31 \<and> unat (lg_start s) + LOGSIZE \<le> dsize s"

lemma log_place_frame: "log_place p s \<Longrightarrow> idle p t \<Longrightarrow> bio_frame s t \<Longrightarrow> log_place p t"
  using bio_frame_log [of s t] bio_frame_dsize [of s t] by (simp add: log_place_def)

lemma unat_log_block:
  assumes "log_place p s" "k < LOGSIZE - 1"
  shows "unat (lg_start s + of_nat k + 1) = unat (lg_start s) + k + 1"
proof -
  have "unat (lg_start s) + k + 1 < 2 ^ 32" using assms by (auto simp: log_place_def)
  moreover have "unat (of_nat k + 1 :: uint32) = k + 1"
    using assms by (simp add: unat_word_ariths(1) unat_of_nat take_bit_nat_eq_self LOGSIZE_def MAXOPBLOCKS_def)
  ultimately show ?thesis by (simp add: unat_word_ariths(1) add.assoc)
qed

lemma log_copies_snoc: "log_copies base (vs @ [v]) = log_copies base vs @ [(Suc (base + length vs), v)]"
proof -
  have "[Suc base..<Suc base + length (vs @ [v])] = [Suc base..<Suc base + length vs] @ [Suc (base + length vs)]"
    by (simp add: upt_Suc [of "Suc base" "Suc (base + length vs)"])
  then show ?thesis unfolding log_copies_def by (simp only: zip_append length_upt) simp
qed

lemma write_log_loop:
  fixes s :: "'z log_state_scheme"
  defines "L \<equiv> \<lambda>k. lg_start s + of_nat k + 1"
  assumes place: "log_place p s" and card: "card {c. refs s c > 0} < NBUF" and n: "n \<le> LOGSIZE - 1"
    and L: "\<And>k. k < n \<Longrightarrow> refs s (L k) = 0"
    and H: "\<And>k. k < n \<Longrightarrow> unat (lg_block s k) < dsize s \<and> refs s (lg_block s k) = 1 \<and> bowner s (lg_block s k) = None"
  shows "\<exists>t. foreach [0..<n] write_log_one s = Ret () t \<and> idle p t \<and> bio_frame s t \<and> refs t = refs s \<and> bowner t = bowner s \<and>
    dwrites t = dwrites s @ log_copies (unat (lg_start s)) (map (\<lambda>k. bval s (lg_block s k)) [0..<n]) \<and>
    (\<forall>c. unat c < 2 ^ 31 \<and> (\<forall>k < n. c \<noteq> L k) \<longrightarrow> bval t c = bval s c) \<and>
    (\<forall>k < n. bval t (L k) = bval s (lg_block s k))"
  using n L H
proof (induction n)
  case 0
  then show ?case using place by (auto simp: log_place_def log_copies_def)
next
  case (Suc n)
  then obtain t where t: "foreach [0..<n] write_log_one s = Ret () t" "idle p t" "bio_frame s t" "refs t = refs s"
    "bowner t = bowner s" "dwrites t = dwrites s @ log_copies (unat (lg_start s)) (map (\<lambda>k. bval s (lg_block s k)) [0..<n])"
    "\<And>c. unat c < 2 ^ 31 \<Longrightarrow> (\<forall>k < n. c \<noteq> L k) \<Longrightarrow> bval t c = bval s c" "\<And>k. k < n \<Longrightarrow> bval t (L k) = bval s (lg_block s k)"
    by (auto simp: less_Suc_eq)
  have pt: "log_place p t" using log_place_frame [OF place t(2,3)] .
  have lgt: "lg_start t = lg_start s" "lg_block t = lg_block s" "dsize t = dsize s"
    using bio_frame_log [OF t(3)] bio_frame_dsize [OF t(3)] by auto
  have uL: "unat (L k) = unat (lg_start s) + k + 1" if "k \<le> n" for k
    using unat_log_block [OF place] that Suc.prems(1) by (simp add: L_def)
  have dsz: "dsize s \<le> 2 ^ 31" "unat (lg_start s) + LOGSIZE \<le> dsize s" using place by (auto simp: log_place_def)
  have nL: "lg_block s k \<noteq> L j" if "k \<le> n" "j \<le> n" for k j
    using Suc.prems(2) [of j] Suc.prems(3) [of k] that by auto
  have Hn: "unat (lg_block s n) < dsize s" "refs s (lg_block s n) = 1" "bowner s (lg_block s n) = None"
    using Suc.prems(3) [of n] by auto
  have Lr: "refs s (L n) = 0" using Suc.prems(2) by simp
  have ul: "unat (L n) < dsize s" using uL [of n] Suc.prems(1) dsz by simp
  obtain u where u: "write_log_one n t = Ret () u"
    "log_effect p t [(unat (L n), bval t (lg_block s n))] ((bval t)(L n := bval t (lg_block s n))) (refs t) u"
    using write_log_one_ok [OF t(2), of n] pt Hn Lr ul card t(4,5) lgt
    by (auto simp: log_place_def L_def)
  have vn: "bval t (lg_block s n) = bval s (lg_block s n)"
    using Suc.prems(3) [of n] dsz nL by (intro t(7)) auto
  have "foreach [0..<Suc n] write_log_one s = Ret () u" using t(1) u(1) by (simp add: upt_Suc foreach_append)
  moreover have "bio_frame s u" using t(3) u(2) bio_frame_trans by (auto simp: log_effect_def)
  moreover have "dwrites u = dwrites s @ log_copies (unat (lg_start s)) (map (\<lambda>k. bval s (lg_block s k)) [0..<Suc n])"
    using u(2) t(6) vn uL [of n] by (simp add: log_effect_def upt_Suc log_copies_snoc)
  moreover have "bval u c = bval s c" if "unat c < 2 ^ 31 \<and> (\<forall>k < Suc n. c \<noteq> L k)" for c
    using u(2) t(7) [of c] that by (simp add: log_effect_def)
  moreover have "bval u (L k) = bval s (lg_block s k)" if "k < Suc n" for k
  proof (cases "k = n")
    case True
    then show ?thesis using u(2) vn uL [of n] Suc.prems(1) dsz by (simp add: log_effect_def)
  next
    case False
    then have k: "k < n" using that by simp
    then have "L k \<noteq> L n" using uL [of k] uL [of n] by (metis less_imp_le add_right_cancel add_left_cancel less_irrefl order_refl)
    then show ?thesis using u(2) t(8) [OF k] uL [of k] k Suc.prems(1) dsz by (simp add: log_effect_def)
  qed
  ultimately show ?case using u(2) t(4,5) by (intro exI [of _ u]) (simp add: log_effect_def)
qed

lemma install_loop:
  fixes s :: "'z log_state_scheme"
  defines "L \<equiv> \<lambda>k. lg_start s + of_nat k + 1"
  assumes place: "log_place p s" and n: "n \<le> LOGSIZE - 1"
    and L: "\<forall>k < n. refs s (L k) = 0"
    and H: "\<forall>k < n. unat (lg_block s k) < dsize s \<and> bowner s (lg_block s k) = None \<and>
      refs s (lg_block s k) = (if recovering then 0 else 1)"
    and card: "card {c. refs s c > 0} + (if recovering then 1 else 0) < NBUF"
    and dist: "\<forall>j < n. \<forall>k < n. lg_block s j \<noteq> L k \<and> (lg_block s j = lg_block s k \<longrightarrow> j = k)"
  shows "\<exists>t. foreach [0..<n] (install_one recovering) s = Ret () t \<and> idle p t \<and> bio_frame s t \<and> bowner t = bowner s \<and>
    refs t = (\<lambda>c. if \<exists>k < n. c = lg_block s k then 0 else refs s c) \<and>
    dwrites t = dwrites s @ zip (map (\<lambda>k. unat (lg_block s k)) [0..<n]) (map (\<lambda>k. bval s (L k)) [0..<n]) \<and>
    (\<forall>c. unat c < 2 ^ 31 \<and> (\<forall>k < n. c \<noteq> lg_block s k) \<longrightarrow> bval t c = bval s c) \<and>
    (\<forall>k < n. bval t (lg_block s k) = bval s (L k))"
  using n L H dist
proof (induction n)
  case 0
  then show ?case using place by (auto simp: log_place_def)
next
  case (Suc n)
  let ?H = "lg_block s"
  have IH1: "\<forall>k < n. refs s (L k) = 0" using Suc.prems(2) less_SucI by blast
  have IH2: "\<forall>k < n. unat (?H k) < dsize s \<and> bowner s (?H k) = None \<and>
      refs s (?H k) = (if recovering then 0 else 1)" using Suc.prems(3) less_SucI by blast
  have IH3: "\<forall>j < n. \<forall>k < n. ?H j \<noteq> L k \<and> (?H j = ?H k \<longrightarrow> j = k)"
    using Suc.prems(4) less_SucI by blast
  obtain t where t: "foreach [0..<n] (install_one recovering) s = Ret () t" "idle p t" "bio_frame s t" "bowner t = bowner s"
    "refs t = (\<lambda>c. if \<exists>k < n. c = ?H k then 0 else refs s c)"
    "dwrites t = dwrites s @ zip (map (\<lambda>k. unat (?H k)) [0..<n]) (map (\<lambda>k. bval s (L k)) [0..<n])"
    "\<forall>c. unat c < 2 ^ 31 \<and> (\<forall>k < n. c \<noteq> ?H k) \<longrightarrow> bval t c = bval s c" "\<forall>k < n. bval t (?H k) = bval s (L k)"
    using Suc.IH [OF Suc_leD [OF Suc.prems(1)] IH1 IH2 IH3]
    by (elim exE conjE) (rule that; assumption)
  have pt: "log_place p t" using log_place_frame [OF place t(2,3)] .
  have lgt: "lg_start t = lg_start s" "lg_block t = lg_block s" "dsize t = dsize s"
    using bio_frame_log [OF t(3)] bio_frame_dsize [OF t(3)] by auto
  have dsz: "dsize s \<le> 2 ^ 31" "unat (lg_start s) + LOGSIZE \<le> dsize s" using place by (auto simp: log_place_def)
  have Hn: "unat (?H n) < dsize s" "bowner s (?H n) = None" "refs s (?H n) = (if recovering then 0 else 1)"
    using Suc.prems(3) [rule_format, of n] by auto
  have fresh: "?H n \<noteq> ?H k" "L n \<noteq> ?H k" if "k < n" for k
    using Suc.prems(4) [rule_format, of n k] Suc.prems(4) [rule_format, of k n] that by auto
  have ne: "L n \<noteq> ?H n" using Suc.prems(4) [rule_format, of n n] by auto
  have rt: "refs t (?H n) = refs s (?H n)" "refs t (L n) = 0" using fresh Suc.prems(2) [rule_format, of n] by (auto simp: t(5))
  have ul: "unat (L n) < dsize s"
    using unat_log_block [OF place, of n] Suc.prems(1) dsz by (simp add: L_def)
  have "card {c. refs t c > 0} \<le> card {c. refs s c > 0}" by (rule card_mono) (auto simp: t(5))
  with card Hn(3) rt(1) have c: "card {c. refs t c > 0} < NBUF"
    "if recovering then refs t (?H n) = 0 \<and> card {c. refs t c > 0} + 1 < NBUF else refs t (?H n) = 1"
    by (auto split: if_splits)
  have dt: "lg_dev t = ROOTDEV" "dsize t \<le> 2 ^ 31" using pt by (auto simp: log_place_def)
  have "unat (lg_start t + of_nat n + 1) < dsize t" "refs t (lg_start t + of_nat n + 1) = 0"
    "lg_start t + of_nat n + 1 \<noteq> lg_block t n" "unat (lg_block t n) < dsize t" "bowner t (lg_block t n) = None"
    using Hn rt(2) ul ne t(4) lgt by (simp_all add: L_def)
  note pr = install_one_ok [OF t(2) dt this(1,2) c(1) this(3-5), of recovering]
  obtain u where u: "install_one recovering n t = Ret () u"
    "log_effect p t [(unat (?H n), bval t (L n))] ((bval t)(?H n := bval t (L n))) ((refs t)(?H n := 0)) u"
    using pr c(2) unfolding lgt L_def by blast
  have vn: "bval t (L n) = bval s (L n)" using ul dsz fresh(2) by (intro t(7) [rule_format]) auto
  have "foreach [0..<Suc n] (install_one recovering) s = Ret () u" using t(1) u(1) by (simp add: upt_Suc foreach_append)
  moreover have "bio_frame s u" using t(3) u(2) bio_frame_trans by (auto simp: log_effect_def)
  moreover have "dwrites u = dwrites s @ zip (map (\<lambda>k. unat (?H k)) [0..<Suc n]) (map (\<lambda>k. bval s (L k)) [0..<Suc n])"
    using u(2) t(6) vn by (simp add: log_effect_def upt_Suc)
  moreover have "refs u = (\<lambda>c. if \<exists>k < Suc n. c = ?H k then 0 else refs s c)"
    using u(2) t(5) by (auto simp: log_effect_def fun_eq_iff less_Suc_eq)
  moreover have "bval u c = bval s c" if "unat c < 2 ^ 31 \<and> (\<forall>k < Suc n. c \<noteq> ?H k)" for c
    using u(2) t(7) that by (simp add: log_effect_def)
  moreover have "bval u (?H k) = bval s (L k)" if "k < Suc n" for k
    using u(2) vn t(8) that fresh(1) [of k] Suc.prems(3) [rule_format, OF that] dsz
    by (cases "k = n") (auto simp: log_effect_def)
  moreover have "idle p u" "bowner u = bowner s" using u(2) t(4) by (simp_all add: log_effect_def)
  ultimately show ?case by blast
qed

section \<open>commit\<close>

text \<open>
  A state in which \<^verbatim>\<open>end_op\<close> calls \<^verbatim>\<open>commit\<close>: the logged blocks are distinct, in range, each pinned once,
  nobody has them locked; the log's own blocks are not in use and a buffer is free.
\<close>

definition home_list :: "'z log_state_scheme \<Rightarrow> nat list" where
  "home_list s = map (\<lambda>k. unat (lg_block s k)) [0..<nat (lg_n s)]"

definition new_values :: "'z log_state_scheme \<Rightarrow> block list" where
  "new_values s = map (\<lambda>k. bval s (lg_block s k)) [0..<nat (lg_n s)]"

definition log_pending :: "nat \<Rightarrow> 'z log_state_scheme \<Rightarrow> bool" where
  "log_pending p s \<longleftrightarrow> log_place p s \<and> 0 < lg_n s \<and> nat (lg_n s) \<le> LOGSIZE - 1 \<and>
     (\<forall>k < LOGSIZE. refs s (lg_start s + of_nat k) = 0) \<and> card {c. refs s c > 0} < NBUF \<and>
     (\<forall>k < nat (lg_n s). unat (lg_block s k) < dsize s \<and> refs s (lg_block s k) = 1 \<and> bowner s (lg_block s k) = None) \<and>
     distinct (home_list s)"

lemma enc_home_list:
  assumes "0 \<le> n"
  shows "enc_head (map (\<lambda>k. unat (blk k :: uint32)) [0..<nat n]) h = put_head n blk h"
  using assms by (auto simp: enc_head_def put_head_def intro!: fold_cong)

lemma log_area_refs:
  assumes "log_pending p s" "k < nat (lg_n s)"
  shows "refs s (lg_start s + of_nat k + 1) = 0" "lg_start s + of_nat k + 1 \<noteq> lg_start s"
    "unat (lg_start s + of_nat k + 1) < 2 ^ 31"
    "unat (lg_start s + of_nat k + 1) \<in> {unat (lg_start s)..unat (lg_start s) + (LOGSIZE - 1)}"
proof -
  have k: "k < LOGSIZE - 1" "Suc k < LOGSIZE" and place: "log_place p s" using assms by (auto simp: log_pending_def)
  note u = unat_log_block [OF place k(1)]
  have "refs s (lg_start s + of_nat (Suc k)) = 0" using assms(1) k(2) by (simp only: log_pending_def)
  then show "refs s (lg_start s + of_nat k + 1) = 0" by (simp add: add_ac)
  show "lg_start s + of_nat k + 1 \<noteq> lg_start s"
  proof
    assume "lg_start s + of_nat k + 1 = lg_start s"
    then have "unat (lg_start s + of_nat k + 1) = unat (lg_start s)" by (rule arg_cong)
    with u show False by simp
  qed
  show "unat (lg_start s + of_nat k + 1) < 2 ^ 31" "unat (lg_start s + of_nat k + 1) \<in> {unat (lg_start s)..unat (lg_start s) + (LOGSIZE - 1)}"
    using u k place by (auto simp: log_place_def)
qed

lemma home_outside_log:
  assumes "log_pending p s"
  shows "set (home_list s) \<inter> {unat (lg_start s)..unat (lg_start s) + (LOGSIZE - 1)} = {}"
proof (rule ccontr)
  assume "\<not> ?thesis"
  then obtain k where k: "k < nat (lg_n s)" "unat (lg_start s) \<le> unat (lg_block s k)"
    "unat (lg_block s k) \<le> unat (lg_start s) + (LOGSIZE - 1)"
    by (auto simp: home_list_def)
  define m where "m = unat (lg_block s k) - unat (lg_start s)"
  have "m < LOGSIZE" using k(2,3) by (simp add: m_def LOGSIZE_def MAXOPBLOCKS_def)
  moreover have "of_nat (unat (lg_block s k)) = (of_nat (unat (lg_start s) + m) :: uint32)"
    using k(2) by (simp add: m_def)
  then have "lg_block s k = lg_start s + of_nat m" by simp
  ultimately show False using assms k(1) by (auto simp: log_pending_def)
qed

text \<open>\<^verbatim>\<open>commit\<close> returns, having made the writes of the redo log's commit, and the log is empty.\<close>

lemma commit_ok:
  assumes pend: "log_pending p s"
  defines "base \<equiv> unat (lg_start s)"
  obtains t where "commit s = Ret () t" "idle p t" "lg_n t = 0"
    "dwrites t = dwrites s @ commit_writes enc_head base (home_list s) (new_values s) (disk s base)"
    "\<forall>c. unat c < 2 ^ 31 \<and> unat c \<notin> {base..base + (LOGSIZE - 1)} \<longrightarrow> bval t c = bval s c"
    "bowner t = bowner s" "refs t = (\<lambda>c. if unat c \<in> set (home_list s) then 0 else refs s c)"
    "bio_frame (s\<lparr>lg_n := 0\<rparr>) t"
proof -
  let ?n = "nat (lg_n s)" and ?L = "\<lambda>k. lg_start s + of_nat k + 1" and ?H = "lg_block s" and ?S = "lg_start s"
  have place: "log_place p s" and n: "0 < lg_n s" "?n \<le> LOGSIZE - 1" and card: "card {c. refs s c > 0} < NBUF"
    and H: "\<forall>k < ?n. unat (?H k) < dsize s \<and> refs s (?H k) = 1 \<and> bowner s (?H k) = None"
    using pend by (auto simp: log_pending_def)
  have inv: "bc_inv s" and ds: "dsize s \<le> 2 ^ 31" "unat ?S + LOGSIZE \<le> dsize s" "lg_dev s = ROOTDEV"
    using place by (auto simp: log_place_def idle_def)
  have S: "refs s ?S = 0" "unat ?S < dsize s"
    using pend ds by (auto simp: log_pending_def LOGSIZE_def MAXOPBLOCKS_def dest!: spec [of _ 0])
  have L: "\<And>k. k < ?n \<Longrightarrow> refs s (?L k) = 0" "\<And>k. k < ?n \<Longrightarrow> ?L k \<noteq> ?S" "\<And>k. k < ?n \<Longrightarrow> unat (?L k) < 2 ^ 31"
    "\<And>k. k < ?n \<Longrightarrow> unat (?L k) \<in> {base..base + (LOGSIZE - 1)}"
    using log_area_refs [OF pend] by (simp_all add: base_def)
  have Sv: "bval s ?S = disk s base" using unreferenced_clean [OF inv S(1)] S(2) ds by (simp add: disk_block_id base_def)
  obtain t1 where 1: "foreach [0..<?n] write_log_one s = Ret () t1" "idle p t1" "bio_frame s t1" "refs t1 = refs s"
    "bowner t1 = bowner s" "dwrites t1 = dwrites s @ log_copies base (new_values s)"
    "\<forall>c. unat c < 2 ^ 31 \<and> (\<forall>k < ?n. c \<noteq> ?L k) \<longrightarrow> bval t1 c = bval s c" "\<forall>k < ?n. bval t1 (?L k) = bval s (?H k)"
    using write_log_loop [OF place card n(2) L(1)] H unfolding new_values_def base_def by blast
  note g1 = bio_frame_log [OF 1(3)] bio_frame_dsize [OF 1(3)]
  have b1: "bval t1 ?S = disk s base" using 1(7) S(2) ds L(2) Sv by (metis less_le_trans)
  obtain t2 where 2: "write_head t1 = Ret () t2"
    "log_effect p t1 [(base, enc_head (home_list s) (disk s base))] ((bval t1)(?S := enc_head (home_list s) (disk s base))) (refs s) t2"
    using write_head_ok [OF 1(2)] g1 ds S card n 1(4) b1 enc_home_list [of "lg_n s" ?H "disk s base"]
    by (auto simp: base_def home_list_def LOGSIZE_def MAXOPBLOCKS_def)
  have i2: "idle p t2" and f2: "bio_frame s t2" using 2(2) bio_frame_trans [OF 1(3)] by (auto simp: log_effect_def)
  note g2 = bio_frame_log [OF f2] bio_frame_dsize [OF f2]
  have r2: "refs t2 = refs s" "bowner t2 = bowner s" using 2(2) 1(5) by (auto simp: log_effect_def)
  have vL: "bval t2 (?L k) = bval s (?H k)" if "k < ?n" for k
    using 2(2) L(2,3) [OF that] 1(8) that by (simp add: log_effect_def)
  have vS: "bval t2 ?S = enc_head (home_list s) (disk s base)" using 2(2) S(2) ds by (simp add: log_effect_def)
  have v2: "bval t2 c = bval s c" if "unat c < 2 ^ 31" "c \<noteq> ?S" "\<forall>k < ?n. c \<noteq> ?L k" for c
    using 2(2) 1(7) that by (simp add: log_effect_def)
  have w2: "dwrites t2 = dwrites s @ log_copies base (new_values s) @ [(base, enc_head (home_list s) (disk s base))]"
    using 2(2) 1(6) by (simp add: log_effect_def)
  have dist: "\<forall>j < ?n. \<forall>k < ?n. ?H j \<noteq> ?L k \<and> (?H j = ?H k \<longrightarrow> j = k)"
  proof (intro allI impI)
    fix j k assume jk: "j < ?n" "k < ?n"
    then have "?H j \<noteq> ?L k" using H L(1) [of k] by auto
    moreover have "inj_on (\<lambda>k. unat (?H k)) {0..<?n}" using pend by (simp add: log_pending_def home_list_def distinct_map)
    ultimately show "?H j \<noteq> ?L k \<and> (?H j = ?H k \<longrightarrow> j = k)" using jk by (auto simp: inj_on_def)
  qed
  have HS: "\<forall>k < ?n. ?S \<noteq> ?H k" using H S(1) by auto
  obtain t3 where 3: "foreach [0..<?n] (install_one False) t2 = Ret () t3" "idle p t3" "bio_frame t2 t3" "bowner t3 = bowner s"
    "refs t3 = (\<lambda>c. if \<exists>k < ?n. c = ?H k then 0 else refs s c)"
    "dwrites t3 = dwrites t2 @ zip (home_list s) (map (\<lambda>k. bval t2 (?L k)) [0..<?n])"
    "\<forall>c. unat c < 2 ^ 31 \<and> (\<forall>k < ?n. c \<noteq> ?H k) \<longrightarrow> bval t3 c = bval t2 c" "\<forall>k < ?n. bval t3 (?H k) = bval t2 (?L k)"
    using install_loop [OF log_place_frame [OF place i2 f2] n(2), of False] L(1) H card dist
    unfolding g2 r2 home_list_def by auto
  have f3: "bio_frame s t3" using f2 3(3) by (rule bio_frame_trans)
  note g3 = bio_frame_log [OF f3] bio_frame_dsize [OF f3]
  let ?u = "t3\<lparr>lg_n := 0\<rparr>"
  have S3: "bval t3 ?S = enc_head (home_list s) (disk s base)" "refs t3 ?S = 0"
    using 3(5) 3(7) [rule_format, of ?S] vS HS S ds by auto
  have "card {c. refs t3 c > 0} \<le> card {c. refs s c > 0}" by (rule card_mono) (auto simp: 3(5))
  then have c3: "card {c. refs ?u c > 0} < NBUF" using card by simp
  have "idle p ?u" "lg_dev ?u = ROOTDEV" "dsize ?u \<le> 2 ^ 31" "unat (lg_start ?u) < dsize ?u" "refs ?u (lg_start ?u) = 0"
    "nat (lg_n ?u) \<le> 254"
    using 3(2) g3 ds S(2) S3 by simp_all
  from write_head_ok [OF this(1-5) c3 this(6)] obtain t where 4: "write_head ?u = Ret () t"
    "log_effect p ?u [(base, enc_head [] (enc_head (home_list s) (disk s base)))]
      ((bval t3)(?S := enc_head [] (enc_head (home_list s) (disk s base)))) (refs t3) t"
    using g3 S3 enc_home_list [of 0 ?H "enc_head (home_list s) (disk s base)"] by (auto simp: base_def)
  show thesis
  proof (rule that)
    show "commit s = Ret () t"
      using 1(1) 2(1) 3(1) 4(1) n(1) g1 g2 by (simp add: commit_def write_log_def install_trans_def)
    show "idle p t" using 4(2) by (simp add: log_effect_def)
    have f4: "bio_frame ?u t" using 4(2) by (simp add: log_effect_def)
    show "lg_n t = 0" using bio_frame_log [OF f4] by simp
    have "map (\<lambda>k. bval t2 (?L k)) [0..<?n] = new_values s" using vL by (simp add: new_values_def)
    then show "dwrites t = dwrites s @ commit_writes enc_head base (home_list s) (new_values s) (disk s base)"
      using 4(2) 3(6) w2 by (simp add: log_effect_def commit_writes_def)
    show "bowner t = bowner s" using 4(2) 3(4) by (simp add: log_effect_def)
    show "refs t = (\<lambda>c. if unat c \<in> set (home_list s) then 0 else refs s c)"
      using 4(2) 3(5) by (auto simp: log_effect_def fun_eq_iff home_list_def word_unat_eq_iff image_iff)
    show "bio_frame (s\<lparr>lg_n := 0\<rparr>) t"
      using f3 f4 by (cases s; cases t3; cases t; simp add: bio_frame_def bio_state.defs log_state.defs)
    show "\<forall>c. unat c < 2 ^ 31 \<and> unat c \<notin> {base..base + (LOGSIZE - 1)} \<longrightarrow> bval t c = bval s c"
    proof (intro allI impI)
      fix c :: uint32 assume c: "unat c < 2 ^ 31 \<and> unat c \<notin> {base..base + (LOGSIZE - 1)}"
      then have nS: "c \<noteq> ?S" "\<forall>k < ?n. c \<noteq> ?L k" using L(4) by (auto simp: base_def)
      have "bval t3 c = bval s c"
      proof (cases "\<exists>k < ?n. c = ?H k")
        case True
        then show ?thesis using 3(8) vL by auto
      next
        case False
        then show ?thesis using 3(7) c v2 nS by auto
      qed
      then show "bval t c = bval s c" using 4(2) c nS by (simp add: log_effect_def)
    qed
  qed
qed

section \<open>Recovery\<close>

text \<open>
  The state in which \<^verbatim>\<open>recover_from_log\<close> runs at boot: nothing in use in the cache, and a log on disk
  that \<^verbatim>\<open>commit\<close> can have left.
\<close>

definition log_sound :: "nat \<Rightarrow> nat \<Rightarrow> (nat \<Rightarrow> block) \<Rightarrow> bool" where
  "log_sound lim base d \<longleftrightarrow> length (d base) = BSIZE \<and> length (dec_head (d base)) \<le> LOGSIZE - 1 \<and>
     distinct (dec_head (d base)) \<and> set (dec_head (d base)) \<inter> {base..base + (LOGSIZE - 1)} = {} \<and>
     (\<forall>b \<in> set (dec_head (d base)). b < lim \<and> b < 2 ^ 31)"

lemma log_sound_logok: "lg.logok lim base d = log_sound lim base d"
  by (simp only: lg.logok_def log_sound_def Let_def)

definition log_boot :: "nat \<Rightarrow> 'z log_state_scheme \<Rightarrow> bool" where
  "log_boot p s \<longleftrightarrow> log_place p s \<and> (\<forall>c. refs s c = 0) \<and> log_sound (dsize s) (unat (lg_start s)) (disk s)"

lemma dec_head_nth:
  "k < length (dec_head h) \<Longrightarrow> dec_head h ! k = unat (rd32 h (4 + 4 * k))"
  by (simp add: dec_head_def)

lemma recover_ok:
  assumes boot: "log_boot p s"
  defines "base \<equiv> unat (lg_start s)"
  obtains t where "recover_from_log s = Ret () t" "idle p t" "lg_n t = 0"
    "dwrites t = dwrites s @ recovery_writes enc_head dec_head base (disk s)" "dinit t = dinit s"
    "refs t = refs s" "bowner t = bowner s"
proof -
  let ?S = "lg_start s" and ?h = "disk s base"
  let ?n = "length (dec_head ?h)"
  have place: "log_place p s" and idle: "idle p s" and inv: "bc_inv s" and r0: "\<And>c. refs s c = 0"
    and ds: "dsize s \<le> 2 ^ 31" "unat ?S + LOGSIZE \<le> dsize s" "lg_dev s = ROOTDEV"
    and hd: "?n \<le> LOGSIZE - 1" "distinct (dec_head ?h)" "set (dec_head ?h) \<inter> {base..base + (LOGSIZE - 1)} = {}"
      "\<forall>b \<in> set (dec_head ?h). b < dsize s"
    using boot by (auto simp: log_boot_def log_place_def idle_def log_sound_def base_def)
  have S: "unat ?S < dsize s" "unat ?S < 2 ^ 31" using ds by (auto simp: LOGSIZE_def MAXOPBLOCKS_def)
  have card: "card {c. refs s c > 0} = 0" using r0 by simp
  have clean: "bval s c = disk s (unat c)" if "unat c < 2 ^ 31" for c
    using unreferenced_clean [OF inv r0] that by (simp add: disk_block_id)
  have nn: "nat (sint (rd32 ?h 0)) = ?n" by (simp add: dec_head_def)
  let ?s0 = "s\<lparr>lg_n := sint (rd32 ?h 0), lg_block := (\<lambda>i. if i < ?n then rd32 ?h (4 + 4 * i) else lg_block s i)\<rparr>"
  have c: "card {c. refs s c > 0} < NBUF" using card by (simp add: NBUF_def MAXOPBLOCKS_def)
  have Sv: "bval s ?S = ?h" using clean [OF S(2)] by (simp add: base_def)
  obtain t1 where 1: "read_head s = Ret () t1" "log_effect p ?s0 [] (bval s) (refs s) t1"
    using read_head_ok [OF idle ds(3,1) S(1) r0 c] unfolding Sv nn .
  have i1: "idle p t1" and f1: "bio_frame ?s0 t1" and e1: "dwrites t1 = dwrites s" "refs t1 = refs s" "bowner t1 = bowner s"
    "\<And>c. unat c < 2 ^ 31 \<Longrightarrow> bval t1 c = bval s c"
    using 1(2) by (auto simp: log_effect_def)
  have g1: "lg_start t1 = ?S" "lg_dev t1 = ROOTDEV" "nat (lg_n t1) = ?n" "dsize t1 = dsize s"
    "\<And>k. k < ?n \<Longrightarrow> unat (lg_block t1 k) = dec_head ?h ! k"
    using bio_frame_log [OF f1] bio_frame_dsize [OF f1] nn ds by (auto simp: dec_head_nth)
  have p1: "log_place p t1" using place i1 g1 by (simp add: log_place_def)
  have uL: "unat (?S + of_nat k + 1) = base + k + 1" if "k < ?n" for k
    using unat_log_block [OF place, of k] that hd(1) by (simp add: base_def)
  have H: "unat (lg_block t1 k) < dsize s" "unat (lg_block t1 k) \<notin> {base..base + (LOGSIZE - 1)}" if "k < ?n" for k
    using g1(5) [OF that] hd(3,4) nth_mem [OF that] by auto
  have b0: "bowner s c = None" for c using unreferenced_free [OF inv r0] .
  have dist: "\<forall>j < ?n. \<forall>k < ?n. lg_block t1 j \<noteq> ?S + of_nat k + 1 \<and> (lg_block t1 j = lg_block t1 k \<longrightarrow> j = k)"
  proof (intro allI impI conjI)
    fix j k assume jk: "j < ?n" "k < ?n"
    show "lg_block t1 j \<noteq> ?S + of_nat k + 1" using H(2) [OF jk(1)] uL [OF jk(2)] jk(2) hd(1) by auto
    show "j = k" if "lg_block t1 j = lg_block t1 k" using that g1(5) jk hd(2) nth_eq_iff_index_eq by metis
  qed
  obtain t2 where 2: "foreach [0..<?n] (install_one True) t1 = Ret () t2" "idle p t2" "bio_frame t1 t2" "bowner t2 = bowner t1"
    "refs t2 = (\<lambda>c. if \<exists>k < ?n. c = lg_block t1 k then 0 else refs t1 c)"
    "dwrites t2 = dwrites t1 @ zip (map (\<lambda>k. unat (lg_block t1 k)) [0..<?n]) (map (\<lambda>k. bval t1 (lg_start t1 + of_nat k + 1)) [0..<?n])"
    "\<forall>c. unat c < 2 ^ 31 \<and> (\<forall>k < ?n. c \<noteq> lg_block t1 k) \<longrightarrow> bval t2 c = bval t1 c"
    using install_loop [OF p1 hd(1), of True] H(1) r0 b0 card dist unfolding e1(2,3) g1(1,4) by (auto simp: NBUF_def MAXOPBLOCKS_def)
  have "map (\<lambda>k. unat (lg_block t1 k)) [0..<?n] = dec_head ?h" using g1(5) by (auto intro: nth_equalityI)
  moreover have "map (\<lambda>k. bval t1 (lg_start t1 + of_nat k + 1)) [0..<?n] = map (disk s) [Suc base..<Suc base + ?n]"
  proof (rule nth_equalityI)
    fix k assume "k < length (map (\<lambda>k. bval t1 (lg_start t1 + of_nat k + 1)) [0..<?n])"
    then have k: "k < ?n" by simp
    then have "unat (?S + of_nat k + 1) < 2 ^ 31" using uL [OF k] hd(1) ds by (simp add: base_def)
    then show "map (\<lambda>k. bval t1 (lg_start t1 + of_nat k + 1)) [0..<?n] ! k = map (disk s) [Suc base..<Suc base + ?n] ! k"
      using k e1(4) clean uL [OF k] g1(1) by simp
  qed simp
  ultimately have w2: "dwrites t2 = dwrites s @ home_writes dec_head base (disk s)"
    using 2(6) e1(1) by (simp add: home_writes_def Let_def)
  note g2 = bio_frame_log [OF 2(3)] bio_frame_dsize [OF 2(3)]
  let ?u = "t2\<lparr>lg_n := 0\<rparr>"
  have r2: "refs t2 = refs s" using 2(5) e1(2) r0 by (simp add: fun_eq_iff)
  have "?S \<noteq> lg_block t1 k" if "k < ?n" for k using H(2) [OF that] by (auto simp: base_def)
  then have S2: "bval t2 ?S = ?h" using 2(7) e1(4) S(2) Sv by simp
  have "idle p ?u" "lg_dev ?u = ROOTDEV" "dsize ?u \<le> 2 ^ 31" "unat (lg_start ?u) < dsize ?u" "refs ?u (lg_start ?u) = 0"
    "card {c. refs ?u c > 0} < NBUF" "nat (lg_n ?u) \<le> 254"
    using 2(2) g1 g2 ds S r2 r0 c by simp_all
  from write_head_ok [OF this] obtain t where 4: "write_head ?u = Ret () t"
    "log_effect p ?u [(base, enc_head [] ?h)] ((bval t2)(?S := enc_head [] ?h)) (refs t2) t"
    using g1 g2 S2 enc_home_list [of 0 "lg_block t2" ?h] by (auto simp: base_def)
  show thesis
  proof (rule that)
    show "recover_from_log s = Ret () t"
      using 1(1) 2(1) 4(1) g1 by (simp add: recover_from_log_def install_trans_def)
    have f4: "bio_frame ?u t" and e: "idle p t" "dwrites t = dwrites t2 @ [(base, enc_head [] ?h)]" "refs t = refs t2" "bowner t = bowner t2"
      using 4(2) by (auto simp: log_effect_def)
    show "idle p t" by (rule e(1))
    show "lg_n t = 0" using bio_frame_log [OF f4] by simp
    show "dwrites t = dwrites s @ recovery_writes enc_head dec_head base (disk s)"
      using e(2) w2 by (simp add: recovery_writes_def)
    show "dinit t = dinit s" using f1 2(3) f4 by (auto simp: bio_frame_def)
    show "refs t = refs s" "bowner t = bowner s" using e(3,4) r2 2(4) e1(3) by simp_all
  qed
qed

end
