(* ===== verification/Txn.thy ===== *)
theory Txn
  imports Log
begin

text \<open>
  The log as its callers see it: \<^verbatim>\<open>begin_op\<close>, \<^verbatim>\<open>log_write\<close> and \<^verbatim>\<open>end_op\<close> of \<^verbatim>\<open>kernel/log.c\<close> on top of the
  writes proved in \<open>Log\<close>. A transaction is atomic with respect to a crash at any disk write, including
  crashes of the recovery itself; \<^verbatim>\<open>log_write\<close> logs a block once however often it is written; \<^verbatim>\<open>begin_op\<close>
  reserves one block more than \<^verbatim>\<open>log_write\<close> accepts.
\<close>

section \<open>log_write\<close>

lemma bc_inv_held [simp]: "bc_inv (s\<lparr>held := H\<rparr>) = bc_inv s"
  by (simp add: bc_inv_def dll_def)

lemma log_index_find:
  "log_index k i b s = (case find (\<lambda>j. lg_block s j = b) [i..<i + k] of Some j \<Rightarrow> j | None \<Rightarrow> i + k)"
  by (induction k arbitrary: i) (simp_all add: upt_conv_Cons split: option.split)

lemma log_index_absent:
  assumes "\<forall>j < nat n. lg_block s j \<noteq> b"
  shows "log_index (nat n) 0 b s = nat n"
proof -
  have "find (\<lambda>j. lg_block s j = b) [0..<nat n] = None" using assms by (auto simp: find_None_iff)
  then show ?thesis by (simp add: log_index_find)
qed

lemma log_index_present:
  assumes "\<exists>j < nat n. lg_block s j = b"
  shows "log_index (nat n) 0 b s < nat n \<and> lg_block s (log_index (nat n) 0 b s) = b"
proof -
  obtain j where j: "find (\<lambda>j. lg_block s j = b) [0..<nat n] = Some j"
    using assms by (cases "find (\<lambda>j. lg_block s j = b) [0..<nat n]") (auto simp: find_None_iff)
  then have "log_index (nat n) 0 b s = j" by (simp add: log_index_find)
  then show ?thesis using j by (auto simp: find_Some_iff)
qed

lemma mem_home_list: "unat b \<in> set (home_list s) \<longleftrightarrow> (\<exists>j < nat (lg_n s). lg_block s j = b)"
  by (auto simp: home_list_def) (metis word_unat_eq_iff)

text \<open>The fields a log operation leaves alone.\<close>

definition log_frame :: "'z log_state_scheme \<Rightarrow> 'z log_state_scheme \<Rightarrow> bool" where
  "log_frame s t \<longleftrightarrow> (\<exists>n blk. bio_frame (s\<lparr>lg_n := n, lg_block := blk\<rparr>) t)"

lemma log_frame_simps:
  assumes "log_frame s t"
  shows "held t = held s" "curproc t = curproc s" "p_pid (procs t i) = p_pid (procs s i)" "dsize t = dsize s"
    "lg_start t = lg_start s" "lg_size t = lg_size s" "lg_outstanding t = lg_outstanding s"
    "lg_committing t = lg_committing s" "lg_dev t = lg_dev s"
proof -
  obtain n blk where f: "bio_frame (s\<lparr>lg_n := n, lg_block := blk\<rparr>) t" using assms by (auto simp: log_frame_def)
  show "held t = held s" "curproc t = curproc s" "p_pid (procs t i) = p_pid (procs s i)" "dsize t = dsize s"
    "lg_start t = lg_start s" "lg_size t = lg_size s" "lg_outstanding t = lg_outstanding s"
    "lg_committing t = lg_committing s" "lg_dev t = lg_dev s"
    using bio_frame_log [OF f] f [unfolded bio_frame_def] by simp_all
qed

lemma bio_frame_lg: "bio_frame s t \<Longrightarrow> log_frame s t"
  by (auto simp: log_frame_def intro!: exI [of _ "lg_n s"] exI [of _ "lg_block s"])

lemma log_frame_refl [simp]: "log_frame s s"
  by (rule bio_frame_lg) simp

lemma log_frame_trans:
  assumes "log_frame s t" "log_frame t u"
  shows "log_frame s u"
proof -
  obtain n blk n' blk' where "bio_frame (s\<lparr>lg_n := n, lg_block := blk\<rparr>) t" "bio_frame (t\<lparr>lg_n := n', lg_block := blk'\<rparr>) u"
    using assms by (auto simp: log_frame_def)
  then have "bio_frame (s\<lparr>lg_n := n', lg_block := blk'\<rparr>) u"
    by (cases s; cases t; cases u; simp add: bio_frame_def bio_state.defs log_state.defs)
  then show ?thesis by (auto simp: log_frame_def)
qed

text \<open>
  \<^verbatim>\<open>log_write\<close> of a block its caller has locked: the block is on the list of logged blocks afterwards, and
  it is pinned exactly if it was not there before.
\<close>

lemma log_write_ok:
  assumes idle: "idle p s" and i: "slot s b = Some i" and ref: "refs s b > 0" "refs s b + 1 < 2 ^ 32"
    and n: "0 \<le> lg_n s" "lg_n s < int LOGSIZE" "lg_n s < lg_size s - 1" and out: "lg_outstanding s \<ge> 1"
  obtains t where "log_write i s = Ret () t" "idle p t" "log_frame s t" "slot t = slot s" "bval t = bval s"
    "dwrites t = dwrites s" "bowner t = bowner s"
    "home_list t = (if unat b \<in> set (home_list s) then home_list s else home_list s @ [unat b])"
    "refs t = (if unat b \<in> set (home_list s) then refs s else (refs s)(b := refs s b + 1))" "lg_n t = int (length (home_list t))"
proof -
  have inv: "bc_inv s" and h: "held s = {}" "curproc s = Some p" using idle by (auto simp: idle_def)
  have bn: "b_blockno (bufs s i) = b" using slot_SomeD [OF i] by simp
  let ?h = "s\<lparr>held := {L_log}\<rparr>" and ?k = "log_index (nat (lg_n s)) 0 b s"
  have idx: "log_index (nat (lg_n s)) 0 b ?h = ?k" by (simp add: log_index_find)
  show thesis
  proof (cases "unat b \<in> set (home_list s)")
    case True
    then have k: "?k < nat (lg_n s)" "lg_block s ?k = b" using log_index_present mem_home_list by blast+
    have same: "(lg_block s)(?k := b) = lg_block s" "int ?k \<noteq> lg_n s" using k by auto
    have "log_write i s = Ret () s"
      using n out h k(1) same bn idx by (simp add: log_write_def Let_def acq_def rel_def)
    then show ?thesis using True idle n(1) by (intro that [of s]) (auto simp: home_list_def)
  next
    case False
    then have k: "?k = nat (lg_n s)" "int ?k = lg_n s" using log_index_absent mem_home_list n(1) by fastforce+
    let ?s1 = "?h\<lparr>lg_block := (lg_block s)(?k := b)\<rparr>"
    have "bc_inv ?s1" "L_bcache \<notin> held ?s1" "slot ?s1 b = Some i" "refs ?s1 b > 0" "refs ?s1 b + 1 < 2 ^ 32"
      using inv i ref by simp_all
    then obtain t where t: "bpin i ?s1 = Ret () t" "bc_inv t" "bio_frame ?s1 t" "slot t = slot ?s1" "bval t = bval ?s1"
      "dwrites t = dwrites ?s1" "refs t = (refs ?s1)(b := refs ?s1 b + 1)" "bowner t = bowner ?s1"
      by (rule bpin_ok)
    let ?u = "t\<lparr>lg_n := lg_n t + 1, held := {}\<rparr>"
    have g: "held t = {L_log}" "curproc t = Some p" "lg_n t = lg_n s" "lg_block t = (lg_block s)(?k := b)"
      using bio_frame_log [OF t(3)] t(3) h by (auto simp: bio_frame_def)
    have "log_write i s = Ret () ?u"
      using n out h k bn idx t(1) g by (simp add: log_write_def Let_def acq_def rel_def)
    moreover have "idle p ?u" using t(2) g by (simp add: idle_def)
    moreover have "bio_frame (s\<lparr>lg_n := lg_n s + 1, lg_block := (lg_block s)(?k := b)\<rparr>) ?u"
      using t(3) h by (cases s; cases t; simp add: bio_frame_def bio_state.defs log_state.defs)
    then have "log_frame s ?u" unfolding log_frame_def by blast
    moreover have "home_list ?u = home_list s @ [unat b]"
      using g k n(1) by (simp add: home_list_def nat_add_distrib upt_Suc)
    moreover have "lg_n ?u = int (length (home_list ?u))" using g n(1) by (simp add: home_list_def)
    ultimately show ?thesis using False t by (intro that [of ?u]) auto
  qed
qed

section \<open>Crash safety\<close>

text \<open>
  A machine started on the disk \<open>d\<close>: its log lies where the superblock says, and nothing is in its cache
  in use. \<open>boots start n d d'\<close>: \<open>d'\<close> is a disk that \<^verbatim>\<open>recover_from_log\<close> leaves when the machine is started on
  \<open>d\<close>, possibly after any number of earlier starts that lost power at some disk write.
\<close>

definition booted :: "uint32 \<Rightarrow> nat \<Rightarrow> (nat \<Rightarrow> block) \<Rightarrow> log_state \<Rightarrow> bool" where
  "booted start n d r \<longleftrightarrow> (\<exists>p. log_place p r) \<and> lg_start r = start \<and> dsize r = n \<and> disk r = d \<and> (\<forall>c. refs r c = 0)"

definition writes_of :: "'z bio_state_scheme \<Rightarrow> 'z bio_state_scheme \<Rightarrow> (nat \<times> block) list" where
  "writes_of s t = drop (length (dwrites s)) (dwrites t)"

inductive boots :: "uint32 \<Rightarrow> nat \<Rightarrow> (nat \<Rightarrow> block) \<Rightarrow> (nat \<Rightarrow> block) \<Rightarrow> bool" for start n where
  boot: "booted start n d r \<Longrightarrow> recover_from_log r = Ret () r' \<Longrightarrow> boots start n d (disk r')"
| lose: "booted start n d r \<Longrightarrow> recover_from_log r = Ret () r' \<Longrightarrow>
    boots start n (apply_writes (take k (writes_of r r')) d) d' \<Longrightarrow> boots start n d d'"

lemma booted_recovers:
  assumes "booted start n d r" "log_sound n (unat start) d"
  obtains r' where "recover_from_log r = Ret () r'" "lg_n r' = 0"
    "writes_of r r' = recovery_writes enc_head dec_head (unat start) d"
    "disk r' = apply_writes (recovery_writes enc_head dec_head (unat start) d) d"
proof -
  obtain p where "log_boot p r" using assms by (auto simp: booted_def log_boot_def)
  then obtain r' where "recover_from_log r = Ret () r'" "lg_n r' = 0" "dinit r' = dinit r"
    "dwrites r' = dwrites r @ recovery_writes enc_head dec_head (unat (lg_start r)) (disk r)"
    by (rule recover_ok)
  then show thesis
    using assms(1) by (intro that [of r']) (auto simp: booted_def writes_of_def disk_def apply_writes_append)
qed

lemma boots_recovers_to:
  assumes "boots start n d d'" "log_sound n (unat start) d"
  shows "recovers_to enc_head dec_head (unat start) d d'"
  using assms
proof (induction rule: boots.induct)
  case (boot d r r')
  obtain u where "recover_from_log r = Ret () u" "disk u = apply_writes (recovery_writes enc_head dec_head (unat start) d) d"
    by (rule booted_recovers [OF boot.hyps(1) boot.prems])
  then show ?case using boot.hyps(2) recovers_to.finish by simp
next
  case (lose d r r' k d')
  obtain u where "recover_from_log r = Ret () u" "writes_of r u = recovery_writes enc_head dec_head (unat start) d"
    by (rule booted_recovers [OF lose.hyps(1) lose.prems])
  then have w: "writes_of r r' = recovery_writes enc_head dec_head (unat start) d" using lose.hyps(2) by simp
  have "log_sound n (unat start) (apply_writes (take k (writes_of r r')) d)"
    unfolding w log_sound_logok [symmetric]
    using lg.partial_recovery [of n "unat start" d k] lose.prems unfolding log_sound_logok by blast
  then show ?case using lose.IH w by (auto intro: recovers_to.crash)
qed

lemma commit_crash:
  fixes d' :: "nat \<Rightarrow> block" and k :: nat
  assumes pend: "log_pending p s" and empty: "dec_head (disk s (unat (lg_start s))) = []"
  defines "d \<equiv> apply_writes (take k (commit_writes enc_head (unat (lg_start s)) (home_list s) (new_values s) (disk s (unat (lg_start s))))) (disk s)"
    and "area \<equiv> {unat (lg_start s)..unat (lg_start s) + (LOGSIZE - 1)}"
  shows "log_sound (dsize s) (unat (lg_start s)) d"
    and "boots (lg_start s) (dsize s) d d' \<Longrightarrow>
      (\<forall>b. b \<notin> area \<longrightarrow> d' b = disk s b) \<or> (\<forall>b. b \<notin> area \<longrightarrow> d' b = apply_writes (zip (home_list s) (new_values s)) (disk s) b)"
proof -
  let ?base = "unat (lg_start s)"
  have inv: "bc_inv s" using pend by (simp add: log_pending_def log_place_def idle_def)
  have 1: "length (disk s ?base) = BSIZE" using inv by (simp add: bc_inv_def)
  have 2: "length (home_list s) \<le> LOGSIZE - 1" "length (new_values s) = length (home_list s)" "distinct (home_list s)"
    using pend by (auto simp: log_pending_def home_list_def new_values_def)
  have 3: "\<forall>b \<in> set (home_list s). b < dsize s \<and> b < 2 ^ 31"
    using pend by (auto simp: log_pending_def log_place_def home_list_def)
  note cp = lg.commit_prefix [where lim = "dsize s" and d = "disk s" and base = ?base and k = k, OF 1 empty 2 home_outside_log [OF pend] 3]
  show sound: "log_sound (dsize s) ?base d"
    using cp unfolding log_sound_logok d_def by blast
  show "(\<forall>b. b \<notin> area \<longrightarrow> d' b = disk s b) \<or> (\<forall>b. b \<notin> area \<longrightarrow> d' b = apply_writes (zip (home_list s) (new_values s)) (disk s) b)"
    if "boots (lg_start s) (dsize s) d d'"
    using lg.crash_safe [where lim = "dsize s" and d = "disk s" and base = ?base, OF 1 empty 2 home_outside_log [OF pend] 3
        boots_recovers_to [OF that sound, unfolded d_def]]
    unfolding area_def .
qed

section \<open>begin_op and end_op\<close>

lemma begin_op_loop_cases:
  "begin_op_loop s =
     (if lg_committing s \<or> lg_n s + (lg_outstanding s + 1) * int MAXOPBLOCKS > int LOGSIZE then sleep Ch_log L_log s
      else rel L_log (s\<lparr>lg_outstanding := lg_outstanding s + 1\<rparr>))"
  by (simp add: begin_op_loop_def)

lemma bc_inv_procs [simp]: "bc_inv (s\<lparr>procs := ps\<rparr>) = bc_inv s"
  by (simp add: bc_inv_def dll_def)

lemma commit_installs:
  assumes "distinct bs" "length vs = length bs" "base \<notin> set bs" "i < length bs"
  shows "apply_writes (commit_writes enc base bs vs h) d (bs ! i) = vs ! i"
  using apply_zip(1) [OF assms(1,2,4)] assms(3,4) by (auto simp: commit_writes_def apply_writes_append)

lemma end_op_last:
  assumes pend: "log_pending p s" and out: "lg_outstanding s = 1" "\<not> lg_committing s"
  obtains t where "end_op s = Ret () t" "idle p t" "lg_n t = 0" "lg_outstanding t = 0" "\<not> lg_committing t"
    "writes_of s t = commit_writes enc_head (unat (lg_start s)) (home_list s) (new_values s) (disk s (unat (lg_start s)))"
    "disk t = apply_writes (writes_of s t) (disk s)"
    "\<forall>c. unat c < 2 ^ 31 \<and> unat c \<notin> {unat (lg_start s)..unat (lg_start s) + (LOGSIZE - 1)} \<longrightarrow> bval t c = bval s c"
proof -
  have h: "held s = {}" "curproc s = Some p" using pend by (simp_all add: log_pending_def log_place_def idle_def)
  let ?s = "s\<lparr>lg_outstanding := 0, lg_committing := True\<rparr>"
  have hl: "home_list ?s = home_list s" "new_values ?s = new_values s" by (simp_all add: home_list_def new_values_def)
  have "log_pending p ?s" using pend by (simp add: log_pending_def log_place_def hl)
  from commit_ok [OF this] obtain t where t: "commit ?s = Ret () t" "idle p t" "lg_n t = 0"
    "dwrites t = dwrites s @ commit_writes enc_head (unat (lg_start s)) (home_list s) (new_values s) (disk s (unat (lg_start s)))"
    "\<forall>c. unat c < 2 ^ 31 \<and> unat c \<notin> {unat (lg_start s)..unat (lg_start s) + (LOGSIZE - 1)} \<longrightarrow> bval t c = bval s c"
    "bio_frame (?s\<lparr>lg_n := 0\<rparr>) t"
    by (auto simp: hl)
  have g: "held t = {}" "curproc t = Some p" "lg_outstanding t = 0" "dinit t = dinit s"
    using t(2) bio_frame_log [OF t(6)] t(6) by (simp_all add: idle_def bio_frame_def)
  let ?u = "t\<lparr>procs := woken Ch_log (curproc t) (procs t), lg_committing := False\<rparr>"
  have w: "may_wake (t\<lparr>held := {L_log}, lg_committing := False\<rparr>)" by (simp add: may_wake_def)
  have same: "s\<lparr>lg_outstanding := 0, lg_committing := True, held := {}\<rparr> = ?s" using h by simp
  have "end_op s = Ret () ?u"
    using h out g t(1) wakeup_Ret [OF w, of Ch_log] by (simp add: same end_op_def Let_def acq_def rel_def)
  then show thesis
    using t g by (intro that [of ?u]) (auto simp: idle_def writes_of_def disk_def apply_writes_append)
qed

section \<open>Transactions\<close>

text \<open>
  The state inside a transaction of one process: \<open>L\<close> are the blocks it has locked, \<open>D\<close> those of them it
  has changed and not yet logged. Exactly the logged blocks are pinned, and every other block is in the
  cache as on disk.
\<close>

definition log_area :: "'z log_state_scheme \<Rightarrow> nat set" where
  "log_area s = {unat (lg_start s)..unat (lg_start s) + (LOGSIZE - 1)}"

definition home_block :: "'z log_state_scheme \<Rightarrow> uint32 \<Rightarrow> bool" where
  "home_block s b \<longleftrightarrow> unat b < dsize s \<and> unat b \<notin> log_area s"

definition logged :: "'z log_state_scheme \<Rightarrow> uint32 \<Rightarrow> bool" where
  "logged s b \<longleftrightarrow> unat b \<in> set (home_list s)"

definition txn :: "nat \<Rightarrow> uint32 set \<Rightarrow> uint32 set \<Rightarrow> 'z log_state_scheme \<Rightarrow> bool" where
  "txn p L D s \<longleftrightarrow> log_place p s \<and> lg_n s = int (length (home_list s)) \<and> distinct (home_list s) \<and>
     length (home_list s) \<le> LOGSIZE - 1 \<and> lg_size s = int LOGSIZE \<and> finite L \<and>
     (\<forall>b. logged s b \<or> b \<in> L \<longrightarrow> home_block s b) \<and>
     (\<forall>b. refs s b = (if logged s b then 1 else 0) + (if b \<in> L then 1 else 0)) \<and>
     (\<forall>b. bowner s b = (if b \<in> L then Some (p_pid (procs s p)) else None)) \<and>
     (\<forall>b. unat b < 2 ^ 31 \<and> \<not> logged s b \<and> b \<notin> D \<longrightarrow> bval s b = disk s (unat b))"

lemma logged_iff: "logged s b \<longleftrightarrow> (\<exists>j < nat (lg_n s). lg_block s j = b)"
  by (simp add: logged_def mem_home_list)

lemma log_area_frame: "log_frame s t \<Longrightarrow> log_area t = log_area s"
  by (simp add: log_area_def log_frame_simps)

lemma home_block_frame: "log_frame s t \<Longrightarrow> home_block t = home_block s"
  by (simp add: home_block_def log_area_frame log_frame_simps fun_eq_iff)

lemma log_place_log_frame: "log_place p s \<Longrightarrow> idle p t \<Longrightarrow> log_frame s t \<Longrightarrow> log_place p t"
  by (simp add: log_place_def log_frame_simps)

lemma bio_frame_home_list: "bio_frame s t \<Longrightarrow> home_list t = home_list s"
  by (simp add: home_list_def bio_frame_log)

lemma logged_frame: "home_list t = home_list s \<Longrightarrow> logged t = logged s"
  by (simp add: logged_def fun_eq_iff)

lemma txnD:
  assumes "txn p L D s"
  shows "idle p s" "log_place p s" "lg_n s = int (length (home_list s))" "distinct (home_list s)"
    "length (home_list s) \<le> LOGSIZE - 1" "lg_size s = int LOGSIZE" "finite L"
    "logged s b \<or> b \<in> L \<Longrightarrow> home_block s b"
    "refs s b = (if logged s b then 1 else 0) + (if b \<in> L then 1 else 0)"
    "bowner s b = (if b \<in> L then Some (p_pid (procs s p)) else None)"
    "unat b < 2 ^ 31 \<Longrightarrow> \<not> logged s b \<Longrightarrow> b \<notin> D \<Longrightarrow> bval s b = disk s (unat b)"
    "lg_dev s = ROOTDEV" "dsize s \<le> 2 ^ 31"
  using assms by (auto simp: txn_def log_place_def)

text \<open>A locked or logged block occupies a buffer; there are 30.\<close>

lemma home_block_31: "txn p L D s \<Longrightarrow> home_block s b \<Longrightarrow> unat b < 2 ^ 31"
  using txnD(13) by (fastforce simp: home_block_def)

definition in_use :: "uint32 set \<Rightarrow> 'z log_state_scheme \<Rightarrow> nat" where
  "in_use L s = card {b. logged s b \<or> b \<in> L}"

lemma txn_in_use: "txn p L D s \<Longrightarrow> {b. refs s b > 0} = {b. logged s b \<or> b \<in> L}"
  by (auto simp: txnD(9))

lemma finite_logged: "finite {b. logged s b}"
proof -
  have "unat ` {b. logged s b} \<subseteq> set (home_list s)" by (auto simp: logged_def)
  then show ?thesis by (rule finite_imageD [OF finite_subset]) (auto intro: inj_onI simp: word_unat_eq_iff)
qed

lemma card_logged: "card {b. logged s b} \<le> length (home_list s)"
proof -
  have "card {b. logged s b} = card (unat ` {b. logged s b})"
    by (rule card_image [symmetric]) (auto intro: inj_onI simp: word_unat_eq_iff)
  also have "\<dots> \<le> card (set (home_list s))" by (rule card_mono) (auto simp: logged_def)
  also have "\<dots> \<le> length (home_list s)" by (rule card_length)
  finally show ?thesis .
qed

lemma in_use_le: "finite L \<Longrightarrow> in_use L s \<le> length (home_list s) + card L"
proof -
  have "{b. logged s b \<or> b \<in> L} = {b. logged s b} \<union> L" by auto
  then have "in_use L s \<le> card {b. logged s b} + card L" by (simp add: in_use_def card_Un_le)
  then show ?thesis using card_logged [of s] by simp
qed

lemma txn_bread:
  assumes txn: "txn p L D s" and b: "home_block s b" "b \<notin> L"
    and room: "length (home_list s) + card L < NBUF"
  obtains i t where "bread ROOTDEV b s = Ret i t" "txn p (insert b L) D t" "slot t b = Some i" "b_data (bufs t i) = bval s b"
    "bval t = bval s" "home_list t = home_list s" "bio_frame s t" "\<forall>c \<in> L. slot t c = slot s c" "dwrites t = dwrites s"
proof -
  note d = txnD [OF txn]
  have b31: "unat b < 2 ^ 31" using home_block_31 [OF txn b(1)] .
  have "card {c. refs s c > 0} < NBUF" using in_use_le [OF d(7), of s] room txn_in_use [OF txn] by (simp add: in_use_def)
  moreover have "disk_block b < dsize s" using b(1) b31 by (simp add: home_block_def disk_block_id)
  ultimately have "bready s b" using b31 b(2) d(9,10) by (simp add: bready_def)
  then obtain i t where t: "bread ROOTDEV b s = Ret i t" "idle p t" "bio_frame s t" "slot t b = Some i"
    "b_data (bufs t i) = bval s b" "bval t = bval s" "dwrites t = dwrites s"
    "refs t = (refs s)(b := refs s b + 1)" "bowner t = (bowner s)(b := Some (p_pid (procs s p)))"
    "\<forall>c j. slot s c = Some j \<and> refs s c > 0 \<longrightarrow> slot t c = Some j"
    by (rule bread_ok [OF d(1)])
  note f = bio_frame_lg [OF t(3)] and h = bio_frame_home_list [OF t(3)]
  note lf = logged_frame [OF h] and dk = bio_frame_disk [OF t(3), of "[]"] and hb = home_block_frame [OF f]
  have "txn p (insert b L) D t"
    using d(3-11) b t(6-9) dk log_place_log_frame [OF d(2) t(2) f] bio_frame_log [OF t(3)] log_frame_simps(3) [OF f]
    unfolding txn_def lf hb h by auto
  moreover have "slot t c = slot s c" if "c \<in> L" for c
  proof -
    have "refs s c > 0" using d(9) that by simp
    then show ?thesis using t(10) refs_def by (metis not_None_eq option.case_eq_if less_irrefl)
  qed
  ultimately show thesis using t h by (intro that [of i t]) auto
qed

lemma txn_set:
  assumes txn: "txn p L D s" and b: "b \<in> L" "slot s b = Some i" and v: "length v = BSIZE"
  defines "t \<equiv> upd_buf i (\<lambda>x. x\<lparr>b_data := v\<rparr>) s"
  shows "txn p L (insert b D) t" "bval t = (bval s)(b := v)" "slot t = slot s" "home_list t = home_list s" "bio_frame s t"
    "dwrites t = dwrites s"
proof -
  note d = txnD [OF txn]
  have "refs s b > 0" using d(9) b(1) by simp
  note u = set_data_ok [OF d(1) b(2) this v, folded t_def]
  note f = bio_frame_lg [OF u(2)] and h = bio_frame_home_list [OF u(2)]
  note lf = logged_frame [OF h] and dk = bio_frame_disk [OF u(2), of "[]"] and hb = home_block_frame [OF f]
  show "txn p L (insert b D) t"
    using d(3-11) u(4-7) dk log_place_log_frame [OF d(2) u(1) f] bio_frame_log [OF u(2)] log_frame_simps(3) [OF f]
    unfolding txn_def lf hb h by auto
  show "bval t = (bval s)(b := v)" "slot t = slot s" "home_list t = home_list s" "bio_frame s t" "dwrites t = dwrites s"
    using u h by simp_all
qed

lemma txn_log_write:
  assumes txn: "txn p L D s" and b: "b \<in> L" "slot s b = Some i"
    and n: "length (home_list s) < LOGSIZE - 1" and out: "lg_outstanding s \<ge> 1"
  obtains t where "log_write i s = Ret () t" "txn p L (D - {b}) t" "slot t = slot s" "bval t = bval s" "log_frame s t"
    "home_list t = (if logged s b then home_list s else home_list s @ [unat b])" "dwrites t = dwrites s"
proof -
  note d = txnD [OF txn]
  have r: "refs s b > 0" "refs s b + 1 < 2 ^ 32" using d(9) b(1) by simp_all
  have m: "0 \<le> lg_n s" "lg_n s < int LOGSIZE" "lg_n s < lg_size s - 1" using d(3,6) n by simp_all
  obtain t where t: "log_write i s = Ret () t" "idle p t" "log_frame s t" "slot t = slot s" "bval t = bval s"
    "dwrites t = dwrites s" "bowner t = bowner s"
    "home_list t = (if unat b \<in> set (home_list s) then home_list s else home_list s @ [unat b])"
    "refs t = (if unat b \<in> set (home_list s) then refs s else (refs s)(b := refs s b + 1))" "lg_n t = int (length (home_list t))"
    by (rule log_write_ok [OF d(1) b(2) r m out])
  have lg: "logged t c \<longleftrightarrow> logged s c \<or> c = b" for c
    using t(8) by (auto simp: logged_def word_unat_eq_iff)
  have dk: "disk t = disk s" using t(3,6) by (auto simp: log_frame_def bio_frame_def disk_def)
  have hl: "distinct (home_list t)" "length (home_list t) \<le> LOGSIZE - 1" using t(8) d(4) n by auto
  have rf: "refs t c = (if logged t c then 1 else 0) + (if c \<in> L then 1 else 0)" for c
    using t(9) d(9) b(1) lg by (auto simp: logged_def)
  have "txn p L (D - {b}) t"
    using d(6-8,10,11) b(1) rf hl t(5,7,10) dk lg log_place_log_frame [OF d(2) t(2,3)] log_frame_simps [OF t(3)] home_block_frame [OF t(3)]
    unfolding txn_def by auto
  then show thesis using t by (intro that [of t]) (auto simp: logged_def)
qed

lemma txn_brelse:
  assumes txn: "txn p L D s" and b: "b \<in> L" "b \<notin> D" "slot s b = Some i"
  obtains t where "brelse i s = Ret () t" "txn p (L - {b}) D t" "slot t = slot s" "bval t = bval s" "bio_frame s t"
    "home_list t = home_list s" "dwrites t = dwrites s"
proof -
  note d = txnD [OF txn]
  have "unat b < 2 ^ 31" using home_block_31 [OF txn] d(8) b(1) by blast
  then have "refs s b = 1 \<Longrightarrow> bval s b = disk s (disk_block b)"
    using d(9,11) b(1,2) by (auto simp: disk_block_id split: if_splits)
  moreover have "bowner s b = Some (p_pid (procs s p))" using d(10) b(1) by simp
  ultimately obtain t where t: "brelse i s = Ret () t" "idle p t" "bio_frame s t" "slot t = slot s" "bval t = bval s"
    "dwrites t = dwrites s" "refs t = (refs s)(b := refs s b - 1)" "bowner t = (bowner s)(b := None)"
    using brelse_ok [OF d(1) b(3)] by metis
  note f = bio_frame_lg [OF t(3)] and h = bio_frame_home_list [OF t(3)]
  note lf = logged_frame [OF h] and dk = bio_frame_disk [OF t(3), of "[]"] and hb = home_block_frame [OF f]
  have "txn p (L - {b}) D t"
    using d(3-11) b t(5-8) dk log_place_log_frame [OF d(2) t(2) f] bio_frame_log [OF t(3)] log_frame_simps(3) [OF f]
    unfolding txn_def lf hb h by auto
  then show thesis using t h by (intro that [of t]) auto
qed

text \<open>A write of one block: \<^verbatim>\<open>bread\<close>, a change of the data, \<^verbatim>\<open>log_write\<close>, \<^verbatim>\<open>brelse\<close>.\<close>

definition log_update :: "uint32 \<Rightarrow> (block \<Rightarrow> block) \<Rightarrow> 'z log_state_scheme \<Rightarrow> ('z log_state_scheme, unit) res" where
  "log_update b f s =
     bnd (bread ROOTDEV b s) (\<lambda>i s.
     let s = upd_buf i (\<lambda>x. x\<lparr>b_data := f (b_data x)\<rparr>) s in
     bnd (log_write i s) (\<lambda>_ s. brelse i s))"

lemma upd_buf_data:
  "b_data (bufs s i) = v \<Longrightarrow> upd_buf i (\<lambda>x. x\<lparr>b_data := f (b_data x)\<rparr>) s = upd_buf i (\<lambda>x. x\<lparr>b_data := f v\<rparr>) s"
  by (simp add: upd_buf_def)

lemma log_update_ok:
  assumes txn: "txn p L D s" and b: "home_block s b" "b \<notin> L" "b \<notin> D"
    and room: "length (home_list s) + card L < LOGSIZE - 1" and out: "lg_outstanding s \<ge> 1"
    and len: "length (f (bval s b)) = BSIZE"
  obtains t where "log_update b f s = Ret () t" "txn p L D t" "bval t = (bval s)(b := f (bval s b))" "log_frame s t"
    "home_list t = (if logged s b then home_list s else home_list s @ [unat b])" "\<forall>c \<in> L. slot t c = slot s c"
    "dwrites t = dwrites s"
proof -
  have r: "length (home_list s) + card L < NBUF" using room by (simp add: LOGSIZE_def NBUF_def)
  obtain i s1 where 1: "bread ROOTDEV b s = Ret i s1" "txn p (insert b L) D s1" "slot s1 b = Some i" "b_data (bufs s1 i) = bval s b"
    "bval s1 = bval s" "home_list s1 = home_list s" "bio_frame s s1" "\<forall>c \<in> L. slot s1 c = slot s c" "dwrites s1 = dwrites s"
    by (rule txn_bread [OF txn b(1,2) r])
  let ?s2 = "upd_buf i (\<lambda>x. x\<lparr>b_data := f (bval s b)\<rparr>) s1"
  note 2 = txn_set [OF 1(2) insertI1 1(3) len]
  have o2: "lg_outstanding ?s2 \<ge> 1" using out bio_frame_log [OF 1(7)] bio_frame_log [OF 2(5)] by simp
  have "length (home_list ?s2) < LOGSIZE - 1" using room 1(6) 2(4) by simp
  moreover have sl: "slot ?s2 b = Some i" using 2(3) 1(3) by simp
  ultimately obtain s3 where 3: "log_write i ?s2 = Ret () s3" "txn p (insert b L) (insert b D - {b}) s3" "slot s3 = slot ?s2"
    "bval s3 = bval ?s2" "log_frame ?s2 s3" "home_list s3 = (if logged ?s2 b then home_list ?s2 else home_list ?s2 @ [unat b])"
    "dwrites s3 = dwrites ?s2"
    using txn_log_write [OF 2(1) insertI1] o2 by metis
  have D: "insert b D - {b} = D" using b(3) by auto
  have "slot s3 b = Some i" using sl 3(3) by simp
  then obtain t where 4: "brelse i s3 = Ret () t" "txn p (insert b L - {b}) D t" "slot t = slot s3" "bval t = bval s3"
    "bio_frame s3 t" "home_list t = home_list s3" "dwrites t = dwrites s3"
    using txn_brelse [OF 3(2) [unfolded D] insertI1 b(3)] by metis
  have L: "insert b L - {b} = L" using b(2) by auto
  have lg: "logged ?s2 b = logged s b" using 1(6) 2(4) by (simp add: logged_def)
  show thesis
  proof (rule that)
    show "log_update b f s = Ret () t"
      using 1(1) 3(1) 4(1) upd_buf_data [OF 1(4), of f] by (simp add: log_update_def Let_def)
    show "txn p L D t" using 4(2) L by simp
    show "log_frame s t"
      using bio_frame_lg [OF 1(7)] bio_frame_lg [OF 2(5)] 3(5) bio_frame_lg [OF 4(5)] log_frame_trans by blast
    show "bval t = (bval s)(b := f (bval s b))" "\<forall>c \<in> L. slot t c = slot s c" "dwrites t = dwrites s"
      "home_list t = (if logged s b then home_list s else home_list s @ [unat b])"
      using 4(3,4,6,7) 3(3,4,6,7) 2(2-4,6) 1(5,6,8,9) lg by auto
  qed
qed

lemma txn_pending:
  assumes "txn p {} {} s" "0 < lg_n s"
  shows "log_pending p s"
proof -
  note d = txnD [OF assms(1)]
  have "card {c. refs s c > 0} < NBUF"
    using in_use_le [of "{}" s] d(5) txn_in_use [OF assms(1)] by (simp add: in_use_def LOGSIZE_def NBUF_def MAXOPBLOCKS_def)
  moreover have "refs s (lg_start s + of_nat k) = 0" if "k < LOGSIZE" for k
  proof -
    have "unat (lg_start s + of_nat k) \<in> log_area s"
    proof (cases k)
      case (Suc j)
      then show ?thesis using unat_log_block [OF d(2), of j] that by (simp add: log_area_def add_ac)
    qed (simp add: log_area_def)
    then have "\<not> home_block s (lg_start s + of_nat k)" by (simp add: home_block_def)
    then show ?thesis using d(8,9) by auto
  qed
  moreover have "unat (lg_block s k) < dsize s \<and> refs s (lg_block s k) = 1 \<and> bowner s (lg_block s k) = None" if "k < nat (lg_n s)" for k
  proof -
    have "logged s (lg_block s k)" using that by (auto simp: logged_iff)
    then show ?thesis using d(8-10) by (simp add: home_block_def)
  qed
  ultimately show ?thesis using d(2,4,5) assms(2) d(3) by (simp add: log_pending_def)
qed

section \<open>A machine after boot\<close>

lemma binit_frame:
  assumes "binit s = Ret () t"
  shows "bio_frame s t \<and> dwrites t = dwrites s"
proof -
  have "foreach xs binit_one s = Ret () u \<Longrightarrow> bio_frame s u \<and> dwrites u = dwrites s" for xs and s u :: "'a bio_state_scheme"
  proof (induction xs arbitrary: s)
    case (Cons x xs)
    then obtain v where v: "binit_one x s = Ret () v" "foreach xs binit_one v = Ret () u"
      by (auto simp: res_simps)
    then have "bio_frame s v \<and> dwrites v = dwrites s"
      by (auto simp: binit_one_def initsleeplock_def upd_slock_def Let_def bio_frame_def)
    with Cons.IH [OF v(2)] show ?case using bio_frame_trans by auto
  qed auto
  from this [of "[0..<NBUF]"] assms show ?thesis by (fastforce simp: binit_def Let_def bio_frame_def)
qed

lemma binit_fresh:
  assumes "\<And>i. i < NBUF \<Longrightarrow> \<not> b_valid (bufs s i) \<and> \<not> b_disk (bufs s i) \<and> b_dev (bufs s i) = 0 \<and> b_refcnt (bufs s i) = 0"
    "held s = {}" "curproc s = Some p" "\<And>n. length (disk s n) = BSIZE"
  obtains t where "binit s = Ret () t" "idle p t" "bio_frame s t" "disk t = disk s"
    "\<And>c. refs t c = 0" "\<And>c. bowner t c = None" "\<And>c. bval t c = disk t (disk_block c)"
proof -
  obtain t where t: "binit s = Ret () t" "dll t (rev [0..<NBUF])" "bufs t = bufs s"
    "\<forall>i < NBUF. \<not> sl_locked (slocks t (SL_buf i))"
    using binit_dll by blast
  note f = binit_frame [OF t(1)]
  have d: "disk t = disk s" using f by (simp add: bio_frame_def disk_def)
  have "bc_inv t" "refs t b = 0" "bowner t b = None" "bval t b = disk t (disk_block b)" for b
    using bc_inv_empty [OF t(2)] assms(1,4) t(3,4) d by simp_all
  then show thesis
    using t(1) f d assms(2,3) by (intro that [of t]) (auto simp: idle_def bio_frame_def)
qed

text \<open>A kernel that has just started on an empty disk of 2000 blocks, its log of 30 blocks at block 2, one operation begun.\<close>

definition log_start0 :: log_state where
  "log_start0 = \<lparr>held = {}, procs = (\<lambda>_. zero_proc\<lparr>p_state := RUNNING, p_pid := 1\<rparr>), curproc = Some 0, consout = '''',
     mem = (\<lambda>_. 0), freelist = 0, kend = 0x80022000,
     slocks = (\<lambda>_. \<lparr>sl_locked = False, sl_name = '''', sl_pid = 0\<rparr>),
     bufs = (\<lambda>_. \<lparr>b_valid = False, b_disk = False, b_dev = 0, b_blockno = 0, b_refcnt = 0, b_data = replicate BSIZE 0\<rparr>),
     bprev = (\<lambda>_. Head), bnext = (\<lambda>_. Head), dinit = (\<lambda>_. replicate BSIZE 0), dsize = 2000, dwrites = [],
     lg_start = 2, lg_size = 30, lg_outstanding = 1, lg_committing = False, lg_dev = 1, lg_n = 0, lg_block = (\<lambda>_. 0)\<rparr>"

lemma log_start0_txn:
  obtains t where "binit log_start0 = Ret () t" "txn 0 {} {} t" "bio_frame log_start0 t" "home_list t = []"
    "disk t = (\<lambda>_. replicate BSIZE 0)"
proof -
  have dk: "disk log_start0 = (\<lambda>_. replicate BSIZE 0)" by (simp add: log_start0_def disk_def)
  obtain t where t: "binit log_start0 = Ret () t" "idle 0 t" "bio_frame log_start0 t" "disk t = disk log_start0"
    "\<And>c. refs t c = 0" "\<And>c. bowner t c = None" "\<And>c. bval t c = disk t (disk_block c)"
    by (rule binit_fresh [of log_start0 0]) (simp_all add: dk, simp_all add: log_start0_def)
  have g: "lg_n t = 0" "lg_start t = 2" "lg_size t = 30" "lg_dev t = 1" "dsize t = 2000"
    using bio_frame_log [OF t(3)] bio_frame_dsize [OF t(3)] by (simp_all add: log_start0_def)
  have h: "home_list t = []" using g by (simp add: home_list_def)
  have "txn 0 {} {} t"
    using t(2,4-7) g h dk by (simp add: txn_def log_place_def logged_def ROOTDEV_def LOGSIZE_def MAXOPBLOCKS_def)
  then show thesis using t h dk by (intro that [of t]) auto
qed

lemma log_start0_write:
  obtains t :: log_state where "txn 0 {} {} t" "lg_outstanding t = 1" "\<not> lg_committing t" "lg_n t = 1" "lg_block t 0 = 100"
    "dec_head (disk t (unat (lg_start t))) = []" "bval t 100 = replicate BSIZE 7" "disk t = (\<lambda>_. replicate BSIZE 0)" "lg_start t = 2" "dsize t = 2000"
proof -
  obtain s where s: "txn 0 {} {} s" "bio_frame log_start0 s" "home_list s = []" "disk s = (\<lambda>_. replicate BSIZE 0)"
    by (rule log_start0_txn)
  have g: "lg_n s = 0" "lg_start s = 2" "lg_outstanding s = 1" "dsize s = 2000" "\<not> lg_committing s"
    using bio_frame_log [OF s(2)] bio_frame_dsize [OF s(2)] by (simp_all add: log_start0_def)
  have "home_block s 100" using g by (simp add: home_block_def log_area_def LOGSIZE_def MAXOPBLOCKS_def)
  moreover have "length (home_list s) + card ({} :: uint32 set) < LOGSIZE - 1" using s(3) by (simp add: LOGSIZE_def MAXOPBLOCKS_def)
  ultimately obtain t where t: "txn 0 {} {} t" "bval t = (bval s)(100 := replicate BSIZE 7)" "log_frame s t"
    "home_list t = (if logged s 100 then home_list s else home_list s @ [unat (100 :: uint32)])" "dwrites t = dwrites s"
    using log_update_ok [OF s(1), of 100 "\<lambda>_. replicate BSIZE 7"] g(3) by auto
  have n: "home_list t = [100]" using t(4) s(3) by (simp add: logged_def)
  then have l: "lg_n t = 1" using txnD(3) [OF t(1)] by simp
  with n have "unat (lg_block t 0) = 100" by (simp add: home_list_def upt_rec)
  then have b: "lg_block t 0 = 100" by (simp add: word_unat_eq_iff)
  have dk: "disk t = disk s" using t(3,5) by (auto simp: log_frame_def bio_frame_def disk_def)
  have "dec_head (replicate BSIZE 0) = []" by (simp add: dec_head_def BSIZE_def rd32_def slice_def take_replicate numeral_eq_Suc)
  then show thesis using t(1,2) l b dk s(4) g log_frame_simps [OF t(3)] by (intro that [of t]) auto
qed

section \<open>What the log guarantees\<close>

text \<open>C1. Transactions are atomic. When the last operation of a transaction ends, \<^verbatim>\<open>end_op\<close> returns with
  every logged block at its home location and the log empty. Cut its disk writes off anywhere, start the
  machine again, lose power during recovery any number of times: \<^verbatim>\<open>recover_from_log\<close> always returns, and the
  disk outside the log is then the disk before the transaction, or the disk with all of its blocks.\<close>

theorem transaction_atomic:
  assumes "txn p {} {} s" "0 < lg_n s" "lg_outstanding s = 1" "\<not> lg_committing s"
    and "dec_head (disk s (unat (lg_start s))) = []"
  shows "\<exists>t. end_op s = Ret () t \<and> lg_n t = 0 \<and> lg_outstanding t = 0 \<and> \<not> lg_committing t \<and>
    (\<forall>k < nat (lg_n s). disk t (unat (lg_block s k)) = bval s (lg_block s k)) \<and>
    (\<forall>j. let d = apply_writes (take j (writes_of s t)) (disk s) in
      (\<forall>r. booted (lg_start s) (dsize s) d r \<longrightarrow> (\<exists>r'. recover_from_log r = Ret () r')) \<and>
      (\<forall>d'. boots (lg_start s) (dsize s) d d' \<longrightarrow>
        (\<forall>b. b \<notin> log_area s \<longrightarrow> d' b = disk s b) \<or>
        (\<forall>b. b \<notin> log_area s \<longrightarrow> d' b = (if b \<in> set (home_list s) then bval s (of_nat b) else disk s b))))"
proof -
  have pend: "log_pending p s" using txn_pending [OF assms(1,2)] .
  obtain t where t: "end_op s = Ret () t" "idle p t" "lg_n t = 0" "lg_outstanding t = 0" "\<not> lg_committing t"
    "writes_of s t = commit_writes enc_head (unat (lg_start s)) (home_list s) (new_values s) (disk s (unat (lg_start s)))"
    "disk t = apply_writes (writes_of s t) (disk s)"
    by (rule end_op_last [OF pend assms(3,4)])
  have hl: "distinct (home_list s)" "length (new_values s) = length (home_list s)" "unat (lg_start s) \<notin> set (home_list s)"
    using pend home_outside_log [OF pend] by (auto simp: log_pending_def home_list_def new_values_def)
  have inst: "disk t (unat (lg_block s k)) = bval s (lg_block s k)" if "k < nat (lg_n s)" for k
    using commit_installs [OF hl, of k] that t(6,7) by (simp add: home_list_def new_values_def)
  have new: "apply_writes (zip (home_list s) (new_values s)) (disk s) b = (if b \<in> set (home_list s) then bval s (of_nat b) else disk s b)" for b
    using apply_zip [OF hl(1,2)] by (auto simp: in_set_conv_nth) (auto simp: home_list_def new_values_def)
  have "\<exists>r'. recover_from_log r = Ret () r'" if "booted (lg_start s) (dsize s) (apply_writes (take j (writes_of s t)) (disk s)) r" for j r
    using booted_recovers [OF that] commit_crash(1) [OF pend assms(5)] unfolding t(6) by blast
  moreover note commit_crash(2) [OF pend assms(5), folded t(6) log_area_def, unfolded new]
  ultimately show ?thesis using t(1,3-5) inst unfolding Let_def by blast
qed

lemma booted_exists:
  assumes "\<And>n. length (d n) = BSIZE"
  shows "\<exists>r. booted 2 2000 d r"
proof -
  let ?s = "log_start0\<lparr>dinit := d\<rparr>"
  have dk: "disk ?s = d" by (simp add: log_start0_def disk_def)
  obtain t where t: "idle 0 t" "bio_frame ?s t" "disk t = disk ?s" "\<And>c. refs t c = 0"
    by (rule binit_fresh [of ?s 0]) (simp_all add: dk assms, simp_all add: log_start0_def)
  have "lg_start t = 2" "lg_dev t = 1" "dsize t = 2000"
    using bio_frame_log [OF t(2)] bio_frame_dsize [OF t(2)] by (simp_all add: log_start0_def)
  then show ?thesis
    using t dk by (auto simp: booted_def log_place_def ROOTDEV_def LOGSIZE_def MAXOPBLOCKS_def intro!: exI [of _ t])
qed

theorem transaction_atomic_witness:
  "\<exists>s t :: log_state. txn 0 {} {} s \<and> lg_n s = 1 \<and> lg_block s 0 = 100 \<and> bval s 100 = replicate BSIZE 7 \<and>
     end_op s = Ret () t \<and> disk t 100 = replicate BSIZE 7 \<and> lg_n t = 0 \<and>
     (\<exists>d'. boots 2 2000 (disk s) d' \<and> d' 100 = replicate BSIZE 0)"
proof -
  obtain s :: log_state where s: "txn 0 {} {} s" "lg_outstanding s = 1" "\<not> lg_committing s" "lg_n s = 1" "lg_block s 0 = 100"
    "dec_head (disk s (unat (lg_start s))) = []" "bval s 100 = replicate BSIZE 7" "disk s = (\<lambda>_. replicate BSIZE 0)"
    "lg_start s = 2" "dsize s = 2000"
    by (rule log_start0_write)
  have n: "0 < lg_n s" using s(4) by simp
  obtain t where t: "end_op s = Ret () t" "lg_n t = 0" "\<forall>k < nat (lg_n s). disk t (unat (lg_block s k)) = bval s (lg_block s k)"
    and crash: "\<forall>j. let d = apply_writes (take j (writes_of s t)) (disk s) in
      (\<forall>r. booted (lg_start s) (dsize s) d r \<longrightarrow> (\<exists>r'. recover_from_log r = Ret () r')) \<and>
      (\<forall>d'. boots (lg_start s) (dsize s) d d' \<longrightarrow>
        (\<forall>b. b \<notin> log_area s \<longrightarrow> d' b = disk s b) \<or>
        (\<forall>b. b \<notin> log_area s \<longrightarrow> d' b = (if b \<in> set (home_list s) then bval s (of_nat b) else disk s b)))"
    using transaction_atomic [OF s(1) n s(2,3,6)] by blast
  obtain r where r: "booted 2 2000 (disk s) r" using booted_exists [of "disk s"] s(8) by auto
  have sound: "log_sound 2000 (unat (2 :: uint32)) (disk s)" using s(6,8,9) by (simp add: log_sound_def)
  obtain r' where r': "recover_from_log r = Ret () r'"
    "disk r' = apply_writes (recovery_writes enc_head dec_head (unat (2 :: uint32)) (disk s)) (disk s)"
    by (rule booted_recovers [OF r sound])
  have "disk r' 100 = replicate BSIZE 0"
    using r'(2) s(6,8,9) by (simp add: recovery_writes_def home_writes_def)
  then show ?thesis using s t boots.boot [OF r r'(1)] by (intro exI [of _ s] exI [of _ t]) auto
qed

text \<open>C13. \<^verbatim>\<open>log_write\<close> absorbs: writing a locked block twice in a transaction logs it once and pins it once.\<close>

theorem log_write_absorbs:
  assumes "txn p L D s" "b \<in> L" "slot s b = Some i" "length (home_list s) < LOGSIZE - 1 - 1" "lg_outstanding s \<ge> 1"
  shows "\<exists>t u. log_write i s = Ret () t \<and> log_write i t = Ret () u \<and>
    home_list t = (if logged s b then home_list s else home_list s @ [unat b]) \<and>
    home_list u = home_list t \<and> refs u = refs t \<and> refs t b = 2 \<and> bval u = bval s \<and> dwrites u = dwrites s"
proof -
  have n: "length (home_list s) < LOGSIZE - 1" using assms(4) by simp
  obtain t where t: "log_write i s = Ret () t" "txn p L (D - {b}) t" "slot t = slot s" "bval t = bval s" "log_frame s t"
    "home_list t = (if logged s b then home_list s else home_list s @ [unat b])" "dwrites t = dwrites s"
    by (rule txn_log_write [OF assms(1-3) n assms(5)])
  have lg: "logged t b" using t(6) by (auto simp: logged_def)
  have "slot t b = Some i" "length (home_list t) < LOGSIZE - 1" "lg_outstanding t \<ge> 1"
    using t(3,6) assms(3-5) log_frame_simps [OF t(5)] by auto
  then obtain u where u: "log_write i t = Ret () u" "txn p L (D - {b} - {b}) u" "bval u = bval t"
    "home_list u = (if logged t b then home_list t else home_list t @ [unat b])" "dwrites u = dwrites t"
    by (rule txn_log_write [OF t(2) assms(2)])
  have "home_list u = home_list t" using u(4) lg by simp
  moreover from this have "refs u = refs t" using txnD(9) [OF t(2)] txnD(9) [OF u(2)] by (simp add: fun_eq_iff logged_def)
  moreover have "refs t b = 2" using txnD(9) [OF t(2)] lg assms(2) by simp
  ultimately show ?thesis using t u by (intro exI [of _ t] exI [of _ u]) auto
qed

theorem log_write_absorbs_witness:
  "\<exists>s i t u :: log_state. slot s 100 = Some i \<and> log_write i s = Ret () t \<and> log_write i t = Ret () u \<and> home_list u = [100] \<and> refs u 100 = 2"
proof -
  obtain s where s: "txn 0 {} {} s" "bio_frame log_start0 s" "home_list s = []" by (rule log_start0_txn)
  have g: "lg_start s = 2" "lg_outstanding s = 1" "dsize s = 2000"
    using bio_frame_log [OF s(2)] bio_frame_dsize [OF s(2)] by (simp_all add: log_start0_def)
  have "home_block s 100" "100 \<notin> ({} :: uint32 set)" "length (home_list s) + card ({} :: uint32 set) < NBUF"
    using g s(3) by (simp_all add: home_block_def log_area_def LOGSIZE_def NBUF_def MAXOPBLOCKS_def)
  then obtain i v where v: "txn 0 {100} {} v" "slot v 100 = Some i" "home_list v = home_list s" "bio_frame s v"
    by (rule txn_bread [OF s(1)])
  have "length (home_list v) < LOGSIZE - 1 - 1" "lg_outstanding v \<ge> 1"
    using v(3) s(3) g bio_frame_log [OF v(4)] by (simp_all add: LOGSIZE_def MAXOPBLOCKS_def)
  from log_write_absorbs [OF v(1) _ v(2) this] s(3) v(2,3) show ?thesis by (fastforce simp: logged_def)
qed





end
