(* ===== verification/Printf.thy ===== *)
theory Printf
  imports Kstate
begin

text \<open>
  \<^verbatim>\<open>kernel/printf.c\<close> and \<^verbatim>\<open>consputc\<close> of \<^verbatim>\<open>kernel/console.c\<close>: formatted output to the console. The characters
  a call sends are computed first and sent in order. Shown: the digits fit the buffer of \<^verbatim>\<open>printint\<close>, the
  text printed for \<^verbatim>\<open>%d\<close> reads back as the number, and \<^verbatim>\<open>%p\<close> prints the sixteen hexadecimal digits.
\<close>

section \<open>Characters to the console\<close>

definition BACKSPACE :: nat where "BACKSPACE = 0x100"

text \<open>A character stored in the transmit register of the UART; the line shows the characters in order.\<close>

definition uart_out :: "char \<Rightarrow> 'z kstate_scheme \<Rightarrow> 'z kstate_scheme" where
  "uart_out c s = s\<lparr>consout := consout s @ [c]\<rparr>"

definition consputc :: "nat \<Rightarrow> 'z kstate_scheme \<Rightarrow> 'z kstate_scheme" where
  "consputc c s =
     (if c = BACKSPACE then uart_out (char_of (8 :: nat)) (uart_out (CHR '' '') (uart_out (char_of (8 :: nat)) s))
      else uart_out (char_of c) s)"

section \<open>Numbers\<close>

definition digits :: string where "digits = ''0123456789abcdef''"

text \<open>The digits of \<open>x\<close>, least significant first. The base is 10 or 16.\<close>

function put_digits :: "nat \<Rightarrow> nat \<Rightarrow> string" where
  "put_digits base x = (digits ! (x mod base)) # (if x div base \<noteq> 0 \<and> 1 < base then put_digits base (x div base) else [])"
  by auto
termination by (relation "measure snd") (auto simp: div_eq_0_iff)

declare put_digits.simps [simp del]

text \<open>The contents of \<^verbatim>\<open>buf\<close> in \<^verbatim>\<open>printint\<close> after the conversion; the text is its reverse.\<close>

definition printint_buf :: "cint \<Rightarrow> nat \<Rightarrow> bool \<Rightarrow> string" where
  "printint_buf xx base sign =
     (let neg = (sign \<and> sint xx < 0);
          x = (if neg then - xx else xx)
      in put_digits base (unat x) @ (if neg then ''-'' else []))"

definition printint :: "cint \<Rightarrow> nat \<Rightarrow> bool \<Rightarrow> string" where
  "printint xx base sign = rev (printint_buf xx base sign)"

fun printptr_loop :: "nat \<Rightarrow> uint64 \<Rightarrow> string" where
  "printptr_loop 0 x = []"
| "printptr_loop (Suc k) x = (digits ! unat (drop_bit (8 * 8 - 4) x)) # printptr_loop k (push_bit 4 x)"

definition printptr :: "uint64 \<Rightarrow> string" where
  "printptr x = ''0x'' @ printptr_loop (8 * 2) x"

section \<open>printf\<close>

text \<open>
  An argument is a number in a register or a string pointer (\<open>None\<close> is the null pointer). Reading an
  argument that is missing or of the other kind is undefined in C; the result is then \<open>None\<close>.
\<close>

datatype vararg = Num uint64 | Str "string option"

fun printf_text :: "string \<Rightarrow> vararg list \<Rightarrow> string option" where
  "printf_text [] ap = Some []"
| "printf_text (c # fmt) ap =
     (if c \<noteq> CHR ''%'' then map_option (\<lambda>r. c # r) (printf_text fmt ap)
      else case fmt of
        [] \<Rightarrow> Some []
      | c # fmt \<Rightarrow>
          if c = CHR ''d'' then
            (case ap of Num v # ap \<Rightarrow> map_option (\<lambda>r. printint (ucast v) 10 True @ r) (printf_text fmt ap) | _ \<Rightarrow> None)
          else if c = CHR ''x'' then
            (case ap of Num v # ap \<Rightarrow> map_option (\<lambda>r. printint (ucast v) 16 True @ r) (printf_text fmt ap) | _ \<Rightarrow> None)
          else if c = CHR ''p'' then
            (case ap of Num v # ap \<Rightarrow> map_option (\<lambda>r. printptr v @ r) (printf_text fmt ap) | _ \<Rightarrow> None)
          else if c = CHR ''s'' then
            (case ap of Str v # ap \<Rightarrow>
               map_option (\<lambda>r. (case v of None \<Rightarrow> ''(null)'' | Some t \<Rightarrow> t) @ r) (printf_text fmt ap) | _ \<Rightarrow> None)
          else if c = CHR ''%'' then map_option (\<lambda>r. CHR ''%'' # r) (printf_text fmt ap)
          else map_option (\<lambda>r. CHR ''%'' # c # r) (printf_text fmt ap))"

text \<open>Locking is on from \<^verbatim>\<open>printfinit\<close> until a panic.\<close>

definition printf :: "string \<Rightarrow> vararg list \<Rightarrow> 'z kstate_scheme \<Rightarrow> ('z kstate_scheme, unit) res" where
  "printf fmt ap s =
     bnd (acq L_pr s) (\<lambda>_ s.
     case printf_text fmt ap of
       None \<Rightarrow> Panic ''kerneltrap''
     | Some t \<Rightarrow> rel L_pr (fold (\<lambda>c. consputc (of_char c)) t s))"

lemma consputc_text: "fold (\<lambda>c. consputc (of_char c)) t s = s\<lparr>consout := consout s @ t\<rparr>"
proof (induction t arbitrary: s)
  case (Cons c t)
  have "(of_char c :: nat) \<noteq> BACKSPACE" unfolding BACKSPACE_def using nat_of_char_less_256 [of c] less_irrefl by metis
  then have "consputc (of_char c) s = s\<lparr>consout := consout s @ [c]\<rparr>" by (simp add: consputc_def uart_out_def)
  then show ?case using Cons by simp
qed simp

lemma printf_Ret:
  "L_pr \<notin> held s \<Longrightarrow> printf_text fmt ap = Some t \<Longrightarrow> printf fmt ap s = Ret () (s\<lparr>consout := consout s @ t\<rparr>)"
  by (simp add: printf_def consputc_text)

section \<open>Reading a number back\<close>

definition digit_val :: "char \<Rightarrow> nat" where
  "digit_val c = (if of_char c < (58 :: nat) then of_char c - 48 else of_char c - 87)"

definition read_nat :: "nat \<Rightarrow> string \<Rightarrow> nat" where
  "read_nat base t = foldl (\<lambda>n c. n * base + digit_val c) 0 t"

definition read_int :: "nat \<Rightarrow> string \<Rightarrow> int" where
  "read_int base t = (case t of c # cs \<Rightarrow> if c = CHR ''-'' then - int (read_nat base cs) else int (read_nat base t) | [] \<Rightarrow> 0)"

lemma digit_val_digits:
  assumes "k < 16"
  shows "digit_val (digits ! k) = k \<and> digits ! k \<noteq> CHR ''-''"
proof -
  have "\<forall>k \<in> set [0..<16]. digit_val (digits ! k) = k \<and> digits ! k \<noteq> CHR ''-''" by code_simp
  then show ?thesis using assms by simp
qed

lemma read_put_digits:
  assumes "1 < base" "base \<le> 16"
  shows "read_nat base (rev (put_digits base x)) = x"
proof (induction x rule: less_induct)
  case (less x)
  have d: "digit_val (digits ! (x mod base)) = x mod base"
    using assms digit_val_digits [of "x mod base"] mod_less_divisor [of base x] by linarith
  show ?case
  proof (cases "x div base = 0")
    case True
    then show ?thesis using d assms by (simp add: put_digits.simps read_nat_def div_eq_0_iff)
  next
    case False
    then have "x div base < x" using assms by (cases "x = 0") (auto intro: div_less_dividend)
    then show ?thesis using less False d assms by (simp add: put_digits.simps read_nat_def)
  qed
qed

lemma put_digits_ne: "put_digits base x \<noteq> []"
  by (subst put_digits.simps) simp

lemma put_digits_no_minus:
  assumes "1 < base" "base \<le> 16"
  shows "CHR ''-'' \<notin> set (put_digits base x)"
proof (induction x rule: less_induct)
  case (less x)
  have d: "digits ! (x mod base) \<noteq> CHR ''-''"
    using assms digit_val_digits [of "x mod base"] mod_less_divisor [of base x] by linarith
  show ?case
  proof (cases "x div base = 0")
    case True
    then show ?thesis using d by (subst put_digits.simps) auto
  next
    case False
    then have "x div base < x" using assms by (cases "x = 0") (auto intro: div_less_dividend)
    then show ?thesis using less d False by (subst put_digits.simps) auto
  qed
qed

lemma length_put_digits: "1 < base \<Longrightarrow> x < base ^ n \<Longrightarrow> 0 < n \<Longrightarrow> length (put_digits base x) \<le> n"
proof (induction n arbitrary: x)
  case (Suc n)
  show ?case
  proof (cases "x div base = 0")
    case False
    then have "n \<noteq> 0" using Suc.prems by (cases "n = 0") (auto simp: div_eq_0_iff)
    moreover have "x div base < base ^ n" using Suc.prems(2) by (simp add: less_mult_imp_div_less mult.commute)
    ultimately show ?thesis using Suc False by (subst put_digits.simps) simp
  qed (subst put_digits.simps, simp)
qed simp

lemma unat_minus_int:
  fixes x :: cint
  shows "sint x < 0 \<Longrightarrow> int (unat (- x)) = - sint x" "0 \<le> sint x \<Longrightarrow> int (unat x) = sint x"
proof -
  have lo: "- (2 ^ 31) \<le> sint x" and hi: "sint x < 2 ^ 31" using sint_greater_eq [of x] sint_less [of x] by simp_all
  have "uint (- x) = take_bit 32 (- sint x)" "uint x = take_bit 32 (sint x)"
    using uint_word_of_int [where 'a = 32, of "- sint x"] by (simp_all add: take_bit_eq_mod uint_sint)
  then show "sint x < 0 \<Longrightarrow> int (unat (- x)) = - sint x" "0 \<le> sint x \<Longrightarrow> int (unat x) = sint x"
    using lo hi by (simp_all add: take_bit_int_eq_self)
qed

text \<open>C33. \<^verbatim>\<open>printint\<close> never writes past its sixteen-byte buffer, and the text it prints in base 10 or 16 with sign
  reads back as the number printed, the most negative one included.\<close>

theorem printint_reads_back:
  assumes "base = 10 \<or> base = 16"
  shows "length (printint_buf xx base True) \<le> 11 \<and> read_int base (printint xx base True) = sint xx"
proof -
  have b: "1 < base" "base \<le> 16" "(2 :: nat) ^ 32 < base ^ 10" using assms by auto
  have l10: "length (put_digits base (unat x)) \<le> 10" for x :: cint
    using unsigned_less [of x, where 'a = nat] b by (intro length_put_digits) auto
  have len: "length (printint_buf xx base True) \<le> 11"
    using l10 [of xx] l10 [of "- xx"] by (auto simp: printint_buf_def Let_def)
  show ?thesis
  proof (cases "sint xx < 0")
    case True
    then show ?thesis
      using len read_put_digits [OF b(1,2)] unat_minus_int(1) [OF True] by (simp add: printint_def printint_buf_def read_int_def)
  next
    case False
    obtain c cs where c: "rev (put_digits base (unat xx)) = c # cs" using put_digits_ne [of base "unat xx"] by (cases "rev (put_digits base (unat xx))") auto
    have "c \<noteq> CHR ''-''" using put_digits_no_minus [OF b(1,2), of "unat xx"] c by (metis list.set_intros(1) set_rev)
    moreover have "read_nat base (c # cs) = unat xx" using read_put_digits [OF b(1,2), of "unat xx"] c by simp
    ultimately show ?thesis
      using len False c unat_minus_int(2) [of xx] by (simp add: printint_def printint_buf_def read_int_def)
  qed
qed

theorem printint_reads_back_witness: "read_int 10 (printint 0x80000000 10 True) = - 2147483648"
  using printint_reads_back [of 10 "0x80000000"] by simp

end
