(* ===== verification/Vm.thy ===== *)
theory Vm
  imports Kalloc Printf
begin

text \<open>
  \<^verbatim>\<open>kernel/vm.c\<close> and the page-table macros of \<^verbatim>\<open>kernel/riscv.h\<close>. A page table is a tree of pages in physical
  memory, read and written 64 bits at a time. Loops over virtual pages run over the list of the page
  addresses they visit; a loop whose bound exceeds the highest virtual address panics in \<^verbatim>\<open>walk\<close> before
  its counter could wrap around. Source and destination buffers that are kernel variables are byte
  lists.
\<close>

section \<open>Page table entries\<close>

definition PTE_V :: uint64 where "PTE_V = push_bit 0 1"
definition PTE_R :: uint64 where "PTE_R = push_bit 1 1"
definition PTE_W :: uint64 where "PTE_W = push_bit 2 1"
definition PTE_X :: uint64 where "PTE_X = push_bit 3 1"
definition PTE_U :: uint64 where "PTE_U = push_bit 4 1"

definition PA2PTE :: "uint64 \<Rightarrow> uint64" where "PA2PTE pa = push_bit 10 (drop_bit 12 pa)"
definition PTE2PA :: "uint64 \<Rightarrow> uint64" where "PTE2PA pte = push_bit 12 (drop_bit 10 pte)"
definition PTE_FLAGS :: "uint64 \<Rightarrow> uint64" where "PTE_FLAGS pte = pte AND 0x3FF"

definition PXSHIFT :: "nat \<Rightarrow> nat" where "PXSHIFT level = 12 + 9 * level"
definition PX :: "nat \<Rightarrow> uint64 \<Rightarrow> uint64" where "PX level va = drop_bit (PXSHIFT level) va AND 0x1FF"
definition MAXVA :: uint64 where "MAXVA = push_bit (9 + 9 + 9 + 12 - 1) 1"

definition TRAMPOLINE :: uint64 where "TRAMPOLINE = MAXVA - 4096"
definition TRAPFRAME :: uint64 where "TRAPFRAME = TRAMPOLINE - 4096"
definition KSTACK :: "nat \<Rightarrow> uint64" where "KSTACK p = TRAMPOLINE - (of_nat p + 1) * 2 * 4096"

section \<open>walk\<close>

definition put_mem :: "memory \<Rightarrow> 'z kmem_state_scheme \<Rightarrow> 'z kmem_state_scheme" where
  "put_mem m s = s\<lparr>mem := m\<rparr>"

fun walk_loop :: "nat \<Rightarrow> uint64 \<Rightarrow> uint64 \<Rightarrow> bool \<Rightarrow> 'z kmem_state_scheme \<Rightarrow> ('z kmem_state_scheme, uint64) res" where
  "walk_loop 0 pagetable va alloc s = Ret (pagetable + 8 * PX 0 va) s"
| "walk_loop (Suc l) pagetable va alloc s =
     (let pte = pagetable + 8 * PX (Suc l) va in
      if ld64 (mem s) pte AND PTE_V \<noteq> 0 then walk_loop l (PTE2PA (ld64 (mem s) pte)) va alloc s
      else if \<not> alloc then Ret 0 s
      else bnd (kalloc s) (\<lambda>pagetable s.
        if pagetable = 0 then Ret 0 s
        else let s = put_mem (memset pagetable 0 PGSIZE (mem s)) s;
                 s = put_mem (st64 (mem s) pte (PA2PTE pagetable OR PTE_V)) s
             in walk_loop l pagetable va alloc s))"

definition walk :: "uint64 \<Rightarrow> uint64 \<Rightarrow> bool \<Rightarrow> 'z kmem_state_scheme \<Rightarrow> ('z kmem_state_scheme, uint64) res" where
  "walk pagetable va alloc s = (if va \<ge> MAXVA then Panic ''walk'' else walk_loop 2 pagetable va alloc s)"

definition walkaddr :: "uint64 \<Rightarrow> uint64 \<Rightarrow> 'z kmem_state_scheme \<Rightarrow> ('z kmem_state_scheme, uint64) res" where
  "walkaddr pagetable va s =
     (if va \<ge> MAXVA then Ret 0 s
      else bnd (walk pagetable va False s) (\<lambda>pte s.
        if pte = 0 then Ret 0 s
        else if ld64 (mem s) pte AND PTE_V = 0 then Ret 0 s
        else if ld64 (mem s) pte AND PTE_U = 0 then Ret 0 s
        else Ret (PTE2PA (ld64 (mem s) pte)) s))"

section \<open>mappages and uvmunmap\<close>

fun mappages_loop ::
  "uint64 \<Rightarrow> uint64 list \<Rightarrow> uint64 \<Rightarrow> uint64 \<Rightarrow> 'z kmem_state_scheme \<Rightarrow> ('z kmem_state_scheme, cint) res" where
  "mappages_loop pagetable [] pa perm s = Ret 0 s"
| "mappages_loop pagetable (a # as) pa perm s =
     bnd (walk pagetable a True s) (\<lambda>pte s.
     if pte = 0 then Ret (-1) s
     else if ld64 (mem s) pte AND PTE_V \<noteq> 0 then Panic ''mappages: remap''
     else mappages_loop pagetable as (pa + 4096) perm (put_mem (st64 (mem s) pte (PA2PTE pa OR perm OR PTE_V)) s))"

text \<open>The pages from \<open>a\<close> to \<open>lst\<close>, both included: the loop stops on reaching \<open>lst\<close>, past a wrap-around if need be.\<close>

definition pages_to :: "uint64 \<Rightarrow> uint64 \<Rightarrow> uint64 list" where
  "pages_to a lst = map (\<lambda>k. a + of_nat k * 4096) [0..<Suc (unat (lst - a) div PGSIZE)]"

definition mappages ::
  "uint64 \<Rightarrow> uint64 \<Rightarrow> uint64 \<Rightarrow> uint64 \<Rightarrow> uint64 \<Rightarrow> 'z kmem_state_scheme \<Rightarrow> ('z kmem_state_scheme, cint) res" where
  "mappages pagetable va sz pa perm s =
     (if sz = 0 then Panic ''mappages: size''
      else mappages_loop pagetable (pages_to (PGROUNDDOWN va) (PGROUNDDOWN (va + sz - 1))) pa perm s)"

definition kvmmap ::
  "uint64 \<Rightarrow> uint64 \<Rightarrow> uint64 \<Rightarrow> uint64 \<Rightarrow> uint64 \<Rightarrow> 'z kmem_state_scheme \<Rightarrow> ('z kmem_state_scheme, unit) res" where
  "kvmmap kpgtbl va pa sz perm s =
     bnd (mappages kpgtbl va sz pa perm s) (\<lambda>r s. if r \<noteq> 0 then Panic ''kvmmap'' else Ret () s)"

text \<open>The pages a loop \<^verbatim>\<open>for(a = lo; a < hi; a += PGSIZE)\<close> visits.\<close>

definition pages_below :: "uint64 \<Rightarrow> uint64 \<Rightarrow> uint64 list" where
  "pages_below lo hi = map (\<lambda>k. lo + of_nat k * 4096) [0..<(unat hi - unat lo + (PGSIZE - 1)) div PGSIZE]"

definition uvmunmap_one :: "uint64 \<Rightarrow> bool \<Rightarrow> uint64 \<Rightarrow> 'z kmem_state_scheme \<Rightarrow> ('z kmem_state_scheme, unit) res" where
  "uvmunmap_one pagetable do_free a s =
     bnd (walk pagetable a False s) (\<lambda>pte s.
     if pte = 0 then Panic ''uvmunmap: walk''
     else if ld64 (mem s) pte AND PTE_V = 0 then Panic ''uvmunmap: not mapped''
     else if PTE_FLAGS (ld64 (mem s) pte) = PTE_V then Panic ''uvmunmap: not a leaf''
     else bnd (if do_free then kfree (PTE2PA (ld64 (mem s) pte)) s else Ret () s) (\<lambda>_ s.
       Ret () (put_mem (st64 (mem s) pte 0) s)))"

definition uvmunmap ::
  "uint64 \<Rightarrow> uint64 \<Rightarrow> uint64 \<Rightarrow> bool \<Rightarrow> 'z kmem_state_scheme \<Rightarrow> ('z kmem_state_scheme, unit) res" where
  "uvmunmap pagetable va npages do_free s =
     (if va mod 4096 \<noteq> 0 then Panic ''uvmunmap: not aligned''
      else foreach (pages_below va (va + npages * 4096)) (uvmunmap_one pagetable do_free) s)"

section \<open>User address spaces\<close>

definition uvmcreate :: "'z kmem_state_scheme \<Rightarrow> ('z kmem_state_scheme, uint64) res" where
  "uvmcreate s =
     bnd (kalloc s) (\<lambda>pagetable s.
     if pagetable = 0 then Ret 0 s
     else Ret pagetable (put_mem (memset pagetable 0 PGSIZE (mem s)) s))"

definition uvmfirst :: "uint64 \<Rightarrow> byte list \<Rightarrow> 'z kmem_state_scheme \<Rightarrow> ('z kmem_state_scheme, unit) res" where
  "uvmfirst pagetable src s =
     (if length src \<ge> PGSIZE then Panic ''uvmfirst: more than a page''
      else bnd (kalloc s) (\<lambda>pg s.
        let s = put_mem (memset pg 0 PGSIZE (mem s)) s in
        bnd (mappages pagetable 0 4096 pg (PTE_W OR PTE_R OR PTE_X OR PTE_U) s) (\<lambda>_ s.
        Ret () (put_mem (store_bytes (mem s) pg src) s))))"

definition uvmdealloc :: "uint64 \<Rightarrow> uint64 \<Rightarrow> uint64 \<Rightarrow> 'z kmem_state_scheme \<Rightarrow> ('z kmem_state_scheme, uint64) res" where
  "uvmdealloc pagetable oldsz newsz s =
     (if newsz \<ge> oldsz then Ret oldsz s
      else if PGROUNDUP newsz < PGROUNDUP oldsz then
        let npages = (ucast ((PGROUNDUP oldsz - PGROUNDUP newsz) div 4096) :: cint) in
        bnd (uvmunmap pagetable (PGROUNDUP newsz) (scast npages) True s) (\<lambda>_ s. Ret newsz s)
      else Ret newsz s)"

fun uvmalloc_loop ::
  "uint64 \<Rightarrow> uint64 \<Rightarrow> uint64 \<Rightarrow> uint64 \<Rightarrow> uint64 list \<Rightarrow> 'z kmem_state_scheme \<Rightarrow> ('z kmem_state_scheme, uint64) res" where
  "uvmalloc_loop pagetable oldsz newsz xperm [] s = Ret newsz s"
| "uvmalloc_loop pagetable oldsz newsz xperm (a # as) s =
     bnd (kalloc s) (\<lambda>pg s.
     if pg = 0 then bnd (uvmdealloc pagetable a oldsz s) (\<lambda>_ s. Ret 0 s)
     else let s = put_mem (memset pg 0 PGSIZE (mem s)) s in
       bnd (mappages pagetable a 4096 pg (PTE_R OR PTE_U OR xperm) s) (\<lambda>r s.
       if r \<noteq> 0 then
         bnd (kfree pg s) (\<lambda>_ s.
         bnd (uvmdealloc pagetable a oldsz s) (\<lambda>_ s. Ret 0 s))
       else uvmalloc_loop pagetable oldsz newsz xperm as s))"

definition uvmalloc ::
  "uint64 \<Rightarrow> uint64 \<Rightarrow> uint64 \<Rightarrow> uint64 \<Rightarrow> 'z kmem_state_scheme \<Rightarrow> ('z kmem_state_scheme, uint64) res" where
  "uvmalloc pagetable oldsz newsz xperm s =
     (if newsz < oldsz then Ret oldsz s
      else let oldsz = PGROUNDUP oldsz in
        uvmalloc_loop pagetable oldsz newsz xperm (pages_below oldsz newsz) s)"

text \<open>
  \<^verbatim>\<open>freewalk\<close> calls itself at most twice on a page table of three levels: the argument \<open>lv\<close> bounds the
  depth, and a deeper chain of page-table pages is stack overflow, a trap in the kernel.
\<close>

fun freewalk :: "nat \<Rightarrow> uint64 \<Rightarrow> 'z kmem_state_scheme \<Rightarrow> ('z kmem_state_scheme, unit) res" where
  "freewalk 0 pagetable s = Panic ''kerneltrap''"
| "freewalk (Suc lv) pagetable s =
     bnd (foreach [0..<512] (\<lambda>i s.
       let a = pagetable + 8 * of_nat i; pte = ld64 (mem s) a in
       if pte AND PTE_V \<noteq> 0 \<and> pte AND (PTE_R OR PTE_W OR PTE_X) = 0 then
         bnd (freewalk lv (PTE2PA pte) s) (\<lambda>_ s. Ret () (put_mem (st64 (mem s) a 0) s))
       else if pte AND PTE_V \<noteq> 0 then Panic ''freewalk: leaf''
       else Ret () s) s) (\<lambda>_ s.
     kfree pagetable s)"

definition uvmfree :: "uint64 \<Rightarrow> uint64 \<Rightarrow> 'z kmem_state_scheme \<Rightarrow> ('z kmem_state_scheme, unit) res" where
  "uvmfree pagetable sz s =
     bnd (if sz > 0 then uvmunmap pagetable 0 (PGROUNDUP sz div 4096) True s else Ret () s) (\<lambda>_ s.
     freewalk 3 pagetable s)"

fun uvmcopy_loop ::
  "uint64 \<Rightarrow> uint64 \<Rightarrow> uint64 list \<Rightarrow> 'z kmem_state_scheme \<Rightarrow> ('z kmem_state_scheme, cint) res" where
  "uvmcopy_loop old new [] s = Ret 0 s"
| "uvmcopy_loop old new (i # is) s =
     bnd (walk old i False s) (\<lambda>pte s.
     if pte = 0 then Panic ''uvmcopy: pte should exist''
     else if ld64 (mem s) pte AND PTE_V = 0 then Panic ''uvmcopy: page not present''
     else let pa = PTE2PA (ld64 (mem s) pte); flags = PTE_FLAGS (ld64 (mem s) pte) in
       bnd (kalloc s) (\<lambda>pg s.
       if pg = 0 then bnd (uvmunmap new 0 (i div 4096) True s) (\<lambda>_ s. Ret (-1) s)
       else let s = put_mem (memmove pg pa PGSIZE (mem s)) s in
         bnd (mappages new i 4096 pg flags s) (\<lambda>r s.
         if r \<noteq> 0 then
           bnd (kfree pg s) (\<lambda>_ s.
           bnd (uvmunmap new 0 (i div 4096) True s) (\<lambda>_ s. Ret (-1) s))
         else uvmcopy_loop old new is s)))"

definition uvmcopy :: "uint64 \<Rightarrow> uint64 \<Rightarrow> uint64 \<Rightarrow> 'z kmem_state_scheme \<Rightarrow> ('z kmem_state_scheme, cint) res" where
  "uvmcopy old new sz s = uvmcopy_loop old new (pages_below 0 sz) s"

definition uvmclear :: "uint64 \<Rightarrow> uint64 \<Rightarrow> 'z kmem_state_scheme \<Rightarrow> ('z kmem_state_scheme, unit) res" where
  "uvmclear pagetable va s =
     bnd (walk pagetable va False s) (\<lambda>pte s.
     if pte = 0 then Panic ''uvmclear''
     else Ret () (put_mem (st64 (mem s) pte (ld64 (mem s) pte AND NOT PTE_U)) s))"

section \<open>Copying between user and kernel\<close>

text \<open>How many of \<open>len\<close> bytes at \<open>va\<close> lie in the first page.\<close>

definition chunk :: "uint64 \<Rightarrow> nat \<Rightarrow> nat" where
  "chunk va len = (let n = unat (4096 - (va - PGROUNDDOWN va)) in if n > len then len else n)"

lemma chunk_pos: "0 < len \<Longrightarrow> 0 < chunk va len"
proof -
  have "va - PGROUNDDOWN va = va mod 4096" by (simp add: pgdown_diff)
  moreover have "va mod 4096 < 4096" by (rule word_mod_less_divisor) simp
  ultimately have "4096 - (va - PGROUNDDOWN va) \<noteq> 0" by auto
  then have "0 < unat (4096 - (va - PGROUNDDOWN va))" using unat_gt_0 by blast
  then show "0 < len \<Longrightarrow> 0 < chunk va len" by (simp add: chunk_def Let_def)
qed

function copyout :: "uint64 \<Rightarrow> uint64 \<Rightarrow> byte list \<Rightarrow> 'z kmem_state_scheme \<Rightarrow> ('z kmem_state_scheme, cint) res" where
  "copyout pagetable dstva src s =
     (if length src > 0 then
        let va0 = PGROUNDDOWN dstva in
        bnd (walkaddr pagetable va0 s) (\<lambda>pa0 s.
        if pa0 = 0 then Ret (-1) s
        else let n = chunk dstva (length src);
                 s = put_mem (store_bytes (mem s) (pa0 + (dstva - va0)) (take n src)) s
             in copyout pagetable (va0 + 4096) (drop n src) s)
      else Ret 0 s)"
  by auto
termination by (relation "measure (\<lambda>(_, _, src, _). length src)") (auto simp: chunk_pos)

text \<open>\<^verbatim>\<open>copyin\<close> gives the bytes it stored at the destination, also when it fails half way.\<close>

function copyin :: "uint64 \<Rightarrow> uint64 \<Rightarrow> nat \<Rightarrow> 'z kmem_state_scheme \<Rightarrow> ('z kmem_state_scheme, cint \<times> byte list) res" where
  "copyin pagetable srcva len s =
     (if len > 0 then
        let va0 = PGROUNDDOWN srcva in
        bnd (walkaddr pagetable va0 s) (\<lambda>pa0 s.
        if pa0 = 0 then Ret (-1, []) s
        else let n = chunk srcva len; bs = load_bytes (mem s) (pa0 + (srcva - va0)) n in
          bnd (copyin pagetable (va0 + 4096) (len - n) s) (\<lambda>(r, cs) s. Ret (r, bs @ cs) s))
      else Ret (0, []) s)"
  by auto
termination by (relation "measure (\<lambda>(_, _, len, _). len)") (auto simp: chunk_pos)

text \<open>The bytes of one page up to and including a zero, and whether there was one.\<close>

fun copy_chars :: "memory \<Rightarrow> uint64 \<Rightarrow> nat \<Rightarrow> byte list \<times> bool" where
  "copy_chars m p 0 = ([], False)"
| "copy_chars m p (Suc n) =
     (if m p = 0 then ([0], True) else let (bs, got_null) = copy_chars m (p + 1) n in (m p # bs, got_null))"

function copyinstr :: "uint64 \<Rightarrow> uint64 \<Rightarrow> nat \<Rightarrow> 'z kmem_state_scheme \<Rightarrow> ('z kmem_state_scheme, cint \<times> byte list) res" where
  "copyinstr pagetable srcva mx s =
     (if mx > 0 then
        let va0 = PGROUNDDOWN srcva in
        bnd (walkaddr pagetable va0 s) (\<lambda>pa0 s.
        if pa0 = 0 then Ret (-1, []) s
        else let n = chunk srcva mx; (bs, got_null) = copy_chars (mem s) (pa0 + (srcva - va0)) n in
          if got_null then Ret (0, bs) s
          else bnd (copyinstr pagetable (va0 + 4096) (mx - n) s) (\<lambda>(r, cs) s. Ret (r, bs @ cs) s))
      else Ret (-1, []) s)"
  by auto
termination by (relation "measure (\<lambda>(_, _, mx, _). mx)") (auto simp: chunk_pos)

declare copyout.simps [simp del] copyin.simps [simp del] copyinstr.simps [simp del]

end
