(* ===== verification/Pagetable.thy ===== *)
theory Pagetable
  imports Vm
begin

text \<open>
  What the code of \<open>Vm\<close> does to page tables. A page table is a tree of distinct pages; \<open>ptmap\<close> is the
  mapping it stands for, from virtual addresses to leaf entries. \<^verbatim>\<open>walk\<close> with allocation leaves the mapping as
  it is, \<^verbatim>\<open>mappages\<close> and \<^verbatim>\<open>uvmunmap\<close> change it at the pages named, \<^verbatim>\<open>copyout\<close> and \<^verbatim>\<open>copyin\<close> write and read the
  memory it maps.
\<close>

section \<open>Entries of a page\<close>

abbreviation pte_valid :: "uint64 \<Rightarrow> bool" where
  "pte_valid e \<equiv> e AND PTE_V \<noteq> 0"

definition ent :: "uint64 \<Rightarrow> nat \<Rightarrow> uint64" where
  "ent p i = p + 8 * of_nat i"

definition pxi :: "nat \<Rightarrow> uint64 \<Rightarrow> nat" where
  "pxi l va = unat (PX l va)"

lemma pxi_less [simp]: "pxi l va < 512"
proof -
  have "PX l va = take_bit 9 (drop_bit (PXSHIFT l) va)"
    unfolding PX_def by (simp add: take_bit_eq_mask mask_eq_exp_minus_1)
  then have "unat (PX l va) = take_bit 9 (unat (drop_bit (PXSHIFT l) va))" by (simp add: unsigned_take_bit_eq)
  then show ?thesis using take_bit_nat_less_exp [of 9 "unat (drop_bit (PXSHIFT l) va)"] by (simp add: pxi_def)
qed

lemma pte_addr [simp]: "p + 8 * PX l va = ent p (pxi l va)"
  by (simp add: ent_def pxi_def)

lemma page_offset:
  assumes "PGROUNDDOWN p = p" "k < PGSIZE"
  shows "unat (p + of_nat k) = unat p + k"
proof -
  have "unat p + k < 2 ^ 64" using page_no_wrap [OF assms(1)] assms(2) by simp
  then show ?thesis by (subst unat_word_ariths(1)) (simp add: unat_of_nat take_bit_nat_eq_self)
qed

lemma unat_ent: "PGROUNDDOWN p = p \<Longrightarrow> i < 512 \<Longrightarrow> unat (ent p i) = unat p + 8 * i"
  using page_offset [of p "8 * i"] by (simp add: ent_def PGSIZE_def)

lemma in_ent:
  assumes "PGROUNDDOWN p = p" "i < 512"
  shows "in_area (ent p i) 8 a \<longleftrightarrow> unat p + 8 * i \<le> unat a \<and> unat a < unat p + 8 * i + 8"
proof -
  have "unat (ent p i) + 8 \<le> 2 ^ 64" using page_no_wrap [OF assms(1)] unat_ent [OF assms] assms(2) by (simp add: PGSIZE_def)
  then show ?thesis using in_area_no_wrap unat_ent [OF assms] by (simp add: word_le_nat_alt)
qed

lemma ent_page:
  assumes "PGROUNDDOWN p = p" "i < 512" "in_area (ent p i) 8 a"
  shows "PGROUNDDOWN a = p"
proof -
  have "in_area p PGSIZE a"
    using assms in_ent in_area_no_wrap [OF page_no_wrap [OF assms(1)]] by (auto simp: PGSIZE_def word_le_nat_alt)
  then show ?thesis using in_page_iff [OF assms(1)] by simp
qed

lemma ent_start: "PGROUNDDOWN p = p \<Longrightarrow> i < 512 \<Longrightarrow> PGROUNDDOWN (ent p i) = p"
  by (rule ent_page) (auto simp: in_area_def)

lemma ent_inj: "PGROUNDDOWN p = p \<Longrightarrow> PGROUNDDOWN q = q \<Longrightarrow> i < 512 \<Longrightarrow> j < 512 \<Longrightarrow> ent p i = ent q j \<Longrightarrow> p = q \<and> i = j"
  using ent_start [of p i] ent_start [of q j] unat_ent [of p i] unat_ent [of q j] by auto

lemma ld64_page:
  assumes "PGROUNDDOWN p = p" "i < 512" "\<And>a. PGROUNDDOWN a = p \<Longrightarrow> m' a = m a"
  shows "ld64 m' (ent p i) = ld64 m (ent p i)"
  using ent_page [OF assms(1,2)] assms(3) by (intro ld64_cong) auto

lemma ld64_st64_ent:
  assumes "PGROUNDDOWN p = p" "PGROUNDDOWN q = q" "i < 512" "j < 512"
  shows "ld64 (st64 m (ent p i) v) (ent q j) = (if p = q \<and> i = j then v else ld64 m (ent q j))"
proof (cases "p = q \<and> i = j")
  case False
  have "\<not> in_area (ent p i) 8 a" if "in_area (ent q j) 8 a" for a
  proof
    assume b: "in_area (ent p i) 8 a"
    have "p = q" using ent_page [OF assms(1,3) b] ent_page [OF assms(2,4) that] by simp
    with False have "i \<noteq> j" by simp
    then show False using b that in_ent [OF assms(1,3)] in_ent [OF assms(2,4)] \<open>p = q\<close> by auto
  qed
  then have "ld64 (st64 m (ent p i) v) (ent q j) = ld64 m (ent q j)" by (intro ld64_cong) auto
  then show ?thesis using False by (simp only: if_False)
qed auto

lemma st64_ent_outside: "PGROUNDDOWN p = p \<Longrightarrow> i < 512 \<Longrightarrow> PGROUNDDOWN a \<noteq> p \<Longrightarrow> st64 m (ent p i) v a = m a"
  using ent_page by (intro st64_outside) blast

lemma mask_12: "4096 - 1 = (mask 12 :: uint64)" "0x3FF = (mask 10 :: uint64)"
  by (simp_all add: mask_eq_exp_minus_1)

lemma bit_pgdown: "bit (PGROUNDDOWN a) k \<longleftrightarrow> 12 \<le> k \<and> bit a k"
  using bit_imp_le_length [of a k] unfolding PGROUNDDOWN_def mask_12 by (auto simp: bit_simps)

lemma bit_PTE2PA: "bit (PTE2PA e) k \<longleftrightarrow> 12 \<le> k \<and> k < 64 \<and> bit e (k - 2)"
  by (auto simp: PTE2PA_def bit_simps)

lemma bit_PA2PTE: "bit (PA2PTE e) k \<longleftrightarrow> 10 \<le> k \<and> k < 64 \<and> bit e (k + 2)"
  by (auto simp: PA2PTE_def bit_simps)

lemma bit_PTE_V: "bit PTE_V k \<longleftrightarrow> k = 0"
  by (auto simp: PTE_V_def bit_1_iff)

lemma PTE_V_ne [simp]: "PTE_V \<noteq> 0"
  by (simp add: PTE_V_def)

lemma PTE2PA_page [simp]: "PGROUNDDOWN (PTE2PA e) = PTE2PA e"
  by (rule bit_word_eqI) (auto simp: bit_pgdown bit_PTE2PA)

text \<open>The address in an entry comes back, whatever permission bits are set.\<close>

definition perm_bits :: "uint64 \<Rightarrow> bool" where
  "perm_bits perm \<longleftrightarrow> PTE_FLAGS perm = perm"

lemma bit_perm: "perm_bits perm \<Longrightarrow> bit perm k \<Longrightarrow> k < 10"
  unfolding perm_bits_def PTE_FLAGS_def mask_12 by (metis bit_and_iff bit_mask_iff)

lemma pte_round_trip:
  assumes "PGROUNDDOWN pa = pa" "perm_bits perm"
  shows "PTE2PA (PA2PTE pa OR perm OR PTE_V) = pa"
proof (rule bit_word_eqI)
  fix k assume "k < LENGTH(64)"
  moreover have "bit pa k \<longleftrightarrow> 12 \<le> k \<and> bit pa k" using bit_pgdown [of pa k] assms(1) by simp
  moreover have "12 \<le> k \<Longrightarrow> k - 2 + 2 = k" by simp
  ultimately show "bit (PTE2PA (PA2PTE pa OR perm OR PTE_V)) k = bit pa k"
    using bit_perm [OF assms(2), of "k - 2"] by (auto simp: bit_PTE2PA bit_PA2PTE bit_PTE_V bit_or_iff le_diff_conv2 simp del: add_2_eq_Suc')
qed

lemma pte_valid_mk [simp]: "pte_valid (x OR PTE_V)" "pte_valid (x OR y OR PTE_V)"
proof -
  have "bit ((x OR PTE_V) AND PTE_V) 0" for x by (simp add: bit_simps bit_PTE_V)
  then show "pte_valid (x OR PTE_V)" "pte_valid (x OR y OR PTE_V)" by (metis bit_0_eq bot_apply bot_bool_def or.assoc)+
qed

lemma flags_bits: "perm_bits (PTE_FLAGS e)" "perm_bits 0"
  by (simp_all add: perm_bits_def PTE_FLAGS_def and.assoc)

section \<open>The tree\<close>

text \<open>The address of the entry for \<open>va\<close>, and the entry if it is valid.\<close>

fun leaf :: "nat \<Rightarrow> memory \<Rightarrow> uint64 \<Rightarrow> uint64 \<Rightarrow> uint64 option" where
  "leaf 0 m p va = Some (ent p (pxi 0 va))"
| "leaf (Suc l) m p va =
     (let e = ld64 m (ent p (pxi (Suc l) va)) in if pte_valid e then leaf l m (PTE2PA e) va else None)"

definition lookup :: "nat \<Rightarrow> memory \<Rightarrow> uint64 \<Rightarrow> uint64 \<Rightarrow> uint64 option" where
  "lookup l m p va = (case leaf l m p va of None \<Rightarrow> None | Some a \<Rightarrow> if pte_valid (ld64 m a) then Some (ld64 m a) else None)"

text \<open>\<open>ptree l m p S\<close>: the pages of the tree of height \<open>l\<close> at \<open>p\<close> are \<open>S\<close>, and no page occurs twice.\<close>

fun ptree :: "nat \<Rightarrow> memory \<Rightarrow> uint64 \<Rightarrow> uint64 set \<Rightarrow> bool" where
  "ptree 0 m p S \<longleftrightarrow> PGROUNDDOWN p = p \<and> S = {p}"
| "ptree (Suc l) m p S \<longleftrightarrow> PGROUNDDOWN p = p \<and>
     (\<exists>T. (\<forall>i < 512. if pte_valid (ld64 m (ent p i)) then ptree l m (PTE2PA (ld64 m (ent p i))) (T i) else T i = {}) \<and>
       (\<forall>i < 512. p \<notin> T i) \<and> (\<forall>i < 512. \<forall>j < 512. i \<noteq> j \<longrightarrow> T i \<inter> T j = {}) \<and> S = insert p (\<Union>i < 512. T i))"

lemma ptree_SucI:
  assumes "PGROUNDDOWN p = p"
    "\<forall>i < 512. if pte_valid (ld64 m (ent p i)) then ptree l m (PTE2PA (ld64 m (ent p i))) (T i) else T i = {}"
    "\<forall>i < 512. p \<notin> T i" "\<forall>i < 512. \<forall>j < 512. i \<noteq> j \<longrightarrow> T i \<inter> T j = {}" "S = insert p (\<Union>i < 512. T i)"
  shows "ptree (Suc l) m p S"
  unfolding ptree.simps using assms by blast

lemma ptree_SucE:
  assumes "ptree (Suc l) m p S"
  obtains T where "PGROUNDDOWN p = p"
    "\<forall>i < 512. if pte_valid (ld64 m (ent p i)) then ptree l m (PTE2PA (ld64 m (ent p i))) (T i) else T i = {}"
    "\<forall>i < 512. p \<notin> T i" "\<forall>i < 512. \<forall>j < 512. i \<noteq> j \<longrightarrow> T i \<inter> T j = {}" "S = insert p (\<Union>i < 512. T i)"
  using assms unfolding ptree.simps by blast

declare ptree.simps(2) [simp del]

lemma ptree_root: "ptree l m p S \<Longrightarrow> p \<in> S \<and> PGROUNDDOWN p = p"
  by (cases l) (auto elim: ptree_SucE)

lemma ptree_pages: "ptree l m p S \<Longrightarrow> q \<in> S \<Longrightarrow> PGROUNDDOWN q = q"
proof (induction l arbitrary: p S)
  case (Suc l)
  obtain T where p: "PGROUNDDOWN p = p" and
    T: "\<forall>i < 512. if pte_valid (ld64 m (ent p i)) then ptree l m (PTE2PA (ld64 m (ent p i))) (T i) else T i = {}"
    and S: "S = insert p (\<Union>i < 512. T i)" by (rule ptree_SucE [OF Suc.prems(1)])
  from Suc.prems(2) S consider "q = p" | i where "i < 512" "q \<in> T i" by auto
  then show ?case
  proof cases
    case (2 i)
    then show ?thesis using T [rule_format, of i] Suc.IH by (auto split: if_splits)
  qed (use p in simp)
qed auto

lemma ptree_frame:
  assumes "ptree l m p S" "\<And>a. PGROUNDDOWN a \<in> S \<Longrightarrow> m' a = m a"
  shows "ptree l m' p S"
  using assms
proof (induction l arbitrary: p S)
  case (Suc l)
  obtain T where p: "PGROUNDDOWN p = p" and
    T: "\<forall>i < 512. if pte_valid (ld64 m (ent p i)) then ptree l m (PTE2PA (ld64 m (ent p i))) (T i) else T i = {}"
    "\<forall>i < 512. p \<notin> T i" "\<forall>i < 512. \<forall>j < 512. i \<noteq> j \<longrightarrow> T i \<inter> T j = {}"
    and S: "S = insert p (\<Union>i < 512. T i)" by (rule ptree_SucE [OF Suc.prems(1)])
  have e: "ld64 m' (ent p i) = ld64 m (ent p i)" if "i < 512" for i
    using that Suc.prems(2) S p by (intro ld64_page) auto
  have "if pte_valid (ld64 m' (ent p i)) then ptree l m' (PTE2PA (ld64 m' (ent p i))) (T i) else T i = {}" if "i < 512" for i
  proof -
    have "m' a = m a" if "PGROUNDDOWN a \<in> T i" for a using that \<open>i < 512\<close> Suc.prems(2) S by auto
    then show ?thesis using T(1) [rule_format, OF that] e [OF that] Suc.IH [of _ "T i"] by auto
  qed
  then show ?case using p T(2,3) S by (intro ptree_SucI [where T = T] allI impI) simp_all
qed simp

lemma leaf_frame:
  assumes "ptree l m p S" "\<And>a. PGROUNDDOWN a \<in> S \<Longrightarrow> m' a = m a"
  shows "leaf l m' p va = leaf l m p va" and "lookup l m' p va = lookup l m p va"
    and "leaf l m p va = Some a \<Longrightarrow> \<exists>q \<in> S. \<exists>i < 512. a = ent q i \<and> PGROUNDDOWN q = q"
proof -
  have 1: "leaf l m' p va = leaf l m p va \<and> (\<forall>a. leaf l m p va = Some a \<longrightarrow> (\<exists>q \<in> S. \<exists>i < 512. a = ent q i \<and> PGROUNDDOWN q = q))"
    using assms
  proof (induction l arbitrary: p S)
    case (Suc l)
    obtain T where p: "PGROUNDDOWN p = p" and
      T: "\<forall>i < 512. if pte_valid (ld64 m (ent p i)) then ptree l m (PTE2PA (ld64 m (ent p i))) (T i) else T i = {}"
      and S: "S = insert p (\<Union>i < 512. T i)" by (rule ptree_SucE [OF Suc.prems(1)])
    let ?i = "pxi (Suc l) va"
    have e: "ld64 m' (ent p ?i) = ld64 m (ent p ?i)"
      using Suc.prems(2) S p by (intro ld64_page) auto
    show ?case
    proof (cases "pte_valid (ld64 m (ent p ?i))")
      case True
      then have "ptree l m (PTE2PA (ld64 m (ent p ?i))) (T ?i)" using T [rule_format, of ?i] by simp
      moreover have "T ?i \<subseteq> S" using S pxi_less [of "Suc l" va] by auto
      ultimately show ?thesis using Suc.IH [of "PTE2PA (ld64 m (ent p ?i))" "T ?i"] Suc.prems(2) e True by (fastforce simp: Let_def)
    qed (use e in \<open>simp add: Let_def\<close>)
  qed (use pxi_less in \<open>fastforce\<close>)
  then show "leaf l m' p va = leaf l m p va" by simp
  from 1 show a: "leaf l m p va = Some a \<Longrightarrow> \<exists>q \<in> S. \<exists>i < 512. a = ent q i \<and> PGROUNDDOWN q = q" for a by blast
  have "ld64 m' a = ld64 m a" if "leaf l m p va = Some a" for a
    using a [OF that] assms(2) by (auto intro!: ld64_page)
  with 1 show "lookup l m' p va = lookup l m p va" by (auto simp: lookup_def split: option.split)
qed

lemma leaf_in:
  assumes "ptree l m p S" "leaf l m p va = Some a"
  obtains q i where "q \<in> S" "i < 512" "a = ent q i" "PGROUNDDOWN q = q"
  using leaf_frame(3) [OF assms(1), of m va a] assms(2) by blast

lemma lookup_Suc:
  "lookup (Suc l) m p va =
     (let e = ld64 m (ent p (pxi (Suc l) va)) in if pte_valid e then lookup l m (PTE2PA e) va else None)"
  by (simp add: lookup_def Let_def)

section \<open>walk\<close>

lemma walk_loop_False: "walk_loop l p va False s = Ret (case leaf l (mem s) p va of None \<Rightarrow> 0 | Some a \<Rightarrow> a) s"
  by (induction l arbitrary: p) (simp_all add: Let_def)

lemma zero_page:
  assumes "PGROUNDDOWN q = q" "i < 512" "\<And>a. PGROUNDDOWN a = q \<Longrightarrow> m a = 0"
  shows "ld64 m (ent q i) = 0"
proof -
  have "load_bytes m (ent q i) 8 = replicate 8 0"
    using ent_page [OF assms(1,2)] assms(3) in_area_inside [of _ 8 "ent q i"] by (intro nth_equalityI) auto
  then show ?thesis by (simp add: ld64_def numeral_eq_Suc)
qed

lemma ptree_zero:
  assumes "PGROUNDDOWN q = q" "\<And>a. PGROUNDDOWN a = q \<Longrightarrow> m a = 0"
  shows "ptree l m q {q}"
proof (cases l)
  case (Suc k)
  then show ?thesis
    using zero_page [OF assms(1) _ assms(2)] assms(1) by (auto intro!: ptree_SucI [where T = "\<lambda>_. {}"])
qed (use assms in simp)

lemma lookup_zero:
  assumes "PGROUNDDOWN q = q" "\<And>a. PGROUNDDOWN a = q \<Longrightarrow> m a = 0"
  shows "lookup l m q va = None"
  using zero_page [OF assms(1) pxi_less assms(2)] by (cases l) (simp_all add: lookup_def Let_def)

text \<open>The parts of the state the page-table code can change.\<close>

definition pt_frame :: "'z kmem_state_scheme \<Rightarrow> 'z kmem_state_scheme \<Rightarrow> bool" where
  "pt_frame s t \<longleftrightarrow> kend t = kend s \<and> held t = held s \<and> procs t = procs s \<and> curproc t = curproc s \<and>
     consout t = consout s \<and> kmem_state.more t = kmem_state.more s"

lemma pt_frame_refl [simp]: "pt_frame s s"
  by (simp add: pt_frame_def)

lemma pt_frame_trans: "pt_frame s t \<Longrightarrow> pt_frame t u \<Longrightarrow> pt_frame s u"
  by (simp add: pt_frame_def)

lemma pt_frame_put [simp]: "pt_frame s (put_mem m t) = pt_frame s t"
  by (simp add: pt_frame_def put_mem_def)

lemma put_mem_simps [simp]: "mem (put_mem m s) = m" "freelist (put_mem m s) = freelist s" "kend (put_mem m s) = kend s"
  "held (put_mem m s) = held s" "procs (put_mem m s) = procs s" "curproc (put_mem m s) = curproc s" "put_mem m (put_mem m' s) = put_mem m s"
  by (simp_all add: put_mem_def)

text \<open>A page of the allocator, cleared, and the entry that points to it.\<close>

lemma alloc_zeroed:
  assumes "kmem_inv s" "free_pages s \<noteq> {}"
  obtains q t where "kalloc s = Ret q t" "q \<in> free_pages s" "q \<noteq> 0" "PGROUNDDOWN q = q" "pt_frame s t"
    "kmem_inv (put_mem (memset q v PGSIZE (mem t)) t)" "free_pages (put_mem (memset q v PGSIZE (mem t)) t) = free_pages s - {q}"
    "\<And>a. PGROUNDDOWN a \<noteq> q \<Longrightarrow> memset q v PGSIZE (mem t) a = mem s a" "\<And>a. PGROUNDDOWN a = q \<Longrightarrow> memset q v PGSIZE (mem t) a = v"
proof -
  obtain q f where k: "kalloc s = Ret q (s\<lparr>mem := memset q 5 PGSIZE (mem s), freelist := f\<rparr>)" "q \<in> free_pages s"
    "kmem_inv (s\<lparr>mem := memset q 5 PGSIZE (mem s), freelist := f\<rparr>)"
    "free_pages (s\<lparr>mem := memset q 5 PGSIZE (mem s), freelist := f\<rparr>) = free_pages s - {q}"
    using kalloc_nonempty [OF assms] by blast
  let ?t = "s\<lparr>mem := memset q 5 PGSIZE (mem s), freelist := f\<rparr>"
  have v: "valid_page (kend s) q" using free_pages_valid [OF k(2)] .
  have pg: "PGROUNDDOWN q = q" using valid_page_pgdown [OF v] .
  have "q \<noteq> 0" using v assms(1) by (auto simp: valid_page_def kmem_inv_def)
  have "mem (put_mem (memset q v PGSIZE (mem ?t)) ?t) a = mem ?t a" if "PGROUNDDOWN a \<in> free_pages ?t" for a
    using that k(4) by (auto simp: memset_at in_page_iff [OF pg])
  then have "kmem_inv (put_mem (memset q v PGSIZE (mem ?t)) ?t) \<and> free_pages (put_mem (memset q v PGSIZE (mem ?t)) ?t) = free_pages ?t"
    using k(3) by (intro kmem_inv_write) (auto simp: kmem_inv_def)
  then show thesis
    using k pg \<open>q \<noteq> 0\<close> by (intro that [of q ?t]) (auto simp: pt_frame_def memset_at in_page_iff [OF pg])
qed

lemma kmem_inv_put:
  assumes "kmem_inv s" "\<And>a. PGROUNDDOWN a \<in> free_pages s \<Longrightarrow> m a = mem s a"
  shows "kmem_inv (put_mem m s)" "free_pages (put_mem m s) = free_pages s"
  using kmem_inv_write [OF assms(1), of "put_mem m s"] assms by (auto simp: kmem_inv_def)

text \<open>A subtree replaced by a larger one whose new pages were free.\<close>

lemma ptree_graft:
  assumes tree: "ptree (Suc l) m p S" and i: "i < 512" and
    e: "pte_valid (ld64 m' (ent p i))" "ptree l m' (PTE2PA (ld64 m' (ent p i))) U" and
    same: "\<And>j. j < 512 \<Longrightarrow> j \<noteq> i \<Longrightarrow> ld64 m' (ent p j) = ld64 m (ent p j)" and
    out: "\<And>a. PGROUNDDOWN a \<in> S \<Longrightarrow> PGROUNDDOWN a \<noteq> p \<Longrightarrow> PGROUNDDOWN a \<notin> U \<Longrightarrow> m' a = m a" and
    U: "\<And>q. q \<in> U \<Longrightarrow> q \<in> S \<Longrightarrow> pte_valid (ld64 m (ent p i)) \<and> (\<forall>V. ptree l m (PTE2PA (ld64 m (ent p i))) V \<longrightarrow> q \<in> V)" and
    V: "\<And>V. pte_valid (ld64 m (ent p i)) \<Longrightarrow> ptree l m (PTE2PA (ld64 m (ent p i))) V \<Longrightarrow> V \<subseteq> U \<and> p \<notin> V"
    and pU: "p \<notin> U"
  shows "ptree (Suc l) m' p (S \<union> U)"
proof -
  obtain T where p: "PGROUNDDOWN p = p" and
    T: "\<forall>i < 512. if pte_valid (ld64 m (ent p i)) then ptree l m (PTE2PA (ld64 m (ent p i))) (T i) else T i = {}"
    "\<forall>i < 512. p \<notin> T i" "\<forall>i < 512. \<forall>j < 512. i \<noteq> j \<longrightarrow> T i \<inter> T j = {}"
    and S: "S = insert p (\<Union>i < 512. T i)" by (rule ptree_SucE [OF tree])
  have sub: "T j \<subseteq> S" if "j < 512" for j using S that by auto
  have TU: "T j \<inter> U = {}" if "j < 512" "j \<noteq> i" for j
  proof (rule ccontr)
    assume "T j \<inter> U \<noteq> {}"
    then obtain q where q: "q \<in> T j" "q \<in> U" by blast
    have v: "pte_valid (ld64 m (ent p i))" "\<forall>V. ptree l m (PTE2PA (ld64 m (ent p i))) V \<longrightarrow> q \<in> V"
      using U [OF q(2)] sub [OF that(1)] q(1) by auto
    then have "q \<in> T i" using T(1) [rule_format, OF i] by simp
    then show False using T(3) i that q(1) by blast
  qed
  have Ti: "T i \<subseteq> U" using T(1) [rule_format, OF i] V by (auto split: if_splits)
  let ?T = "T(i := U)"
  have "if pte_valid (ld64 m' (ent p j)) then ptree l m' (PTE2PA (ld64 m' (ent p j))) (?T j) else ?T j = {}" if "j < 512" for j
  proof (cases "j = i")
    case False
    have "m' a = m a" if "PGROUNDDOWN a \<in> T j" for a
      using out [of a] that sub [OF \<open>j < 512\<close>] TU [OF \<open>j < 512\<close> False] T(2) \<open>j < 512\<close> by auto
    then show ?thesis using same [OF that False] T(1) [rule_format, OF that] False ptree_frame [of l m _ "T j" m'] by auto
  qed (use e in simp)
  moreover have "p \<notin> ?T j" if "j < 512" for j using T(2) pU that by simp
  moreover have "?T j \<inter> ?T k = {}" if "j < 512" "k < 512" "j \<noteq> k" for j k
    using TU [of j] TU [of k] T(3) that by auto
  moreover have "S \<union> U = insert p (\<Union>i < 512. ?T i)"
    using S Ti i by (auto split: if_splits)
  ultimately show ?thesis using p by (intro ptree_SucI [where T = ?T] allI impI)
qed

lemma ptree_unique: "ptree l m p S \<Longrightarrow> ptree l m p S' \<Longrightarrow> S = S'"
proof (induction l arbitrary: p S S')
  case (Suc l)
  obtain T where T: "\<forall>i < 512. if pte_valid (ld64 m (ent p i)) then ptree l m (PTE2PA (ld64 m (ent p i))) (T i) else T i = {}"
    and S: "S = insert p (\<Union>i < 512. T i)" by (rule ptree_SucE [OF Suc.prems(1)])
  obtain T' where T': "\<forall>i < 512. if pte_valid (ld64 m (ent p i)) then ptree l m (PTE2PA (ld64 m (ent p i))) (T' i) else T' i = {}"
    and S': "S' = insert p (\<Union>i < 512. T' i)" by (rule ptree_SucE [OF Suc.prems(2)])
  have "T i = T' i" if "i < 512" for i
    using T [rule_format, OF that] T' [rule_format, OF that] Suc.IH by (auto split: if_splits)
  then show ?case using S S' by auto
qed auto

text \<open>The subtree an entry points to.\<close>

lemma ptree_child:
  assumes "ptree (Suc l) m p S" "i < 512" "pte_valid (ld64 m (ent p i))"
  obtains V where "ptree l m (PTE2PA (ld64 m (ent p i))) V" "V \<subseteq> S" "p \<notin> V"
proof -
  obtain T where p: "PGROUNDDOWN p = p" and
    T: "\<forall>i < 512. if pte_valid (ld64 m (ent p i)) then ptree l m (PTE2PA (ld64 m (ent p i))) (T i) else T i = {}"
    "\<forall>i < 512. p \<notin> T i" and S: "S = insert p (\<Union>i < 512. T i)" by (rule ptree_SucE [OF assms(1)])
  then show thesis using assms(2,3) by (intro that [of "T i"]) auto
qed

text \<open>A change inside one subtree leaves the translations through the others alone.\<close>

lemma lookup_other:
  assumes tree: "ptree (Suc l) m p S" and i: "i < 512" "pxi (Suc l) va' \<noteq> i" and
    e: "ld64 m' (ent p (pxi (Suc l) va')) = ld64 m (ent p (pxi (Suc l) va'))" and
    out: "\<And>a. PGROUNDDOWN a \<in> S \<Longrightarrow> PGROUNDDOWN a \<noteq> p \<Longrightarrow>
      (\<And>V. pte_valid (ld64 m (ent p i)) \<Longrightarrow> ptree l m (PTE2PA (ld64 m (ent p i))) V \<Longrightarrow> PGROUNDDOWN a \<notin> V) \<Longrightarrow> m' a = m a"
  shows "lookup (Suc l) m' p va' = lookup (Suc l) m p va'" "leaf (Suc l) m' p va' = leaf (Suc l) m p va'"
proof -
  obtain T where T: "\<forall>i < 512. if pte_valid (ld64 m (ent p i)) then ptree l m (PTE2PA (ld64 m (ent p i))) (T i) else T i = {}"
    "\<forall>i < 512. p \<notin> T i" "\<forall>i < 512. \<forall>j < 512. i \<noteq> j \<longrightarrow> T i \<inter> T j = {}" and S: "S = insert p (\<Union>i < 512. T i)"
    by (rule ptree_SucE [OF tree])
  let ?j = "pxi (Suc l) va'"
  have same: "m' a = m a" if a: "PGROUNDDOWN a \<in> T ?j" for a
  proof -
    have "PGROUNDDOWN a \<notin> V" if "pte_valid (ld64 m (ent p i))" "ptree l m (PTE2PA (ld64 m (ent p i))) V" for V
    proof -
      have "V = T i" using T(1) [rule_format, OF i(1)] that ptree_unique by auto
      moreover have "T i \<inter> T ?j = {}" using T(3) [rule_format, of i ?j] i by auto
      ultimately show ?thesis using a by auto
    qed
    moreover have "PGROUNDDOWN a \<in> S" "PGROUNDDOWN a \<noteq> p" using a S T(2) by auto
    ultimately show "m' a = m a" by (intro out)
  qed
  show "lookup (Suc l) m' p va' = lookup (Suc l) m p va'" "leaf (Suc l) m' p va' = leaf (Suc l) m p va'"
    using T(1) [rule_format, of ?j] e leaf_frame(1,2) [OF _ same] by (auto simp: lookup_Suc Let_def)
qed

text \<open>
  \<^verbatim>\<open>walk\<close> with allocation: it fails only when no page is free, and otherwise ends at the entry for \<open>va\<close>;
  it may add cleared pages to the tree, which come from the free pages; no translation changes.
\<close>

definition walk_post ::
  "nat \<Rightarrow> uint64 \<Rightarrow> uint64 \<Rightarrow> uint64 set \<Rightarrow> 'z kmem_state_scheme \<Rightarrow> uint64 \<Rightarrow> 'z kmem_state_scheme \<Rightarrow> uint64 set \<Rightarrow> bool" where
  "walk_post l p va S s a t S' \<longleftrightarrow> pt_frame s t \<and> kmem_inv t \<and> ptree l (mem t) p S' \<and> S \<subseteq> S' \<and> S' \<subseteq> S \<union> free_pages s \<and>
     free_pages t = free_pages s - S' \<and> (\<forall>x. PGROUNDDOWN x \<notin> S' \<longrightarrow> mem t x = mem s x) \<and>
     (a = 0 \<longrightarrow> free_pages t = {}) \<and> (a \<noteq> 0 \<longrightarrow> leaf l (mem t) p va = Some a) \<and>
     (\<forall>va'. lookup l (mem t) p va' = lookup l (mem s) p va')"

lemma walk_loop_ok:
  assumes "kmem_inv s" "ptree l (mem s) p S" "S \<inter> free_pages s = {}" "0 \<notin> S"
  shows "\<exists>a t S'. walk_loop l p va True s = Ret a t \<and> walk_post l p va S s a t S'"
  using assms
proof (induction l arbitrary: p s S)
  case 0
  then have "ent p (pxi 0 va) \<noteq> 0" using ent_start [of p "pxi 0 va"] by (auto simp: PGROUNDDOWN_def)
  then show ?case using 0 by (intro exI [of _ "ent p (pxi 0 va)"] exI [of _ s] exI [of _ S]) (auto simp: walk_post_def)
next
  case (Suc l)
  let ?i = "pxi (Suc l) va" and ?e = "\<lambda>m. ld64 m (ent p (pxi (Suc l) va))"
  have p: "PGROUNDDOWN p = p" "p \<in> S" using ptree_root [OF Suc.prems(2)] by auto
  show ?case
  proof (cases "pte_valid (?e (mem s))")
    case True
    obtain V where V: "ptree l (mem s) (PTE2PA (?e (mem s))) V" "V \<subseteq> S" "p \<notin> V"
      by (rule ptree_child [OF Suc.prems(2) pxi_less True])
    obtain a t V' where t: "walk_loop l (PTE2PA (?e (mem s))) va True s = Ret a t" "walk_post l (PTE2PA (?e (mem s))) va V s a t V'"
      using Suc.IH [OF Suc.prems(1) V(1)] Suc.prems(3,4) V(2) by blast
    have V': "V \<subseteq> V'" "V' \<subseteq> V \<union> free_pages s" "ptree l (mem t) (PTE2PA (?e (mem s))) V'" "free_pages t = free_pages s - V'"
      and out: "\<And>x. PGROUNDDOWN x \<notin> V' \<Longrightarrow> mem t x = mem s x"
      using t(2) by (auto simp: walk_post_def)
    have pV': "p \<notin> V'" using V(3) V'(2) Suc.prems(3) p(2) by auto
    have e: "ld64 (mem t) (ent p j) = ld64 (mem s) (ent p j)" if "j < 512" for j
      using that p(1) out pV' by (intro ld64_page) auto
    have tree: "ptree (Suc l) (mem t) p (S \<union> V')"
    proof (rule ptree_graft [OF Suc.prems(2) pxi_less])
      show "pte_valid (?e (mem t))" "ptree l (mem t) (PTE2PA (?e (mem t))) V'" using True e [OF pxi_less] V'(3) by auto
      show "pte_valid (?e (mem s)) \<and> (\<forall>V. ptree l (mem s) (PTE2PA (?e (mem s))) V \<longrightarrow> q \<in> V)" if "q \<in> V'" "q \<in> S" for q
        using that V'(2) Suc.prems(3) True V(1) ptree_unique by blast
      show "W \<subseteq> V' \<and> p \<notin> W" if "ptree l (mem s) (PTE2PA (?e (mem s))) W" for W
        using that V(1,3) V'(1) ptree_unique by blast
    qed (use e out pV' in auto)
    have look: "lookup (Suc l) (mem t) p va' = lookup (Suc l) (mem s) p va'" for va'
    proof (cases "pxi (Suc l) va' = ?i")
      case True
      then show ?thesis using t(2) e [OF pxi_less] by (simp add: lookup_Suc Let_def walk_post_def)
    next
      case False
      show ?thesis
      proof (rule lookup_other(1) [OF Suc.prems(2) pxi_less False])
        fix a assume "PGROUNDDOWN a \<in> S" "\<And>V. pte_valid (?e (mem s)) \<Longrightarrow> ptree l (mem s) (PTE2PA (?e (mem s))) V \<Longrightarrow> PGROUNDDOWN a \<notin> V"
        then show "mem t a = mem s a" using True V(1) V'(2) Suc.prems(3) by (intro out) blast
      qed (rule e [OF pxi_less])
    qed
    have "walk_post (Suc l) p va S s a t (S \<union> V')"
      using t(2) tree look V' V(2) out e [OF pxi_less] True Suc.prems(3) by (auto simp: walk_post_def Let_def)
    moreover have "walk_loop (Suc l) p va True s = Ret a t" using True t(1) by simp
    ultimately show ?thesis by blast
  next
    case False
    show ?thesis
    proof (cases "free_pages s = {}")
      case True
      then have "walk_loop (Suc l) p va True s = Ret 0 s" using False kalloc_empty [OF Suc.prems(1)] by (simp add: Let_def)
      then show ?thesis using True Suc.prems by (intro exI [of _ 0] exI [of _ s] exI [of _ S]) (auto simp: walk_post_def)
    next
      case free: False
      obtain q t0 where q: "kalloc s = Ret q t0" "q \<in> free_pages s" "q \<noteq> 0" "PGROUNDDOWN q = q" "pt_frame s t0"
        and z: "kmem_inv (put_mem (memset q 0 PGSIZE (mem t0)) t0)" "free_pages (put_mem (memset q 0 PGSIZE (mem t0)) t0) = free_pages s - {q}"
        "\<And>a. PGROUNDDOWN a \<noteq> q \<Longrightarrow> memset q 0 PGSIZE (mem t0) a = mem s a" "\<And>a. PGROUNDDOWN a = q \<Longrightarrow> memset q 0 PGSIZE (mem t0) a = 0"
        using alloc_zeroed [OF Suc.prems(1) free, where v = 0] by metis
      let ?m = "memset q 0 PGSIZE (mem t0)" and ?v = "PA2PTE q OR PTE_V"
      let ?s2 = "put_mem (st64 ?m (ent p ?i) ?v) t0"
      have pq: "p \<noteq> q" "p \<notin> free_pages s" using p(2) q(2) Suc.prems(3) by auto
      have m2: "mem ?s2 a = ?m a" if "PGROUNDDOWN a \<noteq> p" for a using that p(1) by (simp add: st64_ent_outside)
      have "mem ?s2 a = mem (put_mem ?m t0) a" if "PGROUNDDOWN a \<in> free_pages (put_mem ?m t0)" for a
        using that m2 [of a] z(2) pq(2) by auto
      from kmem_inv_put [OF z(1) this] have inv2: "kmem_inv ?s2" "free_pages ?s2 = free_pages s - {q}"
        using z(2) by simp_all
      have zero: "mem ?s2 a = 0" if "PGROUNDDOWN a = q" for a using that m2 z(4) pq(1) by auto
      have "ptree l (mem ?s2) q {q}" using ptree_zero [OF q(4)] zero by blast
      then obtain a t V' where t: "walk_loop l q va True ?s2 = Ret a t" "walk_post l q va {q} ?s2 a t V'"
        using Suc.IH [OF inv2(1), of q "{q}"] inv2(2) q(3) by auto
      have V': "q \<in> V'" "V' \<subseteq> free_pages s" "ptree l (mem t) q V'" "free_pages t = free_pages s - V'"
        and out: "\<And>x. PGROUNDDOWN x \<notin> V' \<Longrightarrow> mem t x = mem ?s2 x"
        using t(2) inv2(2) q(2) by (auto simp: walk_post_def)
      have pV': "p \<notin> V'" using V'(2) pq(2) by auto
      have ep: "ld64 (mem t) (ent p j) = (if j = ?i then ?v else ld64 (mem s) (ent p j))" if "j < 512" for j
      proof -
        have "ld64 (mem t) (ent p j) = ld64 (mem ?s2) (ent p j)" using that p(1) out pV' by (intro ld64_page) auto
        moreover have "ld64 ?m (ent p j) = ld64 (mem s) (ent p j)" using that p(1) z(3) pq(1) by (intro ld64_page) auto
        ultimately show ?thesis using that p(1) by (simp add: ld64_st64_ent)
      qed
      have qe: "PTE2PA ?v = q" using pte_round_trip [OF q(4) flags_bits(2)] by simp
      have ms: "mem t x = mem s x" if "PGROUNDDOWN x \<notin> V'" "PGROUNDDOWN x \<noteq> p" for x
        using that out m2 z(3) V'(1) by metis
      have tree: "ptree (Suc l) (mem t) p (S \<union> V')"
        using ep [OF pxi_less] qe V' Suc.prems(3) False ep ms pV'
        by (intro ptree_graft [OF Suc.prems(2) pxi_less]) auto
      have look: "lookup (Suc l) (mem t) p va' = lookup (Suc l) (mem s) p va'" for va'
      proof (cases "pxi (Suc l) va' = ?i")
        case True
        have "lookup l (mem t) q va' = None" using t(2) lookup_zero [OF q(4) zero] by (simp add: walk_post_def)
        then show ?thesis using True ep [OF pxi_less] qe False by (simp add: lookup_Suc Let_def)
      next
        case ne: False
        show ?thesis
        proof (rule lookup_other(1) [OF Suc.prems(2) pxi_less ne])
          show "mem t a = mem s a" if "PGROUNDDOWN a \<in> S" "PGROUNDDOWN a \<noteq> p" for a
            using that V'(2) Suc.prems(3) by (intro ms) auto
        qed (use ep [OF pxi_less] ne in simp)
      qed
      have "pt_frame s t" "kmem_inv t" "a = 0 \<longrightarrow> free_pages t = {}" "a \<noteq> 0 \<longrightarrow> leaf l (mem t) q va = Some a"
        using t(2) q(5) pt_frame_trans [of s ?s2 t] by (auto simp: walk_post_def)
      moreover have "free_pages t = free_pages s - (S \<union> V')" using V'(4) Suc.prems(3) by auto
      moreover have "leaf (Suc l) (mem t) p va = leaf l (mem t) q va" using ep [OF pxi_less] qe by (simp add: Let_def)
      ultimately have "walk_post (Suc l) p va S s a t (S \<union> V')"
        unfolding walk_post_def using tree look V'(2) ms p(2) by auto
      moreover have "walk_loop (Suc l) p va True s = Ret a t" using False q(1,3) t(1) by (simp add: Let_def)
      ultimately show ?thesis by blast
    qed
  qed
qed

section \<open>Writing a leaf entry\<close>

text \<open>Two addresses take the same path through the top \<open>l + 1\<close> levels.\<close>

definition same_path :: "nat \<Rightarrow> uint64 \<Rightarrow> uint64 \<Rightarrow> bool" where
  "same_path l va va' \<longleftrightarrow> (\<forall>k \<le> l. pxi k va = pxi k va')"

lemma same_path_Suc: "same_path (Suc l) va va' \<longleftrightarrow> pxi (Suc l) va = pxi (Suc l) va' \<and> same_path l va va'"
  by (auto simp: same_path_def le_Suc_eq)

lemma leaf_cong: "same_path l va va' \<Longrightarrow> leaf l m p va = leaf l m p va'"
proof (induction l arbitrary: p)
  case (Suc l)
  then show ?case by (simp add: same_path_Suc Let_def)
qed (simp add: same_path_def)

lemma lookup_cong: "same_path l va va' \<Longrightarrow> lookup l m p va = lookup l m p va'"
  using leaf_cong [of l va va'] by (simp add: lookup_def)

lemma store_leaf:
  assumes "ptree l m p S" "leaf l m p va = Some a"
  shows "ptree l (st64 m a v) p S" "leaf l (st64 m a v) p va' = leaf l m p va'"
    "lookup l (st64 m a v) p va' = (if same_path l va va' then if pte_valid v then Some v else None else lookup l m p va')"
proof -
  let ?m = "st64 m a v"
  have "ptree l ?m p S \<and> leaf l ?m p va' = leaf l m p va' \<and>
    lookup l ?m p va' = (if same_path l va va' then if pte_valid v then Some v else None else lookup l m p va')"
    using assms
  proof (induction l arbitrary: p S)
    case 0
    then show ?case by (cases "pxi 0 va = pxi 0 va'") (auto simp: lookup_def ld64_st64_ent same_path_def)
  next
    case (Suc l)
    let ?i = "pxi (Suc l) va" and ?j = "pxi (Suc l) va'"
    have p: "PGROUNDDOWN p = p" using ptree_root [OF Suc.prems(1)] by simp
    have vi: "pte_valid (ld64 m (ent p ?i))" and la: "leaf l m (PTE2PA (ld64 m (ent p ?i))) va = Some a"
      using Suc.prems(2) by (auto simp: Let_def split: if_splits)
    obtain V where V: "ptree l m (PTE2PA (ld64 m (ent p ?i))) V" "V \<subseteq> S" "p \<notin> V"
      by (rule ptree_child [OF Suc.prems(1) pxi_less vi])
    obtain q k where q: "q \<in> V" "k < 512" "a = ent q k" "PGROUNDDOWN q = q" by (rule leaf_in [OF V(1) la])
    have out: "?m x = m x" if "PGROUNDDOWN x \<noteq> q" for x using that q by (simp add: st64_ent_outside)
    have pq: "p \<noteq> q" using q(1) V(3) by auto
    have e: "ld64 ?m (ent p j) = ld64 m (ent p j)" if "j < 512" for j
      using that p out pq by (intro ld64_page) auto
    note IH = Suc.IH [OF V(1) la]
    have "ptree (Suc l) ?m p (S \<union> V)"
    proof (rule ptree_graft [OF Suc.prems(1) pxi_less])
      show "pte_valid (ld64 ?m (ent p ?i))" "ptree l ?m (PTE2PA (ld64 ?m (ent p ?i))) V" using IH vi e [OF pxi_less] by auto
      show "pte_valid (ld64 m (ent p ?i)) \<and> (\<forall>W. ptree l m (PTE2PA (ld64 m (ent p ?i))) W \<longrightarrow> x \<in> W)" if "x \<in> V" for x
        using vi V(1) that ptree_unique by blast
      show "W \<subseteq> V \<and> p \<notin> W" if "ptree l m (PTE2PA (ld64 m (ent p ?i))) W" for W
        using that V(1,3) ptree_unique by blast
      show "?m x = m x" if "PGROUNDDOWN x \<notin> V" for x using that q(1) by (intro out) auto
    qed (use e V(3) in auto)
    then have tree: "ptree (Suc l) ?m p S" using V(2) by (simp add: Un_absorb2)
    show ?case
    proof (cases "?j = ?i")
      case True
      then have "ld64 ?m (ent p ?j) = ld64 m (ent p ?i)" using e [OF pxi_less] by simp
      then show ?thesis using tree IH vi True by (simp add: lookup_Suc same_path_Suc Let_def)
    next
      case False
      have "?m x = m x" if "\<And>W. pte_valid (ld64 m (ent p ?i)) \<Longrightarrow> ptree l m (PTE2PA (ld64 m (ent p ?i))) W \<Longrightarrow> PGROUNDDOWN x \<notin> W" for x
        using that vi V(1) q(1) by (intro out) blast
      note other = lookup_other [OF Suc.prems(1) pxi_less False e [OF pxi_less] this]
      show ?thesis using tree other False by (auto simp: same_path_Suc)
    qed
  qed
  then show "ptree l ?m p S" "leaf l ?m p va' = leaf l m p va'"
    "lookup l ?m p va' = (if same_path l va va' then if pte_valid v then Some v else None else lookup l m p va')" by auto
qed

section \<open>Pages of the address space\<close>

lemma bit_PX: "bit (PX l va) k \<longleftrightarrow> k < 9 \<and> bit va (12 + 9 * l + k)"
proof -
  have m: "(0x1FF :: uint64) = mask 9" by (simp add: mask_eq_exp_minus_1)
  show ?thesis unfolding PX_def m PXSHIFT_def by (auto simp: bit_simps)
qed

lemma MAXVA_38: "MAXVA = 2 ^ 38"
  by (simp add: MAXVA_def)

lemma below_MAXVA: "va < MAXVA \<Longrightarrow> bit va k \<Longrightarrow> k < 38"
proof -
  assume "va < MAXVA" "bit va k"
  then have "take_bit 38 va = va" unfolding MAXVA_38
    by (simp add: word_unat_eq_iff unsigned_take_bit_eq take_bit_nat_eq_self word_less_nat_alt)
  then show ?thesis using \<open>bit va k\<close> by (metis bit_take_bit_iff)
qed

lemma same_path_page:
  assumes "va < MAXVA" "va' < MAXVA"
  shows "same_path 2 va va' \<longleftrightarrow> PGROUNDDOWN va = PGROUNDDOWN va'"
proof
  assume path: "same_path 2 va va'"
  show "PGROUNDDOWN va = PGROUNDDOWN va'"
  proof (rule bit_word_eqI)
    fix k assume "k < LENGTH(64)"
    show "bit (PGROUNDDOWN va) k = bit (PGROUNDDOWN va') k"
    proof (cases "12 \<le> k \<and> k < 38")
      case True
      define l where "l = (k - 12) div 9"
      have l: "l \<le> 2" "12 + 9 * l + (k - 12) mod 9 = k" using True by (auto simp: l_def)
      then have "PX l va = PX l va'" using path by (simp add: same_path_def pxi_def word_unat_eq_iff)
      then have "bit (PX l va) ((k - 12) mod 9) = bit (PX l va') ((k - 12) mod 9)" by simp
      then show ?thesis using l True by (simp add: bit_PX bit_pgdown)
    qed (use below_MAXVA assms in \<open>auto simp: bit_pgdown\<close>)
  qed
next
  assume pg: "PGROUNDDOWN va = PGROUNDDOWN va'"
  have "bit va n = bit va' n" if "12 \<le> n" for n using bit_pgdown [of va n] bit_pgdown [of va' n] pg that by simp
  then have "PX k va = PX k va'" for k by (intro bit_word_eqI) (simp add: bit_PX)
  then show "same_path 2 va va'" by (simp add: same_path_def pxi_def)
qed

section \<open>Page tables and the allocator\<close>

definition pt_ok :: "uint64 \<Rightarrow> uint64 set \<Rightarrow> 'z kmem_state_scheme \<Rightarrow> bool" where
  "pt_ok p S s \<longleftrightarrow> kmem_inv s \<and> ptree 2 (mem s) p S \<and> S \<inter> free_pages s = {} \<and> 0 \<notin> S"

definition pt_step :: "uint64 \<Rightarrow> uint64 set \<Rightarrow> 'z kmem_state_scheme \<Rightarrow> 'z kmem_state_scheme \<Rightarrow> uint64 set \<Rightarrow> bool" where
  "pt_step p S s t S' \<longleftrightarrow> pt_frame s t \<and> pt_ok p S' t \<and> S \<subseteq> S' \<and> S' \<subseteq> S \<union> free_pages s \<and>
     free_pages t = free_pages s - S' \<and> (\<forall>x. PGROUNDDOWN x \<notin> S' \<longrightarrow> mem t x = mem s x)"

abbreviation ptmap :: "'z kmem_state_scheme \<Rightarrow> uint64 \<Rightarrow> uint64 \<Rightarrow> uint64 option" where
  "ptmap s p va \<equiv> lookup 2 (mem s) p va"

lemma zero_not_free: "kmem_inv s \<Longrightarrow> 0 \<notin> free_pages s"
  by (auto simp: kmem_inv_def valid_page_def dest: free_pages_valid)

lemma pt_step_refl: "pt_ok p S s \<Longrightarrow> pt_step p S s s S"
  by (auto simp: pt_step_def pt_ok_def)

lemma pt_step_trans:
  assumes "pt_step p S s t S'" "pt_step p S' t u S''"
  shows "pt_step p S s u S''"
proof -
  have "mem u x = mem s x" if "PGROUNDDOWN x \<notin> S''" for x
  proof -
    have "PGROUNDDOWN x \<notin> S'" using that assms(2) by (auto simp: pt_step_def)
    then show ?thesis using that assms by (simp add: pt_step_def)
  qed
  then show ?thesis using assms by (auto simp: pt_step_def intro: pt_frame_trans)
qed

lemma walk_alloc_ok:
  assumes "pt_ok p S s" "va < MAXVA"
  obtains a t S' where "walk p va True s = Ret a t" "pt_step p S s t S'" "a = 0 \<Longrightarrow> free_pages t = {}"
    "a \<noteq> 0 \<Longrightarrow> leaf 2 (mem t) p va = Some a" "\<And>va'. ptmap t p va' = ptmap s p va'"
proof -
  obtain a t S' where t: "walk_loop 2 p va True s = Ret a t" "walk_post 2 p va S s a t S'"
    using walk_loop_ok [of s 2 p S va] assms(1) by (auto simp: pt_ok_def)
  have "pt_step p S s t S'"
    using t(2) zero_not_free assms(1) by (auto simp: walk_post_def pt_step_def pt_ok_def)
  moreover have "walk p va True s = Ret a t" using t(1) assms(2) by (simp add: walk_def not_le [symmetric])
  ultimately show thesis using t(2) by (intro that [of a t S']) (auto simp: walk_post_def)
qed

lemma walk_False: "va < MAXVA \<Longrightarrow> walk p va False s = Ret (case leaf 2 (mem s) p va of None \<Rightarrow> 0 | Some a \<Rightarrow> a) s"
  by (simp add: walk_def walk_loop_False not_le [symmetric])

lemma leaf_nonzero:
  assumes "pt_ok p S s" "leaf 2 (mem s) p va = Some a"
  shows "a \<noteq> 0" "PGROUNDDOWN a \<in> S"
proof -
  have tree: "ptree 2 (mem s) p S" using assms(1) by (simp add: pt_ok_def)
  obtain q i where q: "q \<in> S" "i < 512" "a = ent q i" "PGROUNDDOWN q = q" by (rule leaf_in [OF tree assms(2)])
  have "PGROUNDDOWN a = q" using ent_start [OF q(4,2)] q(3) by simp
  then show "PGROUNDDOWN a \<in> S" "a \<noteq> 0" using q(1) assms(1) by (auto simp: pt_ok_def PGROUNDDOWN_def)
qed

text \<open>Storing a new leaf entry.\<close>

lemma store_pte:
  fixes v :: uint64
  assumes ok: "pt_ok p S s" and va: "va < MAXVA" and a: "leaf 2 (mem s) p va = Some a"
  defines "t \<equiv> put_mem (st64 (mem s) a v) s"
  shows "pt_step p S s t S"
    "va' < MAXVA \<Longrightarrow> ptmap t p va' = (if PGROUNDDOWN va' = PGROUNDDOWN va then if pte_valid v then Some v else None else ptmap s p va')"
proof -
  have tree: "ptree 2 (mem s) p S" using ok by (simp add: pt_ok_def)
  obtain q i where q: "q \<in> S" "i < 512" "a = ent q i" "PGROUNDDOWN q = q" by (rule leaf_in [OF tree a])
  have out: "mem t x = mem s x" if "PGROUNDDOWN x \<noteq> q" for x using that q by (simp add: t_def st64_ent_outside)
  have "kmem_inv t" "free_pages t = free_pages s"
    unfolding t_def using ok q(1) by (intro kmem_inv_put; use out in \<open>force simp: t_def pt_ok_def\<close>)+
  moreover have "ptree 2 (mem t) p S" using store_leaf(1) [OF tree a] by (simp add: t_def)
  moreover have "mem t x = mem s x" if "PGROUNDDOWN x \<notin> S" for x using that q(1) by (intro out) auto
  moreover have "pt_frame s t" by (simp add: t_def)
  ultimately show "pt_step p S s t S"
    using ok by (auto simp: pt_step_def pt_ok_def)
  show "ptmap t p va' = (if PGROUNDDOWN va' = PGROUNDDOWN va then if pte_valid v then Some v else None else ptmap s p va')" if "va' < MAXVA"
    using store_leaf(3) [OF tree a, of v va'] same_path_page [OF va that] by (auto simp: t_def)
qed

section \<open>mappages\<close>

lemma mappages_loop_ok:
  assumes "pt_ok p S s" "perm_bits perm" "distinct as"
    "\<forall>a \<in> set as. a < MAXVA \<and> PGROUNDDOWN a = a \<and> ptmap s p a = None"
  shows "\<exists>r t S'. mappages_loop p as pa perm s = Ret r t \<and> pt_step p S s t S' \<and>
    (r = 0 \<or> r = -1 \<and> free_pages t = {}) \<and>
    (r = 0 \<longrightarrow> (\<forall>k < length as. ptmap t p (as ! k) = Some (PA2PTE (pa + of_nat k * 4096) OR perm OR PTE_V))) \<and>
    (\<forall>va < MAXVA. PGROUNDDOWN va \<notin> set as \<longrightarrow> ptmap t p va = ptmap s p va)"
  using assms
proof (induction as arbitrary: pa s S)
  case Nil
  then show ?case using pt_step_refl by (intro exI [of _ 0] exI [of _ s] exI [of _ S]) auto
next
  case (Cons a as)
  have a: "a < MAXVA" "PGROUNDDOWN a = a" "ptmap s p a = None" using Cons.prems(4) by auto
  obtain b t S' where w: "walk p a True s = Ret b t" "pt_step p S s t S'" "b = 0 \<Longrightarrow> free_pages t = {}"
    "b \<noteq> 0 \<Longrightarrow> leaf 2 (mem t) p a = Some b" "\<And>va'. ptmap t p va' = ptmap s p va'"
    by (rule walk_alloc_ok [OF Cons.prems(1) a(1)]) blast
  show ?case
  proof (cases "b = 0")
    case True
    then have "mappages_loop p (a # as) pa perm s = Ret (-1) t" using w(1) by simp
    then show ?thesis using True w by (intro exI [of _ "-1"] exI [of _ t] exI [of _ S']) auto
  next
    case False
    let ?v = "PA2PTE pa OR perm OR PTE_V" and ?u = "put_mem (st64 (mem t) b (PA2PTE pa OR perm OR PTE_V)) t"
    have ok: "pt_ok p S' t" using w(2) by (simp add: pt_step_def)
    note st = store_pte [OF ok a(1) w(4) [OF False], where v = ?v]
    have inv: "\<not> pte_valid (ld64 (mem t) b)" using a(3) w(4) [OF False] w(5) [of a] by (auto simp: lookup_def split: if_splits)
    have "ptmap ?u p c = None" if "c \<in> set as" for c
    proof -
      have "PGROUNDDOWN c \<noteq> PGROUNDDOWN a" "c < MAXVA" "ptmap s p c = None"
        using Cons.prems(3,4) that a(2) by auto
      then show ?thesis using st(2) [of c] w(5) by simp
    qed
    then have "\<forall>a \<in> set as. a < MAXVA \<and> PGROUNDDOWN a = a \<and> ptmap ?u p a = None" using Cons.prems(4) by auto
    moreover have "pt_ok p S' ?u" "distinct as" using st(1) Cons.prems(3) by (auto simp: pt_step_def)
    ultimately obtain r x S'' where x: "mappages_loop p as (pa + 4096) perm ?u = Ret r x" "pt_step p S' ?u x S''"
      "r = 0 \<or> r = -1 \<and> free_pages x = {}"
      "r = 0 \<longrightarrow> (\<forall>k < length as. ptmap x p (as ! k) = Some (PA2PTE (pa + 4096 + of_nat k * 4096) OR perm OR PTE_V))"
      "\<forall>va < MAXVA. PGROUNDDOWN va \<notin> set as \<longrightarrow> ptmap x p va = ptmap ?u p va"
      using Cons.IH [of S' ?u "pa + 4096"] Cons.prems(2) by blast
    have "mappages_loop p (a # as) pa perm s = Ret r x" using w(1) False inv x(1) by simp
    moreover have "pt_step p S s x S''" using pt_step_trans [OF pt_step_trans [OF w(2) st(1)] x(2)] .
    moreover have "ptmap x p a = Some ?v" using x(5) [rule_format, OF a(1)] a(2) Cons.prems(3) st(2) [OF a(1)] by simp
    then have "r = 0 \<longrightarrow> (\<forall>k < length (a # as). ptmap x p ((a # as) ! k) = Some (PA2PTE (pa + of_nat k * 4096) OR perm OR PTE_V))"
      using x(4) by (auto simp: less_Suc_eq_0_disj algebra_simps)
    moreover have "ptmap x p va = ptmap s p va" if "va < MAXVA" "PGROUNDDOWN va \<notin> set (a # as)" for va
      using x(5) that st(2) [OF that(1)] a(2) w(5) by simp
    ultimately show ?thesis using x(3) by blast
  qed
qed

lemma unat_plus_of_nat:
  assumes "unat (a :: uint64) + n < 2 ^ 64"
  shows "unat (a + of_nat n) = unat a + n"
proof -
  have "unat (of_nat n :: uint64) = n" using assms by (simp add: unat_of_nat take_bit_nat_eq_self)
  then show ?thesis using assms by (subst unat_word_ariths(1)) simp
qed

lemma unat_page_step: "unat a + k * 4096 < 2 ^ 64 \<Longrightarrow> unat (a + of_nat k * 4096 :: uint64) = unat a + k * 4096"
  using unat_plus_of_nat [of a "k * 4096"] by simp

lemma aligned_unat: "PGROUNDDOWN a = a \<longleftrightarrow> unat a mod 4096 = 0"
  unfolding word_unat_eq_iff unat_pgdown using div_mult_mod_eq [of "unat a" 4096] by linarith

lemma pages_to_props:
  assumes "PGROUNDDOWN a = a" "PGROUNDDOWN l = l" "a \<le> l"
  shows "distinct (pages_to a l)" "set (pages_to a l) = {x. PGROUNDDOWN x = x \<and> a \<le> x \<and> x \<le> l}"
    "PGROUNDDOWN x = x \<Longrightarrow> a \<le> x \<Longrightarrow> x \<le> l \<Longrightarrow> \<exists>k < length (pages_to a l). pages_to a l ! k = x \<and> of_nat k * 4096 = x - a"
proof -
  let ?n = "unat (l - a) div PGSIZE"
  have la: "unat (l - a) = unat l - unat a" using assms(3) by (simp add: unat_sub)
  have m: "unat a mod 4096 = 0" "unat l mod 4096 = 0" using assms(1,2) by (simp_all add: aligned_unat)
  have u: "unat (a + of_nat k * 4096) = unat a + k * 4096" "unat a + k * 4096 \<le> unat l" if "k \<le> ?n" for k
  proof -
    have "k * 4096 \<le> unat l - unat a" using that la by (simp add: PGSIZE_def less_eq_div_iff_mult_less_eq)
    then show "unat a + k * 4096 \<le> unat l" using assms(3) by (simp add: word_le_nat_alt)
    then show "unat (a + of_nat k * 4096) = unat a + k * 4096"
      using unsigned_less [of l, where 'a = nat] by (intro unat_page_step) simp
  qed
  have inj: "inj_on (\<lambda>k. a + of_nat k * 4096) {0..<Suc ?n}"
  proof (rule inj_onI)
    fix i j assume "i \<in> {0..<Suc ?n}" "j \<in> {0..<Suc ?n}" "a + of_nat i * 4096 = a + of_nat j * 4096"
    then have "unat a + i * 4096 = unat a + j * 4096" using u(1) [of i] u(1) [of j] by (metis atLeastLessThan_iff less_Suc_eq_le)
    then show "i = j" by simp
  qed
  then show "distinct (pages_to a l)" by (simp add: pages_to_def distinct_map del: upt_Suc)
  show ex: "\<exists>k < length (pages_to a l). pages_to a l ! k = x \<and> of_nat k * 4096 = x - a"
    if x: "PGROUNDDOWN x = x" "a \<le> x" "x \<le> l" for x
  proof -
    let ?k = "(unat x - unat a) div 4096"
    have xm: "unat x mod 4096 = 0" using x(1) by (simp add: aligned_unat)
    have le: "unat a \<le> unat x" "unat x \<le> unat l" using x(2,3) by (simp_all add: word_le_nat_alt)
    have k: "?k * 4096 = unat x - unat a" using xm m(1) le by (metis dvd_div_mult_self mod_0_imp_dvd dvd_diff_nat)
    have kn: "?k \<le> ?n" using le la by (simp add: PGSIZE_def div_le_mono diff_le_mono)
    have "a + of_nat ?k * 4096 = x" using u(1) [OF kn] k le by (simp add: word_unat_eq_iff)
    moreover from this have "of_nat ?k * 4096 = x - a" by (metis add_diff_cancel_left')
    moreover have "?k < length (pages_to a l)" using kn by (simp add: pages_to_def)
    ultimately show ?thesis by (intro exI [of _ ?k]) (auto simp: pages_to_def simp del: upt_Suc)
  qed
  show "set (pages_to a l) = {x. PGROUNDDOWN x = x \<and> a \<le> x \<and> x \<le> l}"
  proof (intro equalityI subsetI)
    fix x assume "x \<in> set (pages_to a l)"
    then obtain k where k: "k \<le> ?n" "x = a + of_nat k * 4096" by (auto simp: pages_to_def less_Suc_eq_le simp del: upt_Suc)
    then show "x \<in> {x. PGROUNDDOWN x = x \<and> a \<le> x \<and> x \<le> l}" using u [OF k(1)] m by (simp add: aligned_unat word_le_nat_alt)
  qed (use ex in \<open>force simp: in_set_conv_nth\<close>)
qed

text \<open>C31. \<^verbatim>\<open>mappages\<close> maps a range of unmapped virtual addresses. It returns 0 with every address of the range
  translated to the corresponding physical address with the given permissions, or -1 when no page was
  left for the page table; either way no other translation changes, and only pages of the table are
  written, which grew by free pages only.\<close>

theorem mappages_maps:
  assumes ok: "pt_ok p S s" and perm: "perm_bits perm" and sz: "sz \<noteq> 0" "unat va + unat sz \<le> unat MAXVA"
    and new: "\<forall>x. PGROUNDDOWN va \<le> x \<and> x \<le> va + sz - 1 \<longrightarrow> ptmap s p x = None"
  shows "\<exists>r t S'. mappages p va sz pa perm s = Ret r t \<and> pt_step p S s t S' \<and> (r = 0 \<or> r = -1 \<and> free_pages t = {}) \<and>
    (r = 0 \<longrightarrow> (\<forall>x. PGROUNDDOWN va \<le> x \<and> x \<le> va + sz - 1 \<longrightarrow>
      ptmap t p x = Some (PA2PTE (pa + (PGROUNDDOWN x - PGROUNDDOWN va)) OR perm OR PTE_V))) \<and>
    (\<forall>x. x < MAXVA \<and> (PGROUNDDOWN x < PGROUNDDOWN va \<or> va + sz - 1 < PGROUNDDOWN x) \<longrightarrow> ptmap t p x = ptmap s p x)"
proof -
  let ?a = "PGROUNDDOWN va" and ?e = "va + sz - 1"
  have s1: "1 \<le> unat sz" using sz(1) by (metis unat_eq_zero less_one not_le)
  have "unat (va + sz) = unat va + unat sz"
    using sz(2) unsigned_less [of MAXVA, where 'a = nat] by (simp add: unat_word_ariths(1))
  then have ue: "unat ?e = unat va + unat sz - 1" using s1 by (subst unat_minus_one) (auto simp: word_unat_eq_iff)
  have le: "?a \<le> PGROUNDDOWN ?e" and eM: "unat ?e < unat MAXVA"
    using ue s1 sz(2) by (auto simp: word_le_nat_alt unat_pgdown div_le_mono)
  have low: "PGROUNDDOWN x \<le> x" for x by (simp add: word_le_nat_alt unat_pgdown div_times_less_eq_dividend)
  have mono: "PGROUNDDOWN x \<le> PGROUNDDOWN y" if "x \<le> y" for x y using that by (simp add: word_le_nat_alt unat_pgdown div_le_mono)
  let ?as = "pages_to ?a (PGROUNDDOWN ?e)"
  note pg = pages_to_props [OF pgdown_idem pgdown_idem le]
  have as: "\<forall>a \<in> set ?as. a < MAXVA \<and> PGROUNDDOWN a = a \<and> ptmap s p a = None"
  proof
    fix a assume "a \<in> set ?as"
    then have a: "PGROUNDDOWN a = a" "?a \<le> a" "a \<le> ?e" using pg(2) low [of ?e] by auto
    then show "a < MAXVA \<and> PGROUNDDOWN a = a \<and> ptmap s p a = None" using new eM by (auto simp: word_le_nat_alt word_less_nat_alt)
  qed
  obtain r t S' where t: "mappages_loop p ?as pa perm s = Ret r t" "pt_step p S s t S'" "r = 0 \<or> r = -1 \<and> free_pages t = {}"
    "r = 0 \<longrightarrow> (\<forall>k < length ?as. ptmap t p (?as ! k) = Some (PA2PTE (pa + of_nat k * 4096) OR perm OR PTE_V))"
    "\<forall>x < MAXVA. PGROUNDDOWN x \<notin> set ?as \<longrightarrow> ptmap t p x = ptmap s p x"
    using mappages_loop_ok [OF ok perm pg(1) as, of pa] by blast
  have "ptmap t p x = Some (PA2PTE (pa + (PGROUNDDOWN x - ?a)) OR perm OR PTE_V)" if x: "r = 0" "?a \<le> x" "x \<le> ?e" for x
  proof -
    have "?a \<le> PGROUNDDOWN x" "PGROUNDDOWN x \<le> PGROUNDDOWN ?e" using mono [OF x(2)] mono [OF x(3)] by auto
    then obtain k where k: "k < length ?as" "?as ! k = PGROUNDDOWN x" "of_nat k * 4096 = PGROUNDDOWN x - ?a" using pg(3) [of "PGROUNDDOWN x"] by auto
    have "x < MAXVA" "PGROUNDDOWN x < MAXVA" using x(3) eM low [of x] by (auto simp: word_le_nat_alt word_less_nat_alt)
    then have "ptmap t p (PGROUNDDOWN x) = ptmap t p x" by (intro lookup_cong) (simp add: same_path_page)
    then show ?thesis using t(4) x(1) k by metis
  qed
  moreover have "PGROUNDDOWN x \<notin> set ?as" if "PGROUNDDOWN x < ?a \<or> ?e < PGROUNDDOWN x" for x
    using that pg(2) low [of ?e] by (auto simp: not_le [symmetric])
  moreover have "mappages p va sz pa perm s = Ret r t" using t(1) sz(1) by (simp add: mappages_def)
  ultimately show ?thesis using t(2,3,5) by (intro exI [of _ r] exI [of _ t] exI [of _ S']) auto
qed

end
