(* ===== verification/Ucopy.thy ===== *)
theory Ucopy
  imports Pagetable
begin

text \<open>
  User memory as the kernel copies it: \<^verbatim>\<open>copyout\<close>, \<^verbatim>\<open>copyin\<close> and \<^verbatim>\<open>copyinstr\<close> of \<^verbatim>\<open>kernel/vm.c\<close> write and read the
  bytes of a process's address space, cross page boundaries, and stop at the first page that is not
  mapped for the user.
\<close>

section \<open>A new page table\<close>

lemma uvmcreate_ok:
  assumes "kmem_inv s" "free_pages s \<noteq> {}"
  obtains q t where "uvmcreate s = Ret q t" "q \<in> free_pages s" "pt_ok q {q} t" "free_pages t = free_pages s - {q}"
    "\<And>va. ptmap t q va = None" "pt_frame s t" "\<And>a. PGROUNDDOWN a \<noteq> q \<Longrightarrow> mem t a = mem s a"
proof -
  obtain q t where q: "kalloc s = Ret q t" "q \<in> free_pages s" "q \<noteq> 0" "PGROUNDDOWN q = q" "pt_frame s t"
    "kmem_inv (put_mem (memset q 0 PGSIZE (mem t)) t)" "free_pages (put_mem (memset q 0 PGSIZE (mem t)) t) = free_pages s - {q}"
    "\<And>a. PGROUNDDOWN a \<noteq> q \<Longrightarrow> memset q 0 PGSIZE (mem t) a = mem s a" "\<And>a. PGROUNDDOWN a = q \<Longrightarrow> memset q 0 PGSIZE (mem t) a = 0"
    using alloc_zeroed [OF assms, where v = 0] by metis
  have "pt_ok q {q} (put_mem (memset q 0 PGSIZE (mem t)) t)"
    using q(3,6,7) ptree_zero [OF q(4,9)] by (simp add: pt_ok_def)
  then show thesis
    using q lookup_zero [OF q(4,9)] by (intro that [of q "put_mem (memset q 0 PGSIZE (mem t)) t"]) (simp_all add: uvmcreate_def)
qed

theorem mappages_maps_witness:
  "\<exists>(s :: kmem_state) p S t r. pt_ok p S s \<and> mappages p 0x1000 5000 0x80000000 (PTE_R OR PTE_U) s = Ret r t \<and>
     (r = 0 \<longrightarrow> ptmap t p 0x2004 = Some (PA2PTE 0x80001000 OR (PTE_R OR PTE_U) OR PTE_V)) \<and> ptmap t p 0x3000 = None"
proof -
  obtain s0 :: kmem_state where s0: "kmem_inv s0" "free_pages s0 \<noteq> {}" using three_free by blast
  obtain p and s :: kmem_state where s: "pt_ok p {p} s" "\<And>va. ptmap s p va = None" by (rule uvmcreate_ok [OF s0]) blast
  have perm: "perm_bits (PTE_R OR PTE_U)" by (simp add: perm_bits_def PTE_FLAGS_def PTE_R_def PTE_U_def)
  have sz: "(5000 :: uint64) \<noteq> 0" "unat (0x1000 :: uint64) + unat (5000 :: uint64) \<le> unat MAXVA" by (simp_all add: MAXVA_def)
  have new: "\<forall>x. PGROUNDDOWN 0x1000 \<le> x \<and> x \<le> 0x1000 + 5000 - 1 \<longrightarrow> ptmap s p x = None" using s(2) by simp
  have pg: "PGROUNDDOWN 0x1000 = 0x1000" "PGROUNDDOWN 0x2004 = 0x2000" "PGROUNDDOWN 0x3000 = 0x3000" by (simp_all add: PGROUNDDOWN_def)
  obtain r t where t: "mappages p 0x1000 5000 0x80000000 (PTE_R OR PTE_U) s = Ret r t"
    "r = 0 \<longrightarrow> (\<forall>x. PGROUNDDOWN 0x1000 \<le> x \<and> x \<le> 0x1000 + 5000 - 1 \<longrightarrow>
      ptmap t p x = Some (PA2PTE (0x80000000 + (PGROUNDDOWN x - PGROUNDDOWN 0x1000)) OR (PTE_R OR PTE_U) OR PTE_V))"
    "\<forall>x. x < MAXVA \<and> (PGROUNDDOWN x < PGROUNDDOWN 0x1000 \<or> 0x1000 + 5000 - 1 < PGROUNDDOWN x) \<longrightarrow> ptmap t p x = ptmap s p x"
    using mappages_maps [OF s(1) perm sz new, of "0x80000000"] by blast
  have "r = 0 \<longrightarrow> ptmap t p 0x2004 = Some (PA2PTE 0x80001000 OR (PTE_R OR PTE_U) OR PTE_V)"
    using t(2) [THEN mp, THEN spec, of "0x2004"] pg by simp
  moreover have "ptmap t p 0x3000 = None"
    using t(3) [rule_format, of "0x3000"] s(2) pg by (simp add: MAXVA_def)
  ultimately show ?thesis using s(1) t(1) by blast
qed

section \<open>User memory\<close>

text \<open>The physical address of a user virtual address, and the byte there.\<close>

definition uaddr :: "'z kmem_state_scheme \<Rightarrow> uint64 \<Rightarrow> uint64 \<Rightarrow> uint64 option" where
  "uaddr s p va =
     (if va < MAXVA then
        (case ptmap s p va of None \<Rightarrow> None
         | Some e \<Rightarrow> if e AND PTE_U \<noteq> 0 then Some (PTE2PA e + (va - PGROUNDDOWN va)) else None)
      else None)"

definition umem :: "'z kmem_state_scheme \<Rightarrow> uint64 \<Rightarrow> uint64 \<Rightarrow> byte option" where
  "umem s p va = map_option (mem s) (uaddr s p va)"

text \<open>The user pages are distinct, and are neither pages of the page table nor free.\<close>

definition upage :: "'z kmem_state_scheme \<Rightarrow> uint64 \<Rightarrow> uint64 \<Rightarrow> uint64 \<Rightarrow> bool" where
  "upage s p va pa \<longleftrightarrow> va < MAXVA \<and> (\<exists>e. ptmap s p va = Some e \<and> e AND PTE_U \<noteq> 0 \<and> PTE2PA e = pa)"

definition uvm_ok :: "uint64 \<Rightarrow> uint64 set \<Rightarrow> 'z kmem_state_scheme \<Rightarrow> bool" where
  "uvm_ok p S s \<longleftrightarrow> pt_ok p S s \<and>
     (\<forall>va pa. upage s p va pa \<longrightarrow> pa \<notin> S \<and> pa \<notin> free_pages s \<and> pa \<noteq> 0) \<and>
     (\<forall>va va' pa. upage s p va pa \<and> upage s p va' pa \<longrightarrow> PGROUNDDOWN va = PGROUNDDOWN va')"

lemma uaddr_upage: "uaddr s p va = Some x \<longleftrightarrow> (\<exists>pa. upage s p va pa \<and> x = pa + (va - PGROUNDDOWN va))"
  by (auto simp: uaddr_def upage_def split: option.splits)

lemma upage_aligned: "upage s p va pa \<Longrightarrow> PGROUNDDOWN pa = pa"
  by (auto simp: upage_def)

lemma offset_less: "unat (va - PGROUNDDOWN va) < PGSIZE" "unat va = unat (PGROUNDDOWN va) + unat (va - PGROUNDDOWN va)"
proof -
  have le: "PGROUNDDOWN va \<le> va" by (simp add: word_le_nat_alt unat_pgdown div_times_less_eq_dividend)
  then have "unat (va - PGROUNDDOWN va) = unat va - unat va div 4096 * 4096" by (simp add: unat_sub unat_pgdown)
  then show "unat (va - PGROUNDDOWN va) < PGSIZE" by (simp add: PGSIZE_def minus_div_mult_eq_mod)
  show "unat va = unat (PGROUNDDOWN va) + unat (va - PGROUNDDOWN va)" using le by (simp add: unat_sub word_le_nat_alt)
qed

lemma page_of_offset:
  assumes "PGROUNDDOWN pa = pa" "unat k < PGSIZE"
  shows "PGROUNDDOWN (pa + k) = pa"
proof -
  have "in_area pa PGSIZE (pa + k)" using assms(2) by (simp add: in_area_def)
  then show "PGROUNDDOWN (pa + k) = pa" using in_page_iff [OF assms(1)] by simp
qed

lemma uaddr_page:
  assumes "uaddr s p va = Some x"
  shows "upage s p va (PGROUNDDOWN x)" "x = PGROUNDDOWN x + (va - PGROUNDDOWN va)"
proof -
  obtain pa where pa: "upage s p va pa" "x = pa + (va - PGROUNDDOWN va)" using assms by (auto simp: uaddr_upage)
  have "PGROUNDDOWN x = pa" using page_of_offset [OF upage_aligned [OF pa(1)] offset_less(1), of va] pa(2) by simp
  then show "upage s p va (PGROUNDDOWN x)" "x = PGROUNDDOWN x + (va - PGROUNDDOWN va)" using pa by simp_all
qed

lemma uaddr_inj:
  assumes "uvm_ok p S s" "uaddr s p va = Some x" "uaddr s p va' = Some x"
  shows "va = va'"
proof -
  note 1 = uaddr_page [OF assms(2)] and 2 = uaddr_page [OF assms(3)]
  have "PGROUNDDOWN va = PGROUNDDOWN va'" using assms(1) 1(1) 2(1) unfolding uvm_ok_def by blast
  moreover have "va - PGROUNDDOWN va = va' - PGROUNDDOWN va'" using 1(2) 2(2) by (metis add_left_cancel)
  ultimately show ?thesis by simp
qed

text \<open>The addresses of one page.\<close>

lemma page_va:
  assumes "i < unat (4096 - (va - PGROUNDDOWN va))"
  shows "PGROUNDDOWN (va + of_nat i) = PGROUNDDOWN va" "va + of_nat i - PGROUNDDOWN va = (va - PGROUNDDOWN va) + of_nat i"
    "unat (va - PGROUNDDOWN va) + i < PGSIZE"
proof -
  let ?o = "va - PGROUNDDOWN va"
  have o: "unat ?o < 4096" using offset_less(1) by (simp add: PGSIZE_def)
  then have "unat (4096 - ?o) = 4096 - unat ?o" by (simp add: unat_sub word_le_nat_alt)
  then show lt: "unat ?o + i < PGSIZE" using assms by (simp add: PGSIZE_def)
  then have "unat (?o + of_nat i) = unat ?o + i" by (intro unat_plus_of_nat) (simp add: PGSIZE_def)
  then have "PGROUNDDOWN (PGROUNDDOWN va + (?o + of_nat i)) = PGROUNDDOWN va" using lt by (intro page_of_offset) auto
  then show "PGROUNDDOWN (va + of_nat i) = PGROUNDDOWN va" by (simp add: add.assoc [symmetric])
qed simp

lemma below_MAXVA_page: "va < MAXVA \<longleftrightarrow> PGROUNDDOWN va < MAXVA"
proof -
  have "unat va < 2 ^ 38 \<longleftrightarrow> unat va div 4096 * 4096 < 2 ^ 38" by auto
  then show ?thesis by (simp add: word_less_nat_alt MAXVA_38 unat_pgdown)
qed

lemma uaddr_same_page:
  assumes "PGROUNDDOWN va' = PGROUNDDOWN va"
  shows "uaddr s p va' = map_option (\<lambda>x. x + (va' - va)) (uaddr s p va)"
proof (cases "va < MAXVA")
  case True
  then have M: "va' < MAXVA" using assms below_MAXVA_page by metis
  then have "ptmap s p va' = ptmap s p va" using True assms by (intro lookup_cong) (simp add: same_path_page)
  then show ?thesis using M True assms by (auto simp: uaddr_def split: option.split)
next
  case False
  then show ?thesis using assms below_MAXVA_page by (metis uaddr_def option.map(1))
qed

section \<open>walkaddr\<close>

lemma walkaddr_eq:
  assumes "uvm_ok p S s" "PGROUNDDOWN va = va"
  shows "walkaddr p va s = Ret (case uaddr s p va of None \<Rightarrow> 0 | Some x \<Rightarrow> x) s"
proof (cases "va < MAXVA")
  case True
  have ok: "pt_ok p S s" using assms by (simp add: uvm_ok_def)
  show ?thesis
  proof (cases "leaf 2 (mem s) p va")
    case None
    then show ?thesis using True by (simp add: walkaddr_def walk_False uaddr_def lookup_def not_le)
  next
    case (Some a)
    then show ?thesis
      using True leaf_nonzero(1) [OF ok Some] assms(2) by (auto simp: walkaddr_def walk_False uaddr_def lookup_def not_le)
  qed
qed (auto simp: walkaddr_def uaddr_def not_less)

lemma walkaddr_some:
  assumes "uvm_ok p S s" "uaddr s p va = Some x"
  shows "walkaddr p (PGROUNDDOWN va) s = Ret (x - (va - PGROUNDDOWN va)) s" "x - (va - PGROUNDDOWN va) \<noteq> 0"
proof -
  have u: "uaddr s p (PGROUNDDOWN va) = Some (x - (va - PGROUNDDOWN va))"
    using uaddr_same_page [of "PGROUNDDOWN va" va s p] assms(2) by simp
  then show "walkaddr p (PGROUNDDOWN va) s = Ret (x - (va - PGROUNDDOWN va)) s"
    using walkaddr_eq [OF assms(1), of "PGROUNDDOWN va"] by simp
  have "x - (va - PGROUNDDOWN va) = PGROUNDDOWN x" using uaddr_page(2) [OF assms(2)] by (metis add_diff_cancel_right')
  then show "x - (va - PGROUNDDOWN va) \<noteq> 0" using assms(1) uaddr_page(1) [OF assms(2)] unfolding uvm_ok_def by metis
qed

lemma walkaddr_none:
  assumes "uvm_ok p S s" "uaddr s p va = None"
  shows "walkaddr p (PGROUNDDOWN va) s = Ret 0 s"
  using walkaddr_eq [OF assms(1), of "PGROUNDDOWN va"] uaddr_same_page [of "PGROUNDDOWN va" va s p] assms(2) by simp

section \<open>copyin\<close>

lemma chunk_le: "chunk va len \<le> len" "i < chunk va len \<Longrightarrow> i < unat (4096 - (va - PGROUNDDOWN va))"
  by (auto simp: chunk_def Let_def split: if_splits)

text \<open>Past the first chunk lies the start of the next page.\<close>

lemma next_page:
  assumes "chunk va len < len"
  shows "va + of_nat (chunk va len) = PGROUNDDOWN va + 4096"
proof -
  have "chunk va len = unat (4096 - (va - PGROUNDDOWN va))" using assms by (auto simp: chunk_def Let_def split: if_splits)
  then show ?thesis by simp
qed

lemma chunk_uaddr:
  assumes "i < chunk va len"
  shows "uaddr s p (va + of_nat i) = map_option (\<lambda>x. x + of_nat i) (uaddr s p va)"
  using uaddr_same_page [of "va + of_nat i" va s p] page_va(1) [OF chunk_le(2) [OF assms]] by simp

lemma copyin_ok:
  assumes "uvm_ok p S s"
  shows "\<exists>r bs. copyin p va len s = Ret (r, bs) s \<and> length bs \<le> len \<and>
    (\<forall>i < length bs. umem s p (va + of_nat i) = Some (bs ! i)) \<and>
    (r = 0 \<and> length bs = len \<or> r = -1 \<and> length bs < len \<and> uaddr s p (va + of_nat (length bs)) = None)"
proof (induction len arbitrary: va rule: less_induct)
  case (less len)
  show ?case
  proof (cases "len = 0")
    case False
    let ?n = "chunk va len"
    have n: "0 < ?n" "?n \<le> len" using False chunk_pos chunk_le by auto
    show ?thesis
    proof (cases "uaddr s p va")
      case None
      then show ?thesis using False walkaddr_none [OF assms None] by (subst copyin.simps) (simp add: Let_def)
    next
      case (Some x)
      let ?bs = "load_bytes (mem s) x ?n"
      note w = walkaddr_some [OF assms Some]
      obtain r cs where c: "copyin p (PGROUNDDOWN va + 4096) (len - ?n) s = Ret (r, cs) s" "length cs \<le> len - ?n"
        "\<forall>i < length cs. umem s p (PGROUNDDOWN va + 4096 + of_nat i) = Some (cs ! i)"
        "r = 0 \<and> length cs = len - ?n \<or> r = -1 \<and> length cs < len - ?n \<and> uaddr s p (PGROUNDDOWN va + 4096 + of_nat (length cs)) = None"
        using less [of "len - ?n" "PGROUNDDOWN va + 4096"] n by auto
      have np: "va + of_nat (?n + i) = PGROUNDDOWN va + 4096 + of_nat i" if "?n < len" for i
        using next_page [OF that] by (simp add: add.assoc [symmetric])
      have "copyin p va len s = Ret (r, ?bs @ cs) s"
        using False w c(1) by (subst copyin.simps) (simp add: Let_def)
      moreover have "umem s p (va + of_nat i) = Some ((?bs @ cs) ! i)" if "i < length (?bs @ cs)" for i
      proof (cases "i < ?n")
        case True
        then show ?thesis using Some chunk_uaddr [OF True, of s p] by (simp add: umem_def nth_append)
      next
        case ge: False
        define j where "j = i - ?n"
        have j: "i = ?n + j" "j < length cs" using ge that by (auto simp: j_def)
        have "?n < len" using j c(2) by simp
        then have va: "va + of_nat i = PGROUNDDOWN va + 4096 + of_nat j" unfolding j(1) by (rule np)
        have nth: "(?bs @ cs) ! i = cs ! j" using j by (simp add: nth_append)
        show ?thesis unfolding va nth using c(3) j(2) by blast
      qed
      moreover have "r = 0 \<and> length (?bs @ cs) = len \<or> r = -1 \<and> length (?bs @ cs) < len \<and> uaddr s p (va + of_nat (length (?bs @ cs))) = None"
      proof (cases "r = 0 \<and> length cs = len - ?n")
        case False
        then have f: "r = -1" "length cs < len - ?n" "uaddr s p (PGROUNDDOWN va + 4096 + of_nat (length cs)) = None" using c(4) by blast+
        then have "?n < len" by simp
        then have e: "va + of_nat (length (?bs @ cs)) = PGROUNDDOWN va + 4096 + of_nat (length cs)" using np [of "length cs"] by simp
        have "uaddr s p (va + of_nat (length (?bs @ cs))) = None" unfolding e by (rule f(3))
        then show ?thesis using f(1,2) by auto
      qed (use n(2) in simp)
      ultimately show ?thesis using c(2) n(2) by (intro exI [of _ r] exI [of _ "?bs @ cs"]) auto
    qed
  qed (subst copyin.simps, simp)
qed

section \<open>copyout\<close>

lemma of_nat_inj64:
  assumes "a < 2 ^ 64" "b < 2 ^ 64" "of_nat a = (of_nat b :: uint64)"
  shows "a = b"
proof -
  have "unat (of_nat a :: uint64) = a" "unat (of_nat b :: uint64) = b"
    using assms(1,2) by (simp_all add: unat_of_nat take_bit_nat_eq_self)
  then show ?thesis using assms(3) by metis
qed

lemma lookup_pt_frame:
  assumes "pt_ok p S s" "\<And>x. PGROUNDDOWN x \<in> S \<Longrightarrow> mem t x = mem s x"
  shows "ptmap t p va = ptmap s p va"
  using leaf_frame(2) [of 2 "mem s" p S "mem t" va] assms by (simp add: pt_ok_def)

text \<open>A write to pages outside the table and the free list.\<close>

lemma uvm_ok_put:
  assumes ok: "uvm_ok p S s" and m: "\<And>x. PGROUNDDOWN x \<in> S \<union> free_pages s \<Longrightarrow> m x = mem s x"
  shows "uvm_ok p S (put_mem m s)" "ptmap (put_mem m s) p va = ptmap s p va" "uaddr (put_mem m s) p va = uaddr s p va"
    "free_pages (put_mem m s) = free_pages s"
proof -
  have pt: "pt_ok p S s" using ok by (simp add: uvm_ok_def)
  then have k: "kmem_inv (put_mem m s)" "free_pages (put_mem m s) = free_pages s"
    using kmem_inv_put [of s m] m by (auto simp: pt_ok_def)
  have lk: "ptmap (put_mem m s) p va = ptmap s p va" for va
    using pt m by (intro lookup_pt_frame) auto
  have up: "upage (put_mem m s) p va pa = upage s p va pa" for va pa using lk by (simp add: upage_def)
  have "ptree 2 (mem (put_mem m s)) p S" using pt m ptree_frame [of 2 "mem s" p S m] by (simp add: pt_ok_def)
  then have "pt_ok p S (put_mem m s)" using pt k by (simp add: pt_ok_def)
  then show "uvm_ok p S (put_mem m s)" using ok k(2) up unfolding uvm_ok_def by presburger
  show "ptmap (put_mem m s) p va = ptmap s p va" "uaddr (put_mem m s) p va = uaddr s p va" "free_pages (put_mem m s) = free_pages s"
    using lk k(2) by (simp_all add: uaddr_def)
qed

text \<open>
  The memory after a copy to user space: the bytes arrive at the physical addresses of the first \<open>n\<close>
  virtual addresses, and no other byte of physical memory changes.
\<close>

definition copied :: "'z kmem_state_scheme \<Rightarrow> uint64 \<Rightarrow> uint64 \<Rightarrow> byte list \<Rightarrow> nat \<Rightarrow> memory \<Rightarrow> bool" where
  "copied s p va src n m \<longleftrightarrow> (\<forall>i < n. \<exists>x. uaddr s p (va + of_nat i) = Some x \<and> m x = src ! i) \<and>
     (\<forall>x. (\<forall>i < n. uaddr s p (va + of_nat i) \<noteq> Some x) \<longrightarrow> m x = mem s x)"

lemma copyout_ok:
  assumes "uvm_ok p S s" "length src < 2 ^ 64"
  shows "\<exists>r n m. copyout p va src s = Ret r (put_mem m s) \<and> n \<le> length src \<and> uvm_ok p S (put_mem m s) \<and>
    copied s p va src n m \<and> (\<forall>va'. uaddr (put_mem m s) p va' = uaddr s p va') \<and>
    (r = 0 \<and> n = length src \<or> r = -1 \<and> n < length src \<and> uaddr s p (va + of_nat n) = None)"
  using assms
proof (induction "length src" arbitrary: va src s rule: less_induct)
  case less
  show ?case
  proof (cases "src = []")
    case True
    have "put_mem (mem s) s = s" by (simp add: put_mem_def)
    then show ?thesis using True less.prems
      by (intro exI [of _ 0] exI [of _ "mem s"]) (auto simp: copied_def copyout.simps)
  next
    case False
    let ?n = "chunk va (length src)"
    have n: "0 < ?n" "?n \<le> length src" using False chunk_pos chunk_le by auto
    show ?thesis
    proof (cases "uaddr s p va")
      case None
      have "put_mem (mem s) s = s" by (simp add: put_mem_def)
      then show ?thesis using None False walkaddr_none [OF less.prems(1) None] less.prems(1)
        by (intro exI [of _ "-1"] exI [of _ 0] exI [of _ "mem s"]) (auto simp: copied_def copyout.simps Let_def)
    next
      case (Some x)
      note w = walkaddr_some [OF less.prems(1) Some]
      let ?m = "store_bytes (mem s) x (take ?n src)"
      have at: "uaddr s p (va + of_nat i) = Some (x + of_nat i)" if "i < ?n" for i using chunk_uaddr [OF that, of s p] Some by simp
      have n12: "?n \<le> 4096" using offset_less(1) [of va]
        by (auto simp: chunk_def Let_def PGSIZE_def unat_sub word_le_nat_alt)
      have len: "length (take ?n src) = ?n" using n(2) by simp
      have ar: "in_area x ?n y \<longleftrightarrow> (\<exists>i < ?n. y = x + of_nat i)" for y using n12 by (intro in_area_iff) simp
      have mi: "?m (x + of_nat i) = src ! i" if "i < ?n" for i
        using that len n12 by (simp add: store_bytes_def in_area_inside unat_of_nat take_bit_nat_eq_self)
      have mo: "?m y = mem s y" if "\<not> in_area x ?n y" for y using that len by simp
      have "?m y = mem s y" if y: "PGROUNDDOWN y \<in> S \<union> free_pages s" for y
      proof (rule mo, rule notI)
        assume "in_area x ?n y"
        then obtain i where "i < ?n" "y = x + of_nat i" using ar by auto
        then have "upage s p (va + of_nat i) (PGROUNDDOWN y)" using at uaddr_page(1) by blast
        then show False using less.prems y unfolding uvm_ok_def by blast
      qed
      note u = uvm_ok_put [OF less.prems(1) this]
      have lt: "length (drop ?n src) < length src" and l64: "length (drop ?n src) < 2 ^ 64" using n less.prems(2) by simp_all
      obtain r k m where c: "copyout p (PGROUNDDOWN va + 4096) (drop ?n src) (put_mem ?m s) = Ret r (put_mem m (put_mem ?m s))"
        "k \<le> length (drop ?n src)" "uvm_ok p S (put_mem m (put_mem ?m s))" "copied (put_mem ?m s) p (PGROUNDDOWN va + 4096) (drop ?n src) k m"
        "\<forall>va'. uaddr (put_mem m (put_mem ?m s)) p va' = uaddr (put_mem ?m s) p va'"
        "r = 0 \<and> k = length (drop ?n src) \<or> r = -1 \<and> k < length (drop ?n src) \<and> uaddr (put_mem ?m s) p (PGROUNDDOWN va + 4096 + of_nat k) = None"
        using less.hyps [OF lt u(1) l64, of "PGROUNDDOWN va + 4096"] by blast
      have np: "va + of_nat (?n + i) = PGROUNDDOWN va + 4096 + of_nat i" if "?n < length src" for i
        using next_page [OF that] by (simp add: add.assoc [symmetric])
      have "copyout p va src s = Ret r (put_mem m s)"
        using False w c(1) by (subst copyout.simps) (simp add: Let_def)
      moreover have "copied s p va src (?n + k) m"
        unfolding copied_def
      proof (intro conjI allI impI)
        fix i assume i: "i < ?n + k"
        show "\<exists>y. uaddr s p (va + of_nat i) = Some y \<and> m y = src ! i"
        proof (cases "i < ?n")
          case True
          have "uaddr (put_mem ?m s) p (PGROUNDDOWN va + 4096 + of_nat j) \<noteq> Some (x + of_nat i)" if "j < k" for j
          proof
            assume "uaddr (put_mem ?m s) p (PGROUNDDOWN va + 4096 + of_nat j) = Some (x + of_nat i)"
            moreover have "va + of_nat (?n + j) = PGROUNDDOWN va + 4096 + of_nat j" using that c(2) by (intro np) simp
            ultimately have "uaddr s p (va + of_nat (?n + j)) = Some (x + of_nat i)" using u(3) by (simp only:)
            then have "va + of_nat (?n + j) = va + of_nat i" using uaddr_inj [OF less.prems(1) _ at [OF True]] by blast
            then have "of_nat (?n + j) = (of_nat i :: uint64)" by (simp only: add_left_cancel)
            moreover have "?n + j < 2 ^ 64" "i < 2 ^ 64" using that c(2) True less.prems(2) n by auto
            ultimately have "?n + j = i" using of_nat_inj64 by blast
            then show False using True by simp
          qed
          then have "m (x + of_nat i) = ?m (x + of_nat i)" using c(4) unfolding copied_def by simp
          then show ?thesis using at [OF True] mi [OF True] by auto
        next
          case ge: False
          define j where "j = i - ?n"
          have j: "i = ?n + j" "j < k" using ge i by (auto simp: j_def)
          have "?n < length src" using j c(2) by simp
          then have va: "va + of_nat i = PGROUNDDOWN va + 4096 + of_nat j" unfolding j(1) by (rule np)
          have nth: "src ! i = drop ?n src ! j" using j n(2) by simp
          show ?thesis unfolding va nth using c(4) j(2) u(3) unfolding copied_def by auto
        qed
      next
        fix y assume y: "\<forall>i < ?n + k. uaddr s p (va + of_nat i) \<noteq> Some y"
        have "uaddr (put_mem ?m s) p (PGROUNDDOWN va + 4096 + of_nat j) \<noteq> Some y" if "j < k" for j
        proof -
          have e: "va + of_nat (?n + j) = PGROUNDDOWN va + 4096 + of_nat j" using that c(2) by (intro np) simp
          have "uaddr s p (va + of_nat (?n + j)) \<noteq> Some y" using y that by (meson add_strict_left_mono)
          then show ?thesis using u(3) e by (simp only: not_False_eq_True)
        qed
        then have "m y = ?m y" using c(4) unfolding copied_def by simp
        moreover have "\<not> in_area x ?n y" using ar at y by (metis trans_less_add1)
        ultimately show "m y = mem s y" using mo by simp
      qed
      moreover have "r = 0 \<and> ?n + k = length src \<or> r = -1 \<and> ?n + k < length src \<and> uaddr s p (va + of_nat (?n + k)) = None"
      proof (cases "r = 0 \<and> k = length (drop ?n src)")
        case False
        then have f: "r = -1" "k < length (drop ?n src)" "uaddr s p (PGROUNDDOWN va + 4096 + of_nat k) = None" using c(6) u(3) by auto
        then have "?n < length src" by simp
        then have e: "va + of_nat (?n + k) = PGROUNDDOWN va + 4096 + of_nat k" by (rule np)
        have "uaddr s p (va + of_nat (?n + k)) = None" unfolding e by (rule f(3))
        then show ?thesis using f(1,2) by auto
      qed (use n(2) in simp)
      ultimately show ?thesis using c(2,3,5) n(2) u(3) by (intro exI [of _ r] exI [of _ "?n + k"] exI [of _ m]) auto
    qed
  qed
qed

section \<open>What user programs see\<close>

lemma umem_copied:
  assumes "copied s p va src n m" "\<forall>va'. uaddr (put_mem m s) p va' = uaddr s p va'"
  shows "i < n \<Longrightarrow> umem (put_mem m s) p (va + of_nat i) = Some (src ! i)"
    "uvm_ok p S s \<Longrightarrow> (\<And>i. i < n \<Longrightarrow> va' \<noteq> va + of_nat i) \<Longrightarrow> umem (put_mem m s) p va' = umem s p va'"
proof -
  show "i < n \<Longrightarrow> umem (put_mem m s) p (va + of_nat i) = Some (src ! i)"
    using assms by (auto simp: copied_def umem_def)
  assume ok: "uvm_ok p S s" and ne: "\<And>i. i < n \<Longrightarrow> va' \<noteq> va + of_nat i"
  have "m x = mem s x" if "uaddr s p va' = Some x" for x
  proof -
    have "uaddr s p (va + of_nat i) \<noteq> Some x" if "i < n" for i
      using uaddr_inj [OF ok \<open>uaddr s p va' = Some x\<close>] ne [OF that] by blast
    then show ?thesis using assms(1) unfolding copied_def by blast
  qed
  then show "umem (put_mem m s) p va' = umem s p va'" using assms(2) by (cases "uaddr s p va'") (auto simp: umem_def)
qed

text \<open>C32. \<^verbatim>\<open>copyout\<close> of any number of bytes to any address of a user address space: it copies up to the first
  byte whose page the user cannot access, and returns 0 exactly if it copied all of them, -1 otherwise. What
  was copied is what \<^verbatim>\<open>copyin\<close> then reads at the same address, and no other byte the user can see changes.\<close>

theorem copyout_copyin:
  assumes "uvm_ok p S s" "length src < 2 ^ 64"
  shows "\<exists>r n t. copyout p va src s = Ret r t \<and> n \<le> length src \<and>
    (if n = length src then r = 0 else r = -1 \<and> uaddr s p (va + of_nat n) = None) \<and>
    copyin p va n t = Ret (0, take n src) t \<and> uvm_ok p S t \<and>
    (\<forall>va'. (\<forall>i < n. va' \<noteq> va + of_nat i) \<longrightarrow> umem t p va' = umem s p va')"
proof -
  obtain r n m where m: "copyout p va src s = Ret r (put_mem m s)" "n \<le> length src" "uvm_ok p S (put_mem m s)"
    "copied s p va src n m" "\<forall>va'. uaddr (put_mem m s) p va' = uaddr s p va'"
    "r = 0 \<and> n = length src \<or> r = -1 \<and> n < length src \<and> uaddr s p (va + of_nat n) = None"
    using copyout_ok [OF assms] by blast
  note um = umem_copied [OF m(4,5)]
  obtain q bs where b: "copyin p va n (put_mem m s) = Ret (q, bs) (put_mem m s)" "length bs \<le> n"
    "\<forall>i < length bs. umem (put_mem m s) p (va + of_nat i) = Some (bs ! i)"
    "q = 0 \<and> length bs = n \<or> q = -1 \<and> length bs < n \<and> uaddr (put_mem m s) p (va + of_nat (length bs)) = None"
    using copyin_ok [OF m(3)] by blast
  have "q = 0 \<and> length bs = n" using b(4) um(1) [of "length bs"] by (auto simp: umem_def)
  moreover from this have "bs = take n src" using b(3) um(1) m(2) by (intro nth_equalityI) auto
  ultimately have "copyin p va n (put_mem m s) = Ret (0, take n src) (put_mem m s)" using b(1) by simp
  moreover have "umem (put_mem m s) p va' = umem s p va'" if "\<forall>i < n. va' \<noteq> va + of_nat i" for va'
    using um(2) [OF assms(1), of va'] that by blast
  ultimately show ?thesis using m(1,2,3,6) by (intro exI [of _ r] exI [of _ n] exI [of _ "put_mem m s"]) auto
qed

lemma uvm_ok_empty: "pt_ok p S s \<Longrightarrow> (\<And>va. ptmap s p va = None) \<Longrightarrow> uvm_ok p S s"
  by (simp add: uvm_ok_def upage_def)

theorem copyout_copyin_witness:
  "\<exists>(s :: kmem_state) p S t. uvm_ok p S s \<and> copyout p 0x1000 [1, 2] s = Ret (-1) t"
proof -
  obtain s0 :: kmem_state where s0: "kmem_inv s0" "free_pages s0 \<noteq> {}" using three_free by blast
  obtain p and s :: kmem_state where s: "pt_ok p {p} s" "\<And>va. ptmap s p va = None" by (rule uvmcreate_ok [OF s0]) blast
  note ok = uvm_ok_empty [OF s]
  have none: "uaddr s p va = None" for va using s(2) by (simp add: uaddr_def)
  obtain r t where t: "copyout p 0x1000 [1, 2] s = Ret r t"
    using copyout_copyin [OF ok, of "[1, 2]" "0x1000"] by auto
  have "copyout p 0x1000 [1, 2] s = Ret (-1) s"
    using walkaddr_none [OF ok none, of "0x1000"] by (subst copyout.simps) (simp add: Let_def)
  then show ?thesis using ok t(1) by (intro exI [of _ s] exI [of _ p] exI [of _ "{p}"] exI [of _ t]) auto
qed

section \<open>Single bytes\<close>

text \<open>The user memory does not depend on the other parts of the state.\<close>

lemma uvm_cong:
  assumes "mem t = mem s" "freelist t = freelist s" "kend t = kend s" "L_kmem \<in> held t \<longrightarrow> L_kmem \<in> held s"
  shows "uvm_ok p S s \<Longrightarrow> uvm_ok p S t" "uaddr t p va = uaddr s p va" "umem t p va = umem s p va"
proof -
  have u: "uaddr t p va = uaddr s p va" for va by (simp add: uaddr_def assms)
  then show "uaddr t p va = uaddr s p va" "umem t p va = umem s p va" by (simp_all add: umem_def assms)
  have "kfl t ps = kfl s ps" for ps by (simp add: kfl_def assms)
  then have "kmem_inv s \<Longrightarrow> kmem_inv t" "free_pages t = free_pages s"
    using assms(3,4) by (auto simp: kmem_inv_def free_pages_def)
  then show "uvm_ok p S s \<Longrightarrow> uvm_ok p S t" by (auto simp: uvm_ok_def pt_ok_def upage_def assms)
qed

lemma copyin_byte:
  assumes "uvm_ok p S s"
  shows "copyin p va 1 s = (case umem s p va of Some b \<Rightarrow> Ret (0, [b]) s | None \<Rightarrow> Ret (-1, []) s)"
proof -
  obtain r bs where b: "copyin p va 1 s = Ret (r, bs) s" "length bs \<le> 1" "\<forall>i < length bs. umem s p (va + of_nat i) = Some (bs ! i)"
    "r = 0 \<and> length bs = 1 \<or> r = -1 \<and> length bs < 1 \<and> uaddr s p (va + of_nat (length bs)) = None"
    using copyin_ok [OF assms] by blast
  show ?thesis
  proof (cases "r = 0 \<and> length bs = 1")
    case True
    then show ?thesis using b(1,3) by (cases bs) auto
  next
    case False
    then show ?thesis using b(1,4) by (auto simp: umem_def)
  qed
qed

lemma copyout_byte:
  assumes "uvm_ok p S s"
  obtains r m where "copyout p va [b] s = Ret r (put_mem m s)" "uvm_ok p S (put_mem m s)"
    "r = (if umem s p va = None then -1 else 0)"
    "\<forall>va'. umem (put_mem m s) p va' = (if va' = va \<and> umem s p va \<noteq> None then Some b else umem s p va')"
proof -
  have l: "length [b] < 2 ^ 64" by simp
  obtain r n m where m: "copyout p va [b] s = Ret r (put_mem m s)" "n \<le> length [b]" "uvm_ok p S (put_mem m s)" "copied s p va [b] n m"
    "\<forall>va'. uaddr (put_mem m s) p va' = uaddr s p va'" "r = 0 \<and> n = length [b] \<or> r = -1 \<and> n < length [b] \<and> uaddr s p (va + of_nat n) = None"
    using copyout_ok [OF assms l] by blast
  have n: "n = (if umem s p va = None then 0 else 1)" using m(4,6) by (cases "n = 0") (auto simp: umem_def copied_def)
  then have "r = (if umem s p va = None then -1 else 0)" using m(6) by (auto split: if_splits)
  moreover have "umem (put_mem m s) p va' = (if va' = va \<and> umem s p va \<noteq> None then Some b else umem s p va')" for va'
    using umem_copied(1) [OF m(4,5), where i = 0] umem_copied(2) [OF m(4,5) assms, of va'] n by (cases "umem s p va = None"; cases "va' = va") auto
  ultimately show ?thesis using that m(1,3) by blast
qed

end
