(* ===== verification/Fs.thy ===== *)
theory Fs
  imports Txn Ucopy
begin

text \<open>
  \<^verbatim>\<open>kernel/fs.c\<close> with the on-disk formats of \<^verbatim>\<open>kernel/fs.h\<close> and \<^verbatim>\<open>kernel/file.h\<close>: superblock, free-block bitmap,
  inodes, file contents, directories and path names. Pointers to table entries are indices. The
  destination of \<^verbatim>\<open>readi\<close> is a user address, a kernel address, or a variable of the caller, which gets the
  bytes as a list; the source of \<^verbatim>\<open>writei\<close> is a user address or the bytes of a kernel variable. Path names
  are byte lists without the terminating zero. Block and byte counters are naturals: no disk of the
  model has \<open>2^31\<close> blocks and no file \<open>2^31\<close> bytes.
\<close>

section \<open>Copying to and from a buffer\<close>

datatype dst = Udst uint64 | Kdst uint64 | Kvar
datatype src = Usrc uint64 | Ksrc "byte list"

definition either_copyout :: "dst \<Rightarrow> byte list \<Rightarrow> 'z kmem_state_scheme \<Rightarrow> ('z kmem_state_scheme, cint) res" where
  "either_copyout dst src s =
     (case dst of
        Udst a \<Rightarrow> bnd (myproc s) (\<lambda>p s. copyout (p_pagetable (procs s p)) a src s)
      | Kdst a \<Rightarrow> Ret 0 (put_mem (store_bytes (mem s) a src) s)
      | Kvar \<Rightarrow> Ret 0 s)"

definition either_copyin :: "src \<Rightarrow> nat \<Rightarrow> 'z kmem_state_scheme \<Rightarrow> ('z kmem_state_scheme, cint \<times> byte list) res" where
  "either_copyin src len s =
     (case src of
        Usrc a \<Rightarrow> bnd (myproc s) (\<lambda>p s. copyin (p_pagetable (procs s p)) a len s)
      | Ksrc bs \<Rightarrow> Ret (0, take len bs) s)"

text \<open>\<^verbatim>\<open>dst += m\<close> and \<^verbatim>\<open>src += m\<close>.\<close>

fun dst_add :: "dst \<Rightarrow> nat \<Rightarrow> dst" where
  "dst_add (Udst a) m = Udst (a + of_nat m)"
| "dst_add (Kdst a) m = Kdst (a + of_nat m)"
| "dst_add Kvar m = Kvar"

fun src_add :: "src \<Rightarrow> nat \<Rightarrow> src" where
  "src_add (Usrc a) m = Usrc (a + of_nat m)"
| "src_add (Ksrc bs) m = Ksrc (drop m bs)"

section \<open>Formats and state\<close>

definition ROOTINO :: uint32 where "ROOTINO = 1"
definition FSMAGIC :: uint32 where "FSMAGIC = 0x10203040"
definition NDIRECT :: nat where "NDIRECT = 12"
definition NINDIRECT :: nat where "NINDIRECT = BSIZE div 4"
definition MAXFILE :: nat where "MAXFILE = NDIRECT + NINDIRECT"
definition IPB :: nat where "IPB = BSIZE div 64"
definition BPB :: nat where "BPB = BSIZE * 8"
definition DIRSIZ :: nat where "DIRSIZ = 14"
definition NINODE :: nat where "NINODE = 50"

definition T_DIR :: uint16 where "T_DIR = 1"
definition T_FILE :: uint16 where "T_FILE = 2"
definition T_DEVICE :: uint16 where "T_DEVICE = 3"

record superblock =
  sb_magic :: uint32
  sb_size :: uint32
  sb_nblocks :: uint32
  sb_ninodes :: uint32
  sb_nlog :: uint32
  sb_logstart :: uint32
  sb_inodestart :: uint32
  sb_bmapstart :: uint32

record inode =
  i_dev :: uint32
  i_inum :: uint32
  i_ref :: int
  i_valid :: bool
  i_type :: uint16
  i_major :: uint16
  i_minor :: uint16
  i_nlink :: uint16
  i_size :: uint32
  i_addrs :: "uint32 list"

record fs_state = log_state +
  sb :: superblock
  itable :: "nat \<Rightarrow> inode"

definition IBLOCK :: "uint32 \<Rightarrow> superblock \<Rightarrow> uint32" where
  "IBLOCK i sblk = i div of_nat IPB + sb_inodestart sblk"

definition BBLOCK :: "uint32 \<Rightarrow> superblock \<Rightarrow> uint32" where
  "BBLOCK b sblk = b div of_nat BPB + sb_bmapstart sblk"

definition upd_inode :: "nat \<Rightarrow> (inode \<Rightarrow> inode) \<Rightarrow> 'z fs_state_scheme \<Rightarrow> 'z fs_state_scheme" where
  "upd_inode ip f s = s\<lparr>itable := (itable s)(ip := f (itable s ip))\<rparr>"

definition upd_data :: "nat \<Rightarrow> (block \<Rightarrow> block) \<Rightarrow> 'z bio_state_scheme \<Rightarrow> 'z bio_state_scheme" where
  "upd_data bp f s = upd_buf bp (\<lambda>b. b\<lparr>b_data := f (b_data b)\<rparr>) s"

section \<open>Superblock and blocks\<close>

definition get_superblock :: "block \<Rightarrow> superblock" where
  "get_superblock d = \<lparr>sb_magic = rd32 d 0, sb_size = rd32 d 4, sb_nblocks = rd32 d 8, sb_ninodes = rd32 d 12,
     sb_nlog = rd32 d 16, sb_logstart = rd32 d 20, sb_inodestart = rd32 d 24, sb_bmapstart = rd32 d 28\<rparr>"

definition readsb :: "uint32 \<Rightarrow> 'z fs_state_scheme \<Rightarrow> ('z fs_state_scheme, unit) res" where
  "readsb dev s =
     bnd (bread dev 1 s) (\<lambda>bp s.
     let s = s\<lparr>sb := get_superblock (b_data (bufs s bp))\<rparr> in
     brelse bp s)"

definition fsinit :: "uint32 \<Rightarrow> 'z fs_state_scheme \<Rightarrow> ('z fs_state_scheme, unit) res" where
  "fsinit dev s =
     bnd (readsb dev s) (\<lambda>_ s.
     if sb_magic (sb s) \<noteq> FSMAGIC then Panic ''invalid file system''
     else initlog dev (sb_logstart (sb s)) (sb_nlog (sb s)) s)"

definition bzero :: "uint32 \<Rightarrow> uint32 \<Rightarrow> 'z fs_state_scheme \<Rightarrow> ('z fs_state_scheme, unit) res" where
  "bzero dev bno s =
     bnd (bread dev bno s) (\<lambda>bp s.
     let s = upd_data bp (\<lambda>_. replicate BSIZE 0) s in
     bnd (log_write bp s) (\<lambda>_ s.
     brelse bp s))"

text \<open>Bit \<open>bi\<close> of a bitmap block.\<close>

definition bit_mask :: "nat \<Rightarrow> byte" where
  "bit_mask bi = push_bit (bi mod 8) 1"

definition bit_free :: "block \<Rightarrow> nat \<Rightarrow> bool" where
  "bit_free d bi \<longleftrightarrow> d ! (bi div 8) AND bit_mask bi = 0"

definition bit_set :: "nat \<Rightarrow> block \<Rightarrow> block" where
  "bit_set bi d = d[bi div 8 := d ! (bi div 8) OR bit_mask bi]"

definition bit_clear :: "nat \<Rightarrow> block \<Rightarrow> block" where
  "bit_clear bi d = d[bi div 8 := d ! (bi div 8) AND NOT (bit_mask bi)]"

fun balloc_loop :: "uint32 \<Rightarrow> nat list \<Rightarrow> 'z fs_state_scheme \<Rightarrow> ('z fs_state_scheme, uint32) res" where
  "balloc_loop dev [] s = bnd (printf (''balloc: out of blocks'' @ [CHR 0x0A]) [] s) (\<lambda>_ s. Ret 0 s)"
| "balloc_loop dev (b # bs) s =
     bnd (bread dev (BBLOCK (of_nat b) (sb s)) s) (\<lambda>bp s.
     case find (bit_free (b_data (bufs s bp))) [0..<min BPB (unat (sb_size (sb s)) - b)] of
       Some bi \<Rightarrow>
         let s = upd_data bp (bit_set bi) s in
         bnd (log_write bp s) (\<lambda>_ s.
         bnd (brelse bp s) (\<lambda>_ s.
         bnd (bzero dev (of_nat (b + bi)) s) (\<lambda>_ s.
         Ret (of_nat (b + bi)) s)))
     | None \<Rightarrow> bnd (brelse bp s) (\<lambda>_ s. balloc_loop dev bs s))"

definition balloc :: "uint32 \<Rightarrow> 'z fs_state_scheme \<Rightarrow> ('z fs_state_scheme, uint32) res" where
  "balloc dev s = balloc_loop dev (map (\<lambda>k. k * BPB) [0..<(unat (sb_size (sb s)) + (BPB - 1)) div BPB]) s"

definition bfree :: "uint32 \<Rightarrow> uint32 \<Rightarrow> 'z fs_state_scheme \<Rightarrow> ('z fs_state_scheme, unit) res" where
  "bfree dev b s =
     bnd (bread dev (BBLOCK b (sb s)) s) (\<lambda>bp s.
     let bi = unat b mod BPB in
     if bit_free (b_data (bufs s bp)) bi then Panic ''freeing free block''
     else let s = upd_data bp (bit_clear bi) s in
       bnd (log_write bp s) (\<lambda>_ s.
       brelse bp s))"

section \<open>Inodes\<close>

definition iinit :: "'z fs_state_scheme \<Rightarrow> ('z fs_state_scheme, unit) res" where
  "iinit s = foreach [0..<NINODE] (\<lambda>i s. Ret () (initsleeplock (SL_inode i) ''inode'' s)) s"

text \<open>The place of an inode in its block, and its fields there: \<^verbatim>\<open>struct dinode\<close> has 64 bytes.\<close>

definition dinode_off :: "uint32 \<Rightarrow> nat" where
  "dinode_off inum = 64 * (unat inum mod IPB)"

definition put_dinode :: "inode \<Rightarrow> block \<Rightarrow> block" where
  "put_dinode n d =
     (let off = dinode_off (i_inum n);
          d = wr16 d off (i_type n);
          d = wr16 d (off + 2) (i_major n);
          d = wr16 d (off + 4) (i_minor n);
          d = wr16 d (off + 6) (i_nlink n);
          d = wr32 d (off + 8) (i_size n)
      in splice d (off + 12) (concat (map (le_enc 4) (i_addrs n))))"

definition get_dinode :: "block \<Rightarrow> inode \<Rightarrow> inode" where
  "get_dinode d n =
     (let off = dinode_off (i_inum n)
      in n\<lparr>i_type := rd16 d off, i_major := rd16 d (off + 2), i_minor := rd16 d (off + 4), i_nlink := rd16 d (off + 6),
           i_size := rd32 d (off + 8), i_addrs := map (\<lambda>k. rd32 d (off + 12 + 4 * k)) [0..<NDIRECT + 1]\<rparr>)"

lemma dinode_off_le: "dinode_off inum + 64 \<le> BSIZE"
proof -
  have "unat inum mod IPB < 16" by (simp add: IPB_def BSIZE_def)
  then show ?thesis by (simp add: dinode_off_def BSIZE_def)
qed

lemma length_dinode [simp]:
  "length d = BSIZE \<Longrightarrow> length (i_addrs n) = NDIRECT + 1 \<Longrightarrow> length (put_dinode n d) = BSIZE"
  "length (i_addrs (get_dinode d n)) = NDIRECT + 1"
proof -
  assume len: "length d = BSIZE" "length (i_addrs n) = NDIRECT + 1"
  have "length (concat (map (le_enc 4) (i_addrs n))) = 52" using len(2)
    by (simp add: length_concat comp_def sum_list_triv NDIRECT_def)
  then show "length (put_dinode n d) = BSIZE" using len(1) dinode_off_le [of "i_inum n"]
    by (simp add: put_dinode_def Let_def BSIZE_def)
qed (simp add: get_dinode_def Let_def)

definition iupdate :: "nat \<Rightarrow> 'z fs_state_scheme \<Rightarrow> ('z fs_state_scheme, unit) res" where
  "iupdate ip s =
     bnd (bread (i_dev (itable s ip)) (IBLOCK (i_inum (itable s ip)) (sb s)) s) (\<lambda>bp s.
     let s = upd_data bp (put_dinode (itable s ip)) s in
     bnd (log_write bp s) (\<lambda>_ s.
     brelse bp s))"

text \<open>
  The scan of \<^verbatim>\<open>iget\<close>: the entry of the inode if it is in the table, and the first free entry seen before it.
\<close>

fun iget_scan :: "nat list \<Rightarrow> uint32 \<Rightarrow> uint32 \<Rightarrow> nat option \<Rightarrow> (nat \<Rightarrow> inode) \<Rightarrow> nat option \<times> nat option" where
  "iget_scan [] dev inum emp tb = (None, emp)"
| "iget_scan (ip # ips) dev inum emp tb =
     (if i_ref (tb ip) > 0 \<and> i_dev (tb ip) = dev \<and> i_inum (tb ip) = inum then (Some ip, emp)
      else iget_scan ips dev inum (if emp = None \<and> i_ref (tb ip) = 0 then Some ip else emp) tb)"

definition iget :: "uint32 \<Rightarrow> uint32 \<Rightarrow> 'z fs_state_scheme \<Rightarrow> ('z fs_state_scheme, nat) res" where
  "iget dev inum s =
     bnd (acq L_itable s) (\<lambda>_ s.
     case iget_scan [0..<NINODE] dev inum None (itable s) of
       (Some ip, _) \<Rightarrow>
         let s = upd_inode ip (\<lambda>n. n\<lparr>i_ref := i_ref n + 1\<rparr>) s in
         bnd (rel L_itable s) (\<lambda>_ s. Ret ip s)
     | (None, None) \<Rightarrow> Panic ''iget: no inodes''
     | (None, Some ip) \<Rightarrow>
         let s = upd_inode ip (\<lambda>n. n\<lparr>i_dev := dev, i_inum := inum, i_ref := 1, i_valid := False\<rparr>) s in
         bnd (rel L_itable s) (\<lambda>_ s. Ret ip s))"

fun ialloc_loop :: "uint32 \<Rightarrow> uint16 \<Rightarrow> nat list \<Rightarrow> 'z fs_state_scheme \<Rightarrow> ('z fs_state_scheme, nat option) res" where
  "ialloc_loop dev type [] s = bnd (printf (''ialloc: no inodes'' @ [CHR 0x0A]) [] s) (\<lambda>_ s. Ret None s)"
| "ialloc_loop dev type (inum # is) s =
     bnd (bread dev (IBLOCK (of_nat inum) (sb s)) s) (\<lambda>bp s.
     let off = dinode_off (of_nat inum) in
     if rd16 (b_data (bufs s bp)) off = 0 then
       let s = upd_data bp (\<lambda>d. wr16 (splice d off (replicate 64 0)) off type) s in
       bnd (log_write bp s) (\<lambda>_ s.
       bnd (brelse bp s) (\<lambda>_ s.
       bnd (iget dev (of_nat inum) s) (\<lambda>ip s. Ret (Some ip) s)))
     else bnd (brelse bp s) (\<lambda>_ s. ialloc_loop dev type is s))"

definition ialloc :: "uint32 \<Rightarrow> uint16 \<Rightarrow> 'z fs_state_scheme \<Rightarrow> ('z fs_state_scheme, nat option) res" where
  "ialloc dev type s = ialloc_loop dev type [1..<unat (sb_ninodes (sb s))] s"

definition idup :: "nat \<Rightarrow> 'z fs_state_scheme \<Rightarrow> ('z fs_state_scheme, nat) res" where
  "idup ip s =
     bnd (acq L_itable s) (\<lambda>_ s.
     let s = upd_inode ip (\<lambda>n. n\<lparr>i_ref := i_ref n + 1\<rparr>) s in
     bnd (rel L_itable s) (\<lambda>_ s. Ret ip s))"

definition ilock :: "nat \<Rightarrow> 'z fs_state_scheme \<Rightarrow> ('z fs_state_scheme, unit) res" where
  "ilock ip s =
     (if i_ref (itable s ip) < 1 then Panic ''ilock''
      else bnd (acquiresleep (SL_inode ip) s) (\<lambda>_ s.
        if \<not> i_valid (itable s ip) then
          bnd (bread (i_dev (itable s ip)) (IBLOCK (i_inum (itable s ip)) (sb s)) s) (\<lambda>bp s.
          let s = upd_inode ip (get_dinode (b_data (bufs s bp))) s in
          bnd (brelse bp s) (\<lambda>_ s.
          let s = upd_inode ip (\<lambda>n. n\<lparr>i_valid := True\<rparr>) s in
          if i_type (itable s ip) = 0 then Panic ''ilock: no type'' else Ret () s))
        else Ret () s))"

definition iunlock :: "nat \<Rightarrow> 'z fs_state_scheme \<Rightarrow> ('z fs_state_scheme, unit) res" where
  "iunlock ip s =
     bnd (holdingsleep (SL_inode ip) s) (\<lambda>h s.
     if \<not> h \<or> i_ref (itable s ip) < 1 then Panic ''iunlock''
     else releasesleep (SL_inode ip) s)"

section \<open>Block map, truncation, release\<close>

definition bmap :: "nat \<Rightarrow> uint32 \<Rightarrow> 'z fs_state_scheme \<Rightarrow> ('z fs_state_scheme, uint32) res" where
  "bmap ip bn s =
     (if unat bn < NDIRECT then
        let addr = i_addrs (itable s ip) ! unat bn in
        if addr = 0 then
          bnd (balloc (i_dev (itable s ip)) s) (\<lambda>addr s.
          if addr = 0 then Ret 0 s
          else Ret addr (upd_inode ip (\<lambda>n. n\<lparr>i_addrs := (i_addrs n)[unat bn := addr]\<rparr>) s))
        else Ret addr s
      else let bn = unat bn - NDIRECT in
      if bn < NINDIRECT then
        let addr = i_addrs (itable s ip) ! NDIRECT in
        bnd (if addr = 0 then
               bnd (balloc (i_dev (itable s ip)) s) (\<lambda>addr s.
               if addr = 0 then Ret 0 s
               else Ret addr (upd_inode ip (\<lambda>n. n\<lparr>i_addrs := (i_addrs n)[NDIRECT := addr]\<rparr>) s))
             else Ret addr s) (\<lambda>addr s.
        if addr = 0 then Ret 0 s
        else bnd (bread (i_dev (itable s ip)) addr s) (\<lambda>bp s.
          let addr = rd32 (b_data (bufs s bp)) (4 * bn) in
          bnd (if addr = 0 then
                 bnd (balloc (i_dev (itable s ip)) s) (\<lambda>addr s.
                 if addr \<noteq> 0 then
                   let s = upd_data bp (\<lambda>d. wr32 d (4 * bn) addr) s in
                   bnd (log_write bp s) (\<lambda>_ s. Ret addr s)
                 else Ret addr s)
               else Ret addr s) (\<lambda>addr s.
          bnd (brelse bp s) (\<lambda>_ s. Ret addr s))))
      else Panic ''bmap: out of range'')"

definition itrunc_direct :: "nat \<Rightarrow> nat \<Rightarrow> 'z fs_state_scheme \<Rightarrow> ('z fs_state_scheme, unit) res" where
  "itrunc_direct ip i s =
     (if i_addrs (itable s ip) ! i \<noteq> 0 then
        bnd (bfree (i_dev (itable s ip)) (i_addrs (itable s ip) ! i) s) (\<lambda>_ s.
        Ret () (upd_inode ip (\<lambda>n. n\<lparr>i_addrs := (i_addrs n)[i := 0]\<rparr>) s))
      else Ret () s)"

definition itrunc :: "nat \<Rightarrow> 'z fs_state_scheme \<Rightarrow> ('z fs_state_scheme, unit) res" where
  "itrunc ip s =
     bnd (foreach [0..<NDIRECT] (itrunc_direct ip) s) (\<lambda>_ s.
     bnd (if i_addrs (itable s ip) ! NDIRECT \<noteq> 0 then
            bnd (bread (i_dev (itable s ip)) (i_addrs (itable s ip) ! NDIRECT) s) (\<lambda>bp s.
            bnd (foreach [0..<NINDIRECT] (\<lambda>j s.
                   let a = rd32 (b_data (bufs s bp)) (4 * j) in
                   if a \<noteq> 0 then bfree (i_dev (itable s ip)) a s else Ret () s) s) (\<lambda>_ s.
            bnd (brelse bp s) (\<lambda>_ s.
            bnd (bfree (i_dev (itable s ip)) (i_addrs (itable s ip) ! NDIRECT) s) (\<lambda>_ s.
            Ret () (upd_inode ip (\<lambda>n. n\<lparr>i_addrs := (i_addrs n)[NDIRECT := 0]\<rparr>) s)))))
          else Ret () s) (\<lambda>_ s.
     let s = upd_inode ip (\<lambda>n. n\<lparr>i_size := 0\<rparr>) s in
     iupdate ip s))"

definition iput :: "nat \<Rightarrow> 'z fs_state_scheme \<Rightarrow> ('z fs_state_scheme, unit) res" where
  "iput ip s =
     bnd (acq L_itable s) (\<lambda>_ s.
     bnd (if i_ref (itable s ip) = 1 \<and> i_valid (itable s ip) \<and> i_nlink (itable s ip) = 0 then
            bnd (acquiresleep (SL_inode ip) s) (\<lambda>_ s.
            bnd (rel L_itable s) (\<lambda>_ s.
            bnd (itrunc ip s) (\<lambda>_ s.
            let s = upd_inode ip (\<lambda>n. n\<lparr>i_type := 0\<rparr>) s in
            bnd (iupdate ip s) (\<lambda>_ s.
            let s = upd_inode ip (\<lambda>n. n\<lparr>i_valid := False\<rparr>) s in
            bnd (releasesleep (SL_inode ip) s) (\<lambda>_ s.
            acq L_itable s)))))
          else Ret () s) (\<lambda>_ s.
     let s = upd_inode ip (\<lambda>n. n\<lparr>i_ref := i_ref n - 1\<rparr>) s in
     rel L_itable s))"

definition iunlockput :: "nat \<Rightarrow> 'z fs_state_scheme \<Rightarrow> ('z fs_state_scheme, unit) res" where
  "iunlockput ip s = bnd (iunlock ip s) (\<lambda>_ s. iput ip s)"

section \<open>File contents\<close>

text \<open>\<^verbatim>\<open>struct stat\<close>; \<open>pad\<close> are the four bytes of padding, which \<^verbatim>\<open>stati\<close> does not set.\<close>

definition stati :: "nat \<Rightarrow> byte list \<Rightarrow> 'z fs_state_scheme \<Rightarrow> byte list" where
  "stati ip pad s =
     (let n = itable s ip in
      le_enc 4 (i_dev n) @ le_enc 4 (i_inum n) @ le_enc 2 (i_type n) @ le_enc 2 (i_nlink n) @ pad @
      le_enc 8 (ucast (i_size n) :: uint64))"

lemma block_step:
  assumes "tot < n"
  shows "n - (tot + min (n - tot) (BSIZE - off mod BSIZE)) < n - tot"
proof -
  have "0 < BSIZE - off mod BSIZE" by (simp add: BSIZE_def)
  then have "0 < min (n - tot) (BSIZE - off mod BSIZE)" using assms by simp
  then show ?thesis using assms by linarith
qed

function readi_loop ::
  "nat \<Rightarrow> dst \<Rightarrow> nat \<Rightarrow> nat \<Rightarrow> nat \<Rightarrow> byte list \<Rightarrow> 'z fs_state_scheme \<Rightarrow> ('z fs_state_scheme, cint \<times> byte list) res" where
  "readi_loop ip dst off tot n acc s =
     (if tot < n then
        bnd (bmap ip (of_nat (off div BSIZE)) s) (\<lambda>addr s.
        if addr = 0 then Ret (of_nat tot, acc) s
        else bnd (bread (i_dev (itable s ip)) addr s) (\<lambda>bp s.
          let m = min (n - tot) (BSIZE - off mod BSIZE);
              bs = slice (off mod BSIZE) m (b_data (bufs s bp))
          in bnd (either_copyout dst bs s) (\<lambda>r s.
             if r = -1 then bnd (brelse bp s) (\<lambda>_ s. Ret (-1, acc) s)
             else bnd (brelse bp s) (\<lambda>_ s.
               readi_loop ip (dst_add dst m) (off + m) (tot + m) n (acc @ bs) s))))
      else Ret (of_nat tot, acc) s)"
  by auto
termination by (relation "measure (\<lambda>(_, _, _, tot, n, _, _). n - tot)") (auto simp: block_step)

definition readi :: "nat \<Rightarrow> dst \<Rightarrow> uint32 \<Rightarrow> uint32 \<Rightarrow> 'z fs_state_scheme \<Rightarrow> ('z fs_state_scheme, cint \<times> byte list) res" where
  "readi ip dst off n s =
     (let sz = i_size (itable s ip) in
      if off > sz \<or> off + n < off then Ret (0, []) s
      else let n = (if off + n > sz then sz - off else n) in
        readi_loop ip dst (unat off) 0 (unat n) [] s)"

text \<open>The result is the number of bytes written and the offset reached.\<close>

function writei_loop ::
  "nat \<Rightarrow> src \<Rightarrow> nat \<Rightarrow> nat \<Rightarrow> nat \<Rightarrow> 'z fs_state_scheme \<Rightarrow> ('z fs_state_scheme, nat \<times> nat) res" where
  "writei_loop ip src off tot n s =
     (if tot < n then
        bnd (bmap ip (of_nat (off div BSIZE)) s) (\<lambda>addr s.
        if addr = 0 then Ret (tot, off) s
        else bnd (bread (i_dev (itable s ip)) addr s) (\<lambda>bp s.
          let m = min (n - tot) (BSIZE - off mod BSIZE) in
          bnd (either_copyin src m s) (\<lambda>(r, bs) s.
          let s = upd_data bp (\<lambda>d. splice d (off mod BSIZE) bs) s in
          if r = -1 then bnd (brelse bp s) (\<lambda>_ s. Ret (tot, off) s)
          else bnd (log_write bp s) (\<lambda>_ s.
            bnd (brelse bp s) (\<lambda>_ s.
            writei_loop ip (src_add src m) (off + m) (tot + m) n s)))))
      else Ret (tot, off) s)"
  by auto
termination by (relation "measure (\<lambda>(_, _, _, tot, n, _). n - tot)") (auto simp: block_step)

definition writei :: "nat \<Rightarrow> src \<Rightarrow> uint32 \<Rightarrow> uint32 \<Rightarrow> 'z fs_state_scheme \<Rightarrow> ('z fs_state_scheme, cint) res" where
  "writei ip src off n s =
     (if off > i_size (itable s ip) \<or> off + n < off then Ret (-1) s
      else if unat (off + n) > MAXFILE * BSIZE then Ret (-1) s
      else bnd (writei_loop ip src (unat off) 0 (unat n) s) (\<lambda>(tot, off) s.
        let s = (if off > unat (i_size (itable s ip)) then upd_inode ip (\<lambda>n. n\<lparr>i_size := of_nat off\<rparr>) s else s) in
        bnd (iupdate ip s) (\<lambda>_ s.
        Ret (of_nat tot) s)))"

declare readi_loop.simps [simp del] writei_loop.simps [simp del]

section \<open>Directories\<close>

definition namecmp :: "byte list \<Rightarrow> byte list \<Rightarrow> int" where
  "namecmp s t = strncmp (lview s) (lview t) DIRSIZ"

text \<open>A directory entry: two bytes of inode number, fourteen of name.\<close>

definition de_inum :: "byte list \<Rightarrow> uint16" where "de_inum de = rd16 de 0"
definition de_name :: "byte list \<Rightarrow> byte list" where "de_name de = slice 2 DIRSIZ de"

text \<open>The offsets a loop over a directory of \<open>sz\<close> bytes visits.\<close>

definition de_offsets :: "nat \<Rightarrow> nat list" where
  "de_offsets sz = map (\<lambda>k. 16 * k) [0..<(sz + 15) div 16]"

fun dirlookup_loop ::
  "nat \<Rightarrow> byte list \<Rightarrow> nat list \<Rightarrow> 'z fs_state_scheme \<Rightarrow> ('z fs_state_scheme, (nat \<times> uint32) option) res" where
  "dirlookup_loop dp name [] s = Ret None s"
| "dirlookup_loop dp name (off # offs) s =
     bnd (readi dp Kvar (of_nat off) 16 s) (\<lambda>(r, de) s.
     if r \<noteq> 16 then Panic ''dirlookup read''
     else if de_inum de = 0 then dirlookup_loop dp name offs s
     else if namecmp name (de_name de) = 0 then
       bnd (iget (i_dev (itable s dp)) (ucast (de_inum de)) s) (\<lambda>ip s. Ret (Some (ip, of_nat off)) s)
     else dirlookup_loop dp name offs s)"

definition dirlookup :: "nat \<Rightarrow> byte list \<Rightarrow> 'z fs_state_scheme \<Rightarrow> ('z fs_state_scheme, (nat \<times> uint32) option) res" where
  "dirlookup dp name s =
     (if i_type (itable s dp) \<noteq> T_DIR then Panic ''dirlookup not DIR''
      else dirlookup_loop dp name (de_offsets (unat (i_size (itable s dp)))) s)"

text \<open>The offset of the first free entry, or the end of the directory.\<close>

fun dirlink_scan :: "nat \<Rightarrow> nat list \<Rightarrow> nat \<Rightarrow> 'z fs_state_scheme \<Rightarrow> ('z fs_state_scheme, nat) res" where
  "dirlink_scan dp [] last_off s = Ret last_off s"
| "dirlink_scan dp (off # offs) last_off s =
     bnd (readi dp Kvar (of_nat off) 16 s) (\<lambda>(r, de) s.
     if r \<noteq> 16 then Panic ''dirlink read''
     else if de_inum de = 0 then Ret off s
     else dirlink_scan dp offs (off + 16) s)"

definition dirlink :: "nat \<Rightarrow> byte list \<Rightarrow> uint32 \<Rightarrow> 'z fs_state_scheme \<Rightarrow> ('z fs_state_scheme, cint) res" where
  "dirlink dp name inum s =
     bnd (dirlookup dp name s) (\<lambda>r s.
     case r of
       Some (ip, _) \<Rightarrow> bnd (iput ip s) (\<lambda>_ s. Ret (-1) s)
     | None \<Rightarrow>
         bnd (dirlink_scan dp (de_offsets (unat (i_size (itable s dp)))) 0 s) (\<lambda>off s.
         let de = le_enc 2 (ucast inum :: uint16) @ strncpy (lview name) DIRSIZ in
         bnd (writei dp (Ksrc de) (of_nat off) 16 s) (\<lambda>r s.
         if r \<noteq> 16 then Ret (-1) s else Ret 0 s)))"

section \<open>Path names\<close>

abbreviation slash :: byte where "slash \<equiv> 47"

text \<open>The rest of the path and the element taken off it.\<close>

definition skipelem :: "byte list \<Rightarrow> (byte list \<times> byte list) option" where
  "skipelem path =
     (let path = dropWhile (\<lambda>c. c = slash) path in
      if path = [] then None
      else let s = takeWhile (\<lambda>c. c \<noteq> slash) path;
               path = dropWhile (\<lambda>c. c \<noteq> slash) path;
               name = (if length s \<ge> DIRSIZ then take DIRSIZ s else s)
           in Some (dropWhile (\<lambda>c. c = slash) path, name))"

lemma skipelem_shorter: "skipelem path = Some (rest, name) \<Longrightarrow> length rest < length path"
proof -
  assume a: "skipelem path = Some (rest, name)"
  let ?p = "dropWhile (\<lambda>c. c = slash) path"
  have ne: "?p \<noteq> []" and r: "rest = dropWhile (\<lambda>c. c = slash) (dropWhile (\<lambda>c. c \<noteq> slash) ?p)"
    using a by (auto simp: skipelem_def Let_def split: if_splits)
  obtain c cs where c: "?p = c # cs" using ne by (cases ?p) auto
  then have "c \<noteq> slash" using hd_dropWhile [OF ne] by simp
  then have "length (dropWhile (\<lambda>c. c \<noteq> slash) ?p) \<le> length cs" using c length_dropWhile_le by simp
  moreover have "length rest \<le> length (dropWhile (\<lambda>c. c \<noteq> slash) ?p)" unfolding r by (rule length_dropWhile_le)
  moreover have "length cs < length path" using c length_dropWhile_le [of "\<lambda>c. c = slash" path] by simp
  ultimately show ?thesis by simp
qed

text \<open>The inode found, or none, and the last name copied.\<close>

function namex_loop ::
  "nat \<Rightarrow> byte list \<Rightarrow> bool \<Rightarrow> byte list \<Rightarrow> 'z fs_state_scheme \<Rightarrow> ('z fs_state_scheme, nat option \<times> byte list) res" where
  "namex_loop ip path nameiparent name s =
     (case skipelem path of
        None \<Rightarrow> if nameiparent then bnd (iput ip s) (\<lambda>_ s. Ret (None, name) s) else Ret (Some ip, name) s
      | Some (path, name) \<Rightarrow>
          bnd (ilock ip s) (\<lambda>_ s.
          if i_type (itable s ip) \<noteq> T_DIR then bnd (iunlockput ip s) (\<lambda>_ s. Ret (None, name) s)
          else if nameiparent \<and> path = [] then bnd (iunlock ip s) (\<lambda>_ s. Ret (Some ip, name) s)
          else bnd (dirlookup ip name s) (\<lambda>r s.
            case r of
              None \<Rightarrow> bnd (iunlockput ip s) (\<lambda>_ s. Ret (None, name) s)
            | Some (next_ip, _) \<Rightarrow> bnd (iunlockput ip s) (\<lambda>_ s. namex_loop next_ip path nameiparent name s))))"
  by pat_completeness auto
termination by (relation "measure (\<lambda>(_, path, _). length path)") (auto dest: skipelem_shorter)

declare namex_loop.simps [simp del]

definition namex :: "byte list \<Rightarrow> bool \<Rightarrow> 'z fs_state_scheme \<Rightarrow> ('z fs_state_scheme, nat option \<times> byte list) res" where
  "namex path nameiparent s =
     bnd (if path \<noteq> [] \<and> hd path = slash then iget ROOTDEV ROOTINO s
          else bnd (myproc s) (\<lambda>p s.
            case p_cwd (procs s p) of None \<Rightarrow> Panic ''kerneltrap'' | Some cwd \<Rightarrow> idup cwd s)) (\<lambda>ip s.
     namex_loop ip path nameiparent [] s)"

definition namei :: "byte list \<Rightarrow> 'z fs_state_scheme \<Rightarrow> ('z fs_state_scheme, nat option) res" where
  "namei path s = bnd (namex path False s) (\<lambda>(ip, _) s. Ret ip s)"

definition nameiparent :: "byte list \<Rightarrow> 'z fs_state_scheme \<Rightarrow> ('z fs_state_scheme, nat option \<times> byte list) res" where
  "nameiparent path s = namex path True s"

end
