(* ===== verification/Ring.thy ===== *)
theory Ring
  imports Prelude
begin

text \<open>
  Circular buffers with counters that only grow and wrap around at their width: pipes, the console's input buffer and the
  transmit buffer of the serial port store the next element at \<open>w mod sz\<close> and take the oldest at \<open>r mod sz\<close>. The locale
  shows once that such a buffer is a queue; the size must divide the range of the counters.
\<close>

definition ring_queue :: "nat \<Rightarrow> (nat \<Rightarrow> 'e) \<Rightarrow> 'a::len word \<Rightarrow> 'a word \<Rightarrow> 'e list" where
  "ring_queue sz buf r w = map (\<lambda>k. buf ((unat r + k) mod sz)) [0..<unat (w - r)]"

lemma length_ring [simp]: "length (ring_queue sz buf r w) = unat (w - r)"
  by (simp add: ring_queue_def)

lemma ring_empty [simp]: "ring_queue sz buf r r = []"
  by (simp add: ring_queue_def)

lemma ring_Nil_iff: "ring_queue sz buf r w = [] \<longleftrightarrow> w = r"
  by (simp add: ring_queue_def unat_eq_0)

lemma unat_add_1: "unat (x :: 'a::len word) + 1 < 2 ^ LENGTH('a) \<Longrightarrow> unat (x + 1) = unat x + 1"
  by (simp add: unat_word_ariths(1))

locale ring =
  fixes sz :: nat and ty :: "'a::len itself"
  assumes dvd: "sz dvd 2 ^ LENGTH('a)" and less: "sz < 2 ^ LENGTH('a)" and pos: "0 < sz"
begin

lemma index_add: "unat (r + of_nat k :: 'a word) mod sz = (unat r + k) mod sz"
proof -
  have "unat (r + of_nat k) = (unat r + k) mod 2 ^ LENGTH('a)"
    by (simp add: unat_word_ariths(1) unat_of_nat take_bit_eq_mod mod_simps)
  then show ?thesis using dvd by (simp add: mod_mod_cancel)
qed

lemma index_w: "unat (w :: 'a word) mod sz = (unat r + unat (w - r)) mod sz"
  using index_add [of r "unat (w - r)"] by simp

lemma push:
  assumes "unat (w - r :: 'a word) < sz"
  shows "ring_queue sz (buf(unat w mod sz := x)) r (w + 1) = ring_queue sz buf r w @ [x]"
proof -
  let ?n = "unat (w - r)"
  have n: "unat (w + 1 - r) = Suc ?n"
    using unat_add_1 [of "w - r"] assms less by (simp add: algebra_simps)
  have "(buf(unat w mod sz := x)) ((unat r + k) mod sz) = buf ((unat r + k) mod sz)" if "k < ?n" for k
  proof -
    have "(unat r + k) mod sz \<noteq> (unat r + ?n) mod sz"
    proof
      assume "(unat r + k) mod sz = (unat r + ?n) mod sz"
      then have "sz dvd (unat r + ?n) - (unat r + k)" using that by (metis mod_eq_dvd_iff_nat add_le_cancel_left less_imp_le)
      then have "sz dvd ?n - k" by simp
      then show False using that assms by (auto dest: dvd_imp_le)
    qed
    then show ?thesis by (simp add: index_w [of w r])
  qed
  then show ?thesis by (simp add: ring_queue_def n index_w [of w r])
qed

lemma pop:
  assumes "w \<noteq> (r :: 'a word)"
  shows "ring_queue sz buf r w = buf (unat r mod sz) # ring_queue sz buf (r + 1) w"
proof -
  have "unat (w - r) \<noteq> 0" using assms by (simp add: unat_eq_0)
  moreover have "unat (w - r - 1) = unat (w - r) - 1" using assms by (intro unat_minus_one) simp
  ultimately have n: "unat (w - r) = Suc (unat (w - (r + 1)))" by (simp add: algebra_simps)
  have "(unat (r + 1) + k) mod sz = (unat r + Suc k) mod sz" for k
    using index_add [of "r + 1" k] index_add [of r "Suc k"] by (simp add: algebra_simps)
  then show ?thesis unfolding ring_queue_def n by (simp add: upt_conv_Cons map_Suc_upt [symmetric] del: upt_Suc)
qed

lemma pop_many: "n \<le> unat (w - r) \<Longrightarrow> ring_queue sz buf (r + of_nat n) w = drop n (ring_queue sz buf (r :: 'a word) w)"
proof (induction n arbitrary: r)
  case (Suc n)
  have ne: "w \<noteq> r" using Suc.prems by auto
  have "length (ring_queue sz buf r w) = Suc (length (ring_queue sz buf (r + 1) w))" using pop [OF ne, of buf] by simp
  then have "n \<le> unat (w - (r + 1))" using Suc.prems by simp
  from Suc.IH [OF this] show ?case using pop [OF ne, of buf] by (simp add: algebra_simps)
qed simp

lemma full_iff:
  assumes "unat (w - r :: 'a word) \<le> sz"
  shows "w = r + of_nat sz \<longleftrightarrow> unat (w - r) = sz"
proof -
  have "unat (of_nat sz :: 'a word) = sz" using less by (simp add: unat_of_nat take_bit_nat_eq_self)
  moreover have "w = r + of_nat sz \<longleftrightarrow> w - r = of_nat sz" by (simp add: algebra_simps)
  ultimately show ?thesis by (metis unsigned_word_eqI)
qed

lemma last_ring:
  assumes "w \<noteq> (r :: 'a word)"
  shows "last (ring_queue sz buf r w) = buf (unat (w - 1) mod sz)"
proof -
  have n: "unat (w - r) \<noteq> 0" using assms by (simp add: unat_eq_0)
  have "unat (w - r - 1) = unat (w - r) - 1" using assms by (intro unat_minus_one) simp
  moreover have "w - 1 - r = w - r - 1" by simp
  ultimately have "unat (w - 1 - r) = unat (w - r) - 1" by (simp only:)
  then have "unat (w - 1) mod sz = (unat r + (unat (w - r) - 1)) mod sz" using index_w [of "w - 1" r] by simp
  then show ?thesis using n by (simp add: ring_queue_def last_map)
qed

lemma append:
  assumes "unat (m - r) + unat (w - m :: 'a word) = unat (w - r)"
  shows "ring_queue sz buf r w = ring_queue sz buf r m @ ring_queue sz buf m w"
proof (rule nth_equalityI)
  fix k assume k: "k < length (ring_queue sz buf r w)"
  have "(unat m + j) mod sz = (unat r + (unat (m - r) + j)) mod sz" for j
  proof -
    have "(unat m + j) mod sz = (unat m mod sz + j) mod sz" by (simp add: mod_simps)
    also have "\<dots> = (unat r + unat (m - r) + j) mod sz" unfolding index_w [of m r] by (simp add: mod_simps)
    finally show ?thesis by (simp add: add.assoc)
  qed
  then show "ring_queue sz buf r w ! k = (ring_queue sz buf r m @ ring_queue sz buf m w) ! k"
    using k assms by (auto simp: ring_queue_def nth_append)
qed (use assms in simp)

lemma drop_last:
  assumes "w \<noteq> (r :: 'a word)"
  shows "ring_queue sz buf r (w - 1) = butlast (ring_queue sz buf r w)"
proof -
  have "unat (w - r - 1) = unat (w - r) - 1" using assms by (intro unat_minus_one) simp
  moreover have "w - 1 - r = w - r - 1" by simp
  ultimately have "unat (w - 1 - r) = unat (w - r) - 1" by (simp only:)
  then show ?thesis using assms by (simp add: ring_queue_def butlast_conv_take take_map)
qed

end

end
