(* ===== verification/Console.thy ===== *)
theory Console
  imports Fs Ring
begin

text \<open>
  The console: \<^verbatim>\<open>kernel/uart.c\<close> with its transmit buffer, \<^verbatim>\<open>kernel/console.c\<close> with line editing, and \<^verbatim>\<open>procdump\<close>
  of \<^verbatim>\<open>kernel/proc.c\<close>, which control-P runs. The serial port is seen through its registers: \<open>tx_room\<close> is how many
  characters the transmit holding register still takes before LSR_TX_IDLE reads as zero, \<open>rx_line\<close> the
  characters that have arrived and not been read, \<open>uart_regs\<close> the values written to the control registers.
  A function pointer in \<^verbatim>\<open>devsw\<close> is the name of the function.
\<close>

section \<open>State\<close>

definition INPUT_BUF_SIZE :: nat where "INPUT_BUF_SIZE = 128"
definition UART_TX_BUF_SIZE :: nat where "UART_TX_BUF_SIZE = 32"
definition NDEV :: nat where "NDEV = 10"
definition CONSOLE :: nat where "CONSOLE = 1"

datatype dev_read = Consoleread
datatype dev_write = Consolewrite

record con_state = fs_state +
  cons_buf :: "nat \<Rightarrow> byte"
  cons_r :: uint32
  cons_w :: uint32
  cons_e :: uint32
  uart_tx_buf :: "nat \<Rightarrow> byte"
  uart_tx_w :: uint64
  uart_tx_r :: uint64
  tx_room :: nat
  rx_line :: "byte list"
  uart_regs :: "(nat \<times> byte) list"
  devsw :: "nat \<Rightarrow> dev_read option \<times> dev_write option"

section \<open>The serial port\<close>

definition WriteReg :: "nat \<Rightarrow> byte \<Rightarrow> 'z con_state_scheme \<Rightarrow> 'z con_state_scheme" where
  "WriteReg reg v s = s\<lparr>uart_regs := uart_regs s @ [(reg, v)]\<rparr>"

text \<open>Register numbers: 0 THR and RHR, 1 IER, 2 FCR, 3 LCR. \<^verbatim>\<open>initlock\<close> of a lock no hart holds leaves the set of held locks.\<close>

definition uartinit :: "'z con_state_scheme \<Rightarrow> 'z con_state_scheme" where
  "uartinit s =
     (let s = WriteReg 1 0x00 s;
          s = WriteReg 3 (push_bit 7 1) s;
          s = WriteReg 0 0x03 s;
          s = WriteReg 1 0x00 s;
          s = WriteReg 3 (push_bit 0 3) s;
          s = WriteReg 2 (push_bit 0 1 OR push_bit 1 3) s;
          s = WriteReg 1 (push_bit 1 1 OR push_bit 0 1) s
      in s)"

text \<open>
  The loop of \<^verbatim>\<open>uartstart\<close>; the first argument is the number of characters in the buffer, which only this loop
  takes from while \<^verbatim>\<open>uart_tx_lock\<close> is held: it is zero exactly when \<^verbatim>\<open>uart_tx_w == uart_tx_r\<close>.
\<close>

fun uartstart_loop :: "nat \<Rightarrow> 'z con_state_scheme \<Rightarrow> ('z con_state_scheme, unit) res" where
  "uartstart_loop 0 s = Ret () s"
| "uartstart_loop (Suc k) s =
     (if tx_room s = 0 then Ret () s
      else let c = uart_tx_buf s (unat (uart_tx_r s) mod UART_TX_BUF_SIZE);
               s = s\<lparr>uart_tx_r := uart_tx_r s + 1\<rparr>
           in bnd (wakeup Ch_uart_tx_r s) (\<lambda>_ s.
              uartstart_loop k (uart_out (char_of (unat c)) (s\<lparr>tx_room := tx_room s - 1\<rparr>))))"

definition uartstart :: "'z con_state_scheme \<Rightarrow> ('z con_state_scheme, unit) res" where
  "uartstart s = uartstart_loop (unat (uart_tx_w s - uart_tx_r s)) s"

text \<open>From the test for a full buffer on; woken in \<^verbatim>\<open>sleep\<close>, \<^verbatim>\<open>uartputc\<close> makes the test again.\<close>

definition uartputc_body :: "byte \<Rightarrow> 'z con_state_scheme \<Rightarrow> ('z con_state_scheme, unit) res" where
  "uartputc_body c s =
     (if uart_tx_w s = uart_tx_r s + of_nat UART_TX_BUF_SIZE then sleep Ch_uart_tx_r L_uart s
      else let s = s\<lparr>uart_tx_buf := (uart_tx_buf s)(unat (uart_tx_w s) mod UART_TX_BUF_SIZE := c)\<rparr>;
               s = s\<lparr>uart_tx_w := uart_tx_w s + 1\<rparr>
           in bnd (uartstart s) (\<lambda>_ s.
              rel L_uart s))"

definition uartputc :: "byte \<Rightarrow> 'z con_state_scheme \<Rightarrow> ('z con_state_scheme, unit) res" where
  "uartputc c s = bnd (acq L_uart s) (\<lambda>_ s. uartputc_body c s)"

definition uartputc_resume :: "byte \<Rightarrow> 'z con_state_scheme \<Rightarrow> ('z con_state_scheme, unit) res" where
  "uartputc_resume c s = bnd (sleep_resume L_uart s) (\<lambda>_ s. uartputc_body c s)"

text \<open>\<open>None\<close> is the result -1.\<close>

definition uartgetc :: "'z con_state_scheme \<Rightarrow> byte option \<times> 'z con_state_scheme" where
  "uartgetc s = (case rx_line s of [] \<Rightarrow> (None, s) | c # cs \<Rightarrow> (Some c, s\<lparr>rx_line := cs\<rparr>))"

section \<open>procdump\<close>

fun statename :: "procstate \<Rightarrow> string" where
  "statename UNUSED = ''unused''"
| "statename USED = ''used''"
| "statename SLEEPING = ''sleep ''"
| "statename RUNNABLE = ''runble''"
| "statename RUNNING = ''run   ''"
| "statename ZOMBIE = ''zombie''"

definition c_string :: "byte list \<Rightarrow> string" where
  "c_string bs = map (\<lambda>b. char_of (unat b)) (takeWhile (\<lambda>b. b \<noteq> 0) bs)"

abbreviation newline :: string where "newline \<equiv> [CHR 0x0A]"

definition procdump :: "'z kstate_scheme \<Rightarrow> ('z kstate_scheme, unit) res" where
  "procdump s =
     bnd (printf newline [] s) (\<lambda>_ s.
     foreach [0..<NPROC] (\<lambda>i s.
       let p = procs s i in
       if p_state p = UNUSED then Ret () s
       else bnd (printf ''%d %s %s'' [Num (scast (p_pid p)), Str (Some (statename (p_state p))), Str (Some (c_string (p_name p)))] s) (\<lambda>_ s.
         printf newline [] s)) s)"

section \<open>console.c\<close>

definition C :: "nat \<Rightarrow> byte" where "C x = of_nat (x - 64)"

fun consolewrite_loop :: "src \<Rightarrow> nat \<Rightarrow> nat \<Rightarrow> 'z con_state_scheme \<Rightarrow> ('z con_state_scheme, cint) res" where
  "consolewrite_loop src 0 i s = Ret (of_nat i) s"
| "consolewrite_loop src (Suc k) i s =
     bnd (either_copyin (src_add src i) 1 s) (\<lambda>(r, bs) s.
     if r = -1 then Ret (of_nat i) s
     else bnd (uartputc (hd bs) s) (\<lambda>_ s.
       consolewrite_loop src k (i + 1) s))"

definition consolewrite :: "src \<Rightarrow> cint \<Rightarrow> 'z con_state_scheme \<Rightarrow> ('z con_state_scheme, cint) res" where
  "consolewrite src n s = consolewrite_loop src (nat (sint n)) 0 s"

text \<open>A writer woken in \<^verbatim>\<open>uartputc(c)\<close>, \<open>c\<close> being byte \<open>i\<close>, with \<open>k\<close> bytes after it.\<close>

definition consolewrite_resume :: "src \<Rightarrow> byte \<Rightarrow> nat \<Rightarrow> nat \<Rightarrow> 'z con_state_scheme \<Rightarrow> ('z con_state_scheme, cint) res" where
  "consolewrite_resume src c k i s =
     bnd (uartputc_resume c s) (\<lambda>_ s. consolewrite_loop src k (i + 1) s)"

text \<open>The loop of \<^verbatim>\<open>consoleread\<close> with \<open>n\<close> bytes to go; its value is \<^verbatim>\<open>n\<close> at the end, or \<open>None\<close> for the return of -1.\<close>

fun consoleread_loop :: "nat \<Rightarrow> nat \<Rightarrow> dst \<Rightarrow> 'z con_state_scheme \<Rightarrow> ('z con_state_scheme, nat option) res" where
  "consoleread_loop target 0 dst s = Ret (Some 0) s"
| "consoleread_loop target (Suc n) dst s =
     (if cons_r s = cons_w s then
        bnd (myproc s) (\<lambda>p s.
        bnd (killed p s) (\<lambda>k s.
        if k then bnd (rel L_cons s) (\<lambda>_ s. Ret None s)
        else bnd (sleep Ch_cons_r L_cons s) (\<lambda>_ s. Ret None s)))
      else let c = cons_buf s (unat (cons_r s) mod INPUT_BUF_SIZE);
               s = s\<lparr>cons_r := cons_r s + 1\<rparr>
           in if c = C 68 then
                Ret (Some (Suc n)) (if Suc n < target then s\<lparr>cons_r := cons_r s - 1\<rparr> else s)
              else bnd (either_copyout dst [c] s) (\<lambda>r s.
                if r = -1 then Ret (Some (Suc n)) s
                else if c = 10 then Ret (Some n) s
                else consoleread_loop target n (dst_add dst 1) s))"

definition consoleread_body :: "nat \<Rightarrow> nat \<Rightarrow> dst \<Rightarrow> 'z con_state_scheme \<Rightarrow> ('z con_state_scheme, cint) res" where
  "consoleread_body target n dst s =
     bnd (consoleread_loop target n dst s) (\<lambda>r s.
     case r of None \<Rightarrow> Ret (-1) s
     | Some n \<Rightarrow> bnd (rel L_cons s) (\<lambda>_ s. Ret (of_nat (target - n)) s))"

definition consoleread :: "dst \<Rightarrow> cint \<Rightarrow> 'z con_state_scheme \<Rightarrow> ('z con_state_scheme, cint) res" where
  "consoleread dst n s =
     (let target = nat (sint n) in
      bnd (acq L_cons s) (\<lambda>_ s.
      consoleread_body target target dst s))"

text \<open>A reader woken in \<^verbatim>\<open>sleep\<close> with \<open>n\<close> bytes to go.\<close>

definition consoleread_resume :: "nat \<Rightarrow> nat \<Rightarrow> dst \<Rightarrow> 'z con_state_scheme \<Rightarrow> ('z con_state_scheme, cint) res" where
  "consoleread_resume target n dst s =
     bnd (sleep_resume L_cons s) (\<lambda>_ s. consoleread_body target n dst s)"

lemma consputc_frame [simp]:
  "cons_e (consputc c s) = cons_e s" "cons_w (consputc c s) = cons_w s" "cons_r (consputc c s) = cons_r s"
  "cons_buf (consputc c s) = cons_buf s" "held (consputc c s) = held s"
  by (simp_all add: consputc_def uart_out_def)

lemma unat_pred: "(x :: 'a::len word) \<noteq> y \<Longrightarrow> unat (x - 1 - y) < unat (x - y)"
proof -
  assume "x \<noteq> y"
  then have n: "x - y \<noteq> 0" by simp
  then have "unat (x - y - 1) = unat (x - y) - 1" by (rule unat_minus_one)
  moreover have "0 < unat (x - y)" using n by (simp add: unat_gt_0)
  moreover have "x - 1 - y = x - y - 1" by simp
  ultimately show ?thesis by (simp only:) 
qed

function kill_line :: "'z con_state_scheme \<Rightarrow> 'z con_state_scheme" where
  "kill_line s =
     (if cons_e s \<noteq> cons_w s \<and> cons_buf s (unat (cons_e s - 1) mod INPUT_BUF_SIZE) \<noteq> 10
      then kill_line (consputc BACKSPACE (s\<lparr>cons_e := cons_e s - 1\<rparr>)) else s)"
  by auto
termination by (relation "measure (\<lambda>s. unat (cons_e s - cons_w s))") (auto simp: unat_pred)

declare kill_line.simps [simp del]

definition consoleintr :: "byte \<Rightarrow> 'z con_state_scheme \<Rightarrow> ('z con_state_scheme, unit) res" where
  "consoleintr c s =
     bnd (acq L_cons s) (\<lambda>_ s.
     bnd (if c = C 80 then procdump s
          else if c = C 85 then Ret () (kill_line s)
          else if c = C 72 \<or> c = 0x7f then
            Ret () (if cons_e s \<noteq> cons_w s then consputc BACKSPACE (s\<lparr>cons_e := cons_e s - 1\<rparr>) else s)
          else if c \<noteq> 0 \<and> cons_e s - cons_r s < of_nat INPUT_BUF_SIZE then
            let c = (if c = 13 then 10 else c);
                s = consputc (unat c) s;
                s = s\<lparr>cons_buf := (cons_buf s)(unat (cons_e s) mod INPUT_BUF_SIZE := c)\<rparr>;
                s = s\<lparr>cons_e := cons_e s + 1\<rparr>
            in if c = 10 \<or> c = C 68 \<or> cons_e s - cons_r s = of_nat INPUT_BUF_SIZE
               then wakeup Ch_cons_r (s\<lparr>cons_w := cons_e s\<rparr>)
               else Ret () s
          else Ret () s) (\<lambda>_ s.
     rel L_cons s))"

text \<open>The characters waiting, handed to \<^verbatim>\<open>consoleintr\<close> one at a time.\<close>

fun uartintr_loop :: "nat \<Rightarrow> 'z con_state_scheme \<Rightarrow> ('z con_state_scheme, unit) res" where
  "uartintr_loop 0 s = Ret () s"
| "uartintr_loop (Suc k) s =
     (case uartgetc s of (None, s) \<Rightarrow> Ret () s
      | (Some c, s) \<Rightarrow> bnd (consoleintr c s) (\<lambda>_ s. uartintr_loop k s))"

definition uartintr :: "'z con_state_scheme \<Rightarrow> ('z con_state_scheme, unit) res" where
  "uartintr s =
     bnd (uartintr_loop (length (rx_line s)) s) (\<lambda>_ s.
     bnd (acq L_uart s) (\<lambda>_ s.
     bnd (uartstart s) (\<lambda>_ s.
     rel L_uart s)))"

definition consoleinit :: "'z con_state_scheme \<Rightarrow> 'z con_state_scheme" where
  "consoleinit s =
     (let s = uartinit s in
      s\<lparr>devsw := (devsw s)(CONSOLE := (Some Consoleread, Some Consolewrite))\<rparr>)"

section \<open>The transmit buffer is a queue\<close>

interpretation uart_ring: ring UART_TX_BUF_SIZE "TYPE(64)"
  by unfold_locales (simp_all add: UART_TX_BUF_SIZE_def)

definition uart_queue :: "'z con_state_scheme \<Rightarrow> byte list" where
  "uart_queue s = ring_queue UART_TX_BUF_SIZE (uart_tx_buf s) (uart_tx_r s) (uart_tx_w s)"

abbreviation as_char :: "byte \<Rightarrow> char" where "as_char b \<equiv> char_of (unat b)"

text \<open>What has gone out on the line, followed by what waits in the buffer.\<close>

definition uart_stream :: "'z con_state_scheme \<Rightarrow> string" where
  "uart_stream s = consout s @ map as_char (uart_queue s)"

definition uart_ok :: "'z con_state_scheme \<Rightarrow> bool" where
  "uart_ok s \<longleftrightarrow> length (uart_queue s) \<le> UART_TX_BUF_SIZE"

text \<open>The state of a process gone to sleep holding no lock but its own.\<close>

definition asleep :: "nat \<Rightarrow> chan \<Rightarrow> 'z kstate_scheme \<Rightarrow> 'z kstate_scheme" where
  "asleep p c s = upd_proc p (\<lambda>q. q\<lparr>p_chan := Some c, p_state := SLEEPING\<rparr>) (s\<lparr>held := {L_proc p}\<rparr>)"

lemma sleep_asleep: "curproc s = Some p \<Longrightarrow> held s = {lk} \<Longrightarrow> lk \<noteq> L_proc p \<Longrightarrow> sleep c lk s = Sleep c (asleep p c s)"
  by (simp add: sleep_def sched_def asleep_def upd_proc_def insert_Diff_if)

lemma woken_twice: "woken c cur (woken c cur ps) = woken c cur ps"
  by (rule ext) (auto simp: woken_def Let_def)

lemma uartstart_ok:
  assumes "may_wake s" "n = min (tx_room s) (length (uart_queue s))"
  shows "\<exists>ps. uartstart s = Ret () (s\<lparr>uart_tx_r := uart_tx_r s + of_nat n, tx_room := tx_room s - n,
      consout := consout s @ map as_char (take n (uart_queue s)), procs := ps\<rparr>) \<and>
    (ps = procs s \<or> ps = woken Ch_uart_tx_r (curproc s) (procs s))"
proof -
  have "\<exists>ps. uartstart_loop k s = Ret () (s\<lparr>uart_tx_r := uart_tx_r s + of_nat n, tx_room := tx_room s - n,
      consout := consout s @ map as_char (take n (uart_queue s)), procs := ps\<rparr>) \<and>
    (ps = procs s \<or> ps = woken Ch_uart_tx_r (curproc s) (procs s))"
    if "k = length (uart_queue s)" for k
    using assms that
  proof (induction k arbitrary: n s)
    case 0
    then show ?case by (intro exI [of _ "procs s"]) simp
  next
    case (Suc k)
    show ?case
    proof (cases "tx_room s = 0")
      case True
      then have "uartstart_loop (Suc k) s = Ret () s" by simp
      then show ?thesis using Suc.prems(2) True by (intro exI [of _ "procs s"]) simp
    next
      case False
      let ?r = "uart_tx_r s" and ?ps = "woken Ch_uart_tx_r (curproc s) (procs s)"
      have ne: "uart_tx_w s \<noteq> ?r" using Suc.prems(3) by (auto simp: uart_queue_def)
      have pop: "uart_queue s = uart_tx_buf s (unat ?r mod UART_TX_BUF_SIZE) # ring_queue UART_TX_BUF_SIZE (uart_tx_buf s) (?r + 1) (uart_tx_w s)"
        unfolding uart_queue_def by (rule uart_ring.pop [OF ne])
      let ?t = "s\<lparr>uart_tx_r := ?r + 1, procs := ?ps, tx_room := tx_room s - 1,
        consout := consout s @ [as_char (uart_tx_buf s (unat ?r mod UART_TX_BUF_SIZE))]\<rparr>"
      have q: "uart_queue s = uart_tx_buf s (unat ?r mod UART_TX_BUF_SIZE) # uart_queue ?t" using pop by (simp add: uart_queue_def)
      have w: "may_wake (s\<lparr>uart_tx_r := ?r + 1\<rparr>)" "may_wake ?t" using Suc.prems(1) by (auto simp: may_wake_def)
      obtain n' where n': "n = Suc n'" "n' = min (tx_room ?t) (length (uart_queue ?t))"
        using Suc.prems(2) q False by (cases "tx_room s") auto
      have "k = length (uart_queue ?t)" using Suc.prems(3) q by simp
      from Suc.IH [OF w(2) n'(2) this] obtain ps where
        ps: "uartstart_loop k ?t = Ret () (?t\<lparr>uart_tx_r := uart_tx_r ?t + of_nat n', tx_room := tx_room ?t - n',
          consout := consout ?t @ map as_char (take n' (uart_queue ?t)), procs := ps\<rparr>)" "ps = ?ps"
        by (auto simp: woken_twice)
      have "uartstart_loop (Suc k) s = uartstart_loop k ?t" using False w(1) by (simp add: uart_out_def Let_def)
      then show ?thesis using ps n'(1) q by (intro exI [of _ ?ps]) (simp add: algebra_simps)
    qed
  qed
  then show ?thesis by (simp add: uartstart_def uart_queue_def)
qed

text \<open>Sending a character appends it to the stream, or sleeps with the buffer full.\<close>

lemma uartputc_ok:
  assumes "held s = {}" "curproc s = Some p" "uart_ok s"
  shows "if length (uart_queue s) = UART_TX_BUF_SIZE then uartputc c s = Sleep Ch_uart_tx_r (asleep p Ch_uart_tx_r s)
    else \<exists>r room co w b ps. let t = s\<lparr>uart_tx_buf := b, uart_tx_w := w, uart_tx_r := r, tx_room := room, consout := co, procs := ps\<rparr> in
      uartputc c s = Ret () t \<and> uart_ok t \<and> uart_stream t = uart_stream s @ [as_char c] \<and>
      (ps = procs s \<or> ps = woken Ch_uart_tx_r (curproc s) (procs s))"
proof (cases "length (uart_queue s) = UART_TX_BUF_SIZE")
  case True
  then have "uart_tx_w s = uart_tx_r s + of_nat UART_TX_BUF_SIZE"
    using uart_ring.full_iff [of "uart_tx_w s" "uart_tx_r s"] by (simp add: uart_queue_def)
  then show ?thesis using True assms sleep_asleep [of "s\<lparr>held := {L_uart}\<rparr>" p L_uart]
    by (simp add: uartputc_def uartputc_body_def) (simp add: asleep_def)
next
  case False
  then have nf: "uart_tx_w s \<noteq> uart_tx_r s + of_nat UART_TX_BUF_SIZE"
    using uart_ring.full_iff [of "uart_tx_w s" "uart_tx_r s"] assms(3) by (simp add: uart_queue_def uart_ok_def)
  let ?b = "(uart_tx_buf s)(unat (uart_tx_w s) mod UART_TX_BUF_SIZE := c)"
  let ?u = "s\<lparr>held := {L_uart}, uart_tx_buf := ?b, uart_tx_w := uart_tx_w s + 1\<rparr>"
  have room: "unat (uart_tx_w s - uart_tx_r s) < UART_TX_BUF_SIZE" using False assms(3) by (simp add: uart_queue_def uart_ok_def)
  have q: "uart_queue ?u = uart_queue s @ [c]" using uart_ring.push [OF room] by (simp add: uart_queue_def)
  let ?n = "min (tx_room s) (length (uart_queue s) + 1)"
  have "may_wake ?u" "?n = min (tx_room ?u) (length (uart_queue ?u))" by (simp_all add: may_wake_def q)
  from uartstart_ok [OF this] obtain ps where
    ps: "uartstart ?u = Ret () (?u\<lparr>uart_tx_r := uart_tx_r s + of_nat ?n, tx_room := tx_room s - ?n,
        consout := consout s @ map as_char (take ?n (uart_queue s @ [c])), procs := ps\<rparr>)"
      "ps = procs s \<or> ps = woken Ch_uart_tx_r (curproc s) (procs s)" unfolding q by auto
  let ?t = "s\<lparr>uart_tx_buf := ?b, uart_tx_w := uart_tx_w s + 1, uart_tx_r := uart_tx_r s + of_nat ?n, tx_room := tx_room s - ?n,
        consout := consout s @ map as_char (take ?n (uart_queue s @ [c])), procs := ps\<rparr>"
  have "length (uart_queue ?u) = unat (uart_tx_w s + 1 - uart_tx_r s)" by (simp add: uart_queue_def)
  then have "?n \<le> unat (uart_tx_w s + 1 - uart_tx_r s)" unfolding q by simp
  then have tq: "uart_queue ?t = drop ?n (uart_queue s @ [c])"
    using uart_ring.pop_many [of ?n "uart_tx_w s + 1" "uart_tx_r s" ?b] q by (simp add: uart_queue_def)
  have "uartputc c s = Ret () ?t" using assms(1) nf ps(1) by (simp add: uartputc_def uartputc_body_def Let_def)
  moreover have "uart_ok ?t" using tq room by (simp add: uart_ok_def uart_queue_def)
  moreover have "uart_stream ?t = consout s @ map as_char (take ?n (uart_queue s @ [c]) @ drop ?n (uart_queue s @ [c]))"
    unfolding uart_stream_def tq by (simp del: take_append drop_append append_take_drop_id)
  then have "uart_stream ?t = uart_stream s @ [as_char c]" unfolding append_take_drop_id by (simp add: uart_stream_def)
  ultimately show ?thesis using False ps(2) unfolding Let_def if_not_P [OF False] by blast
qed

lemma uart_asleep [simp]: "uart_stream (asleep p c s) = uart_stream s" "uart_queue (asleep p c s) = uart_queue s"
  by (simp_all add: uart_stream_def uart_queue_def asleep_def upd_proc_def)

lemma consolewrite_loop_ok:
  assumes "held s = {}" "curproc s = Some p" "uart_ok s" "p_pagetable (procs s p) = pt" "uvm_ok pt S s"
  shows "\<exists>bs t. length bs \<le> k \<and> (\<forall>j < length bs. umem s pt (addr + of_nat (i + j)) = Some (bs ! j)) \<and>
    uart_stream t = uart_stream s @ map as_char bs \<and>
    (consolewrite_loop (Usrc addr) k i s = Ret (of_nat (i + length bs)) t \<and> uart_ok t \<and>
       (length bs = k \<or> umem s pt (addr + of_nat (i + length bs)) = None) \<or>
     consolewrite_loop (Usrc addr) k i s = Sleep Ch_uart_tx_r t \<and> length bs < k \<and> length (uart_queue t) = UART_TX_BUF_SIZE)"
  using assms
proof (induction k arbitrary: i s)
  case 0
  then show ?case by (intro exI [of _ "[]"] exI [of _ s]) simp
next
  case (Suc k)
  have ci: "either_copyin (src_add (Usrc addr) i) 1 s =
      (case umem s pt (addr + of_nat i) of Some b \<Rightarrow> Ret (0, [b]) s | None \<Rightarrow> Ret (-1, []) s)"
    using Suc.prems copyin_byte [OF Suc.prems(5)] by (simp add: either_copyin_def)
  show ?case
  proof (cases "umem s pt (addr + of_nat i)")
    case None
    then show ?thesis using ci by (intro exI [of _ "[]"] exI [of _ s]) (use Suc.prems(3) in simp)
  next
    case (Some b)
    have step: "consolewrite_loop (Usrc addr) (Suc k) i s = bnd (uartputc b s) (\<lambda>_ s. consolewrite_loop (Usrc addr) k (i + 1) s)"
      using ci Some by simp
    show ?thesis
    proof (cases "length (uart_queue s) = UART_TX_BUF_SIZE")
      case True
      then show ?thesis using uartputc_ok [OF Suc.prems(1-3), of b] step
        by (intro exI [of _ "[]"] exI [of _ "asleep p Ch_uart_tx_r s"]) simp
    next
      case False
      obtain r room co w bu ps where ps: "uartputc b s = Ret () (s\<lparr>uart_tx_buf := bu, uart_tx_w := w, uart_tx_r := r, tx_room := room, consout := co, procs := ps\<rparr>)"
        "uart_ok (s\<lparr>uart_tx_buf := bu, uart_tx_w := w, uart_tx_r := r, tx_room := room, consout := co, procs := ps\<rparr>)"
        "uart_stream (s\<lparr>uart_tx_buf := bu, uart_tx_w := w, uart_tx_r := r, tx_room := room, consout := co, procs := ps\<rparr>) = uart_stream s @ [as_char b]"
        "ps = procs s \<or> ps = woken Ch_uart_tx_r (curproc s) (procs s)"
        using uartputc_ok [OF Suc.prems(1-3), of b] unfolding if_not_P [OF False] Let_def by blast
      let ?t = "s\<lparr>uart_tx_buf := bu, uart_tx_w := w, uart_tx_r := r, tx_room := room, consout := co, procs := ps\<rparr>"
      have um: "umem ?t pt va = umem s pt va" for va by (rule uvm_cong(3)) simp_all
      have "held ?t = {}" "curproc ?t = Some p" "p_pagetable (procs ?t p) = pt" "uvm_ok pt S ?t"
        using Suc.prems ps(4) uvm_cong(1) [of ?t s pt S] by auto
      from Suc.IH [OF this(1,2) ps(2) this(3,4), of "i + 1"] obtain bs t where
        IH: "length bs \<le> k" "\<forall>j < length bs. umem s pt (addr + of_nat (i + 1 + j)) = Some (bs ! j)"
          "uart_stream t = uart_stream s @ map as_char (b # bs)"
          "consolewrite_loop (Usrc addr) k (i + 1) ?t = Ret (of_nat (i + 1 + length bs)) t \<and> uart_ok t \<and>
             (length bs = k \<or> umem s pt (addr + of_nat (i + 1 + length bs)) = None) \<or>
           consolewrite_loop (Usrc addr) k (i + 1) ?t = Sleep Ch_uart_tx_r t \<and> length bs < k \<and> length (uart_queue t) = UART_TX_BUF_SIZE"
        unfolding um ps(3) by auto
      have "\<forall>j < length (b # bs). umem s pt (addr + of_nat (i + j)) = Some ((b # bs) ! j)"
        using IH(2) Some by (auto simp: nth_Cons algebra_simps split: nat.split)
      moreover have "consolewrite_loop (Usrc addr) (Suc k) i s = consolewrite_loop (Usrc addr) k (i + 1) ?t" using step ps(1) by simp
      ultimately show ?thesis using IH(1,3,4)
        by (intro exI [of _ "b # bs"] exI [of _ t]) (auto simp del: of_nat_add of_nat_Suc)
    qed
  qed
qed

text \<open>C23. Characters written to the console go out on the line in the order they were written, each once: what has been sent followed by
  what waits in the transmit buffer is what it was before followed by the bytes written. The call returns once it has taken all bytes or
  those before the first one the user cannot access, or sleeps when the buffer is full.\<close>

theorem consolewrite_in_order:
  assumes "held s = {}" "curproc s = Some p" "uart_ok s" "uvm_ok (p_pagetable (procs s p)) S s"
  shows "\<exists>bs t. length bs \<le> nat (sint n) \<and>
    (\<forall>j < length bs. umem s (p_pagetable (procs s p)) (addr + of_nat j) = Some (bs ! j)) \<and>
    uart_stream t = uart_stream s @ map as_char bs \<and>
    (consolewrite (Usrc addr) n s = Ret (of_nat (length bs)) t \<and> uart_ok t \<and>
       (length bs = nat (sint n) \<or> umem s (p_pagetable (procs s p)) (addr + of_nat (length bs)) = None) \<or>
     consolewrite (Usrc addr) n s = Sleep Ch_uart_tx_r t \<and> length bs < nat (sint n) \<and> length (uart_queue t) = UART_TX_BUF_SIZE)"
  using consolewrite_loop_ok [OF assms(1-3) refl assms(4), of "nat (sint n)" addr 0] by (simp add: consolewrite_def)

section \<open>Line editing\<close>

interpretation cons_ring: ring INPUT_BUF_SIZE "TYPE(32)"
  by unfold_locales (simp_all add: INPUT_BUF_SIZE_def)

text \<open>The bytes ready for readers, and the line being typed.\<close>

definition cons_ready :: "'z con_state_scheme \<Rightarrow> byte list" where
  "cons_ready s = ring_queue INPUT_BUF_SIZE (cons_buf s) (cons_r s) (cons_w s)"

definition cons_edit :: "'z con_state_scheme \<Rightarrow> byte list" where
  "cons_edit s = ring_queue INPUT_BUF_SIZE (cons_buf s) (cons_w s) (cons_e s)"

definition cons_ok :: "'z con_state_scheme \<Rightarrow> bool" where
  "cons_ok s \<longleftrightarrow> unat (cons_w s - cons_r s) + unat (cons_e s - cons_w s) = unat (cons_e s - cons_r s) \<and>
     unat (cons_e s - cons_r s) \<le> INPUT_BUF_SIZE \<and> 10 \<notin> set (cons_edit s)"

text \<open>What a character does to the two.\<close>

definition line_edit :: "byte \<Rightarrow> byte list \<times> byte list \<Rightarrow> byte list \<times> byte list" where
  "line_edit c QE =
     (let (Q, E) = QE in
      if c = C 80 then (Q, E)
      else if c = C 85 then (Q, [])
      else if c = C 72 \<or> c = 0x7f then (Q, butlast E)
      else if c \<noteq> 0 \<and> length Q + length E < INPUT_BUF_SIZE then
        let c = (if c = 13 then 10 else c); E = E @ [c] in
        if c = 10 \<or> c = C 68 \<or> length Q + length E = INPUT_BUF_SIZE then (Q @ E, []) else (Q, E)
      else (Q, E))"

lemma procdump_ok:
  assumes "L_pr \<notin> held s"
  shows "\<exists>co. procdump s = Ret () (s\<lparr>consout := co\<rparr>)"
proof -
  have "\<exists>co. foreach xs (\<lambda>i s. let p = procs s i in
       if p_state p = UNUSED then Ret () s
       else bnd (printf ''%d %s %s'' [Num (scast (p_pid p)), Str (Some (statename (p_state p))), Str (Some (c_string (p_name p)))] s) (\<lambda>_ s.
         printf newline [] s)) s = Ret () (s\<lparr>consout := co\<rparr>)" if "L_pr \<notin> held s" for xs and s :: "'a kstate_scheme"
    using that
  proof (induction xs arbitrary: s)
    case Nil
    then show ?case by (intro exI [of _ "consout s"]) simp
  next
    case (Cons x xs)
    show ?case
    proof (cases "p_state (procs s x) = UNUSED")
      case True
      then show ?thesis using Cons by simp
    next
      case False
      obtain t where t: "printf_text ''%d %s %s'' [Num (scast (p_pid (procs s x))), Str (Some (statename (p_state (procs s x)))), Str (Some (c_string (p_name (procs s x))))] = Some t"
        by simp
      then show ?thesis using False Cons.prems Cons.IH [of "s\<lparr>consout := consout s @ t @ newline\<rparr>"]
        by (auto simp: printf_Ret [OF _ t] printf_Ret [where t = newline])
    qed
  qed
  note loop = this
  have p: "printf newline [] s = Ret () (s\<lparr>consout := consout s @ newline\<rparr>)" using assms by (simp add: printf_Ret)
  obtain co where "foreach [0..<NPROC] (\<lambda>i s. let p = procs s i in
       if p_state p = UNUSED then Ret () s
       else bnd (printf ''%d %s %s'' [Num (scast (p_pid p)), Str (Some (statename (p_state p))), Str (Some (c_string (p_name p)))] s) (\<lambda>_ s.
         printf newline [] s)) (s\<lparr>consout := consout s @ newline\<rparr>) = Ret () (s\<lparr>consout := co\<rparr>)"
    using loop [of "s\<lparr>consout := consout s @ newline\<rparr>" "[0..<NPROC]"] assms by auto
  then show ?thesis unfolding procdump_def p by (intro exI [of _ co]) simp
qed

lemma kill_line_ok:
  assumes "10 \<notin> set (cons_edit s)"
  shows "\<exists>co. kill_line s = s\<lparr>cons_e := cons_w s, consout := co\<rparr>"
  using assms
proof (induction s rule: kill_line.induct)
  case (1 s)
  show ?case
  proof (cases "cons_e s = cons_w s")
    case True
    have "s\<lparr>cons_e := cons_e s, consout := consout s\<rparr> = s" by simp
    moreover have "kill_line s = s" using True by (subst kill_line.simps) simp
    ultimately show ?thesis unfolding True [symmetric] by (intro exI [of _ "consout s"]) simp
  next
    case False
    let ?s = "consputc BACKSPACE (s\<lparr>cons_e := cons_e s - 1\<rparr>)"
    have E: "last (cons_edit s) = cons_buf s (unat (cons_e s - 1) mod INPUT_BUF_SIZE)" "cons_edit s \<noteq> []"
      using cons_ring.last_ring [OF False] False by (simp_all add: cons_edit_def ring_Nil_iff)
    then have ne: "cons_buf s (unat (cons_e s - 1) mod INPUT_BUF_SIZE) \<noteq> 10" using 1(2) last_in_set by metis
    have "cons_edit ?s = butlast (cons_edit s)" using cons_ring.drop_last [OF False] by (simp add: cons_edit_def consputc_def uart_out_def)
    then have "10 \<notin> set (cons_edit ?s)" using 1(2) by (auto dest: in_set_butlastD)
    then obtain co where "kill_line ?s = ?s\<lparr>cons_e := cons_w ?s, consout := co\<rparr>" using 1(1) False ne by blast
    then show ?thesis using False ne by (subst kill_line.simps) (auto simp: consputc_def uart_out_def)
  qed
qed

lemma cons_whole:
  assumes "unat (cons_w s - cons_r s) + unat (cons_e s - cons_w s) = unat (cons_e s - cons_r s)"
  shows "ring_queue INPUT_BUF_SIZE (cons_buf s) (cons_r s) (cons_e s) = cons_ready s @ cons_edit s"
  unfolding cons_ready_def cons_edit_def by (rule cons_ring.append [OF assms])

lemma cons_store:
  assumes "cons_ok s" "length (cons_ready s) + length (cons_edit s) < INPUT_BUF_SIZE"
    "t = s\<lparr>cons_buf := (cons_buf s)(unat (cons_e s) mod INPUT_BUF_SIZE := c), cons_e := cons_e s + 1, consout := co, held := h\<rparr>"
  shows "cons_ready t = cons_ready s" "cons_edit t = cons_edit s @ [c]"
    "unat (cons_w t - cons_r t) + unat (cons_e t - cons_w t) = unat (cons_e t - cons_r t)"
    "unat (cons_e t - cons_r t) = length (cons_ready s) + length (cons_edit s) + 1"
proof -
  have len: "unat (cons_w s - cons_r s) + unat (cons_e s - cons_w s) = unat (cons_e s - cons_r s)" using assms(1) by (simp add: cons_ok_def)
  have lt: "unat (cons_e s - cons_r s) < INPUT_BUF_SIZE" "unat (cons_e s - cons_w s) < INPUT_BUF_SIZE"
    using assms(2) len by (simp_all add: cons_ready_def cons_edit_def)
  have E: "cons_edit t = cons_edit s @ [c]" using cons_ring.push [OF lt(2), of "cons_buf s" c] by (simp add: cons_edit_def assms(3))
  have W: "ring_queue INPUT_BUF_SIZE (cons_buf t) (cons_r t) (cons_e t) = cons_ready s @ cons_edit s @ [c]"
    using cons_ring.push [OF lt(1), of "cons_buf s" c] cons_whole [OF len] by (simp add: assms(3))
  have "length (cons_edit t) = length (cons_edit s) + 1" using E by simp
  then have le: "unat (cons_e t - cons_w t) = unat (cons_e s - cons_w s) + 1" by (simp add: cons_edit_def assms(3))
  have "length (ring_queue INPUT_BUF_SIZE (cons_buf t) (cons_r t) (cons_e t)) = length (cons_ready s) + length (cons_edit s) + 1"
    unfolding W by simp
  then show l2: "unat (cons_e t - cons_r t) = length (cons_ready s) + length (cons_edit s) + 1" by simp
  then show l1: "unat (cons_w t - cons_r t) + unat (cons_e t - cons_w t) = unat (cons_e t - cons_r t)"
    using le by (simp add: cons_ready_def cons_edit_def assms(3))
  show "cons_edit t = cons_edit s @ [c]" by (rule E)
  show "cons_ready t = cons_ready s" using cons_whole [OF l1] W E by simp
qed

lemma cons_commit:
  assumes "unat (cons_w s - cons_r s) + unat (cons_e s - cons_w s) = unat (cons_e s - cons_r s)"
  shows "cons_ready (s\<lparr>cons_w := cons_e s, procs := ps\<rparr>) = cons_ready s @ cons_edit s" "cons_edit (s\<lparr>cons_w := cons_e s, procs := ps\<rparr>) = []"
  using cons_whole [OF assms] by (simp_all add: cons_ready_def cons_edit_def)

lemma cons_back:
  assumes "cons_ok s" "cons_e s \<noteq> cons_w s"
  shows "cons_ok (s\<lparr>cons_e := cons_e s - 1, consout := co, held := h\<rparr>)"
    "cons_edit (s\<lparr>cons_e := cons_e s - 1, consout := co, held := h\<rparr>) = butlast (cons_edit s)"
proof -
  let ?t = "s\<lparr>cons_e := cons_e s - 1, consout := co, held := h\<rparr>"
  show E: "cons_edit ?t = butlast (cons_edit s)" using cons_ring.drop_last [OF assms(2)] by (simp add: cons_edit_def)
  have one: "unat (cons_e s - 1 - x) = unat (cons_e s - x) - 1" if "cons_e s \<noteq> x" for x
  proof -
    have "unat (cons_e s - x - 1) = unat (cons_e s - x) - 1" using that by (intro unat_minus_one) simp
    moreover have "cons_e s - 1 - x = cons_e s - x - 1" by simp
    ultimately show ?thesis by (simp only:)
  qed
  have p: "0 < unat (cons_e s - cons_w s)" using assms(2) by (simp add: unat_gt_0)
  then have "cons_e s \<noteq> cons_r s" using assms(1) by (auto simp: cons_ok_def)
  moreover have "10 \<notin> set (cons_edit ?t)" unfolding E using assms(1) by (auto simp: cons_ok_def dest: in_set_butlastD)
  ultimately show "cons_ok ?t" using assms one [of "cons_w s"] one [of "cons_r s"] p by (auto simp: cons_ok_def)
qed

lemma cons_frame:
  "cons_ready (s\<lparr>held := h\<rparr>) = cons_ready s" "cons_edit (s\<lparr>held := h\<rparr>) = cons_edit s" "cons_ok (s\<lparr>held := h\<rparr>) = cons_ok s"
  "cons_ready (s\<lparr>consout := co\<rparr>) = cons_ready s" "cons_edit (s\<lparr>consout := co\<rparr>) = cons_edit s" "cons_ok (s\<lparr>consout := co\<rparr>) = cons_ok s"
  "cons_ready (s\<lparr>cons_e := e\<rparr>) = cons_ready s"
  by (simp_all add: cons_ready_def cons_edit_def cons_ok_def)

abbreviation edits_line :: "byte \<Rightarrow> 'z con_state_scheme \<Rightarrow> bool" where
  "edits_line c s \<equiv> \<exists>t. consoleintr c s = Ret () t \<and> cons_ok t \<and> held t = held s \<and>
    (cons_ready t, cons_edit t) = line_edit c (cons_ready s, cons_edit s) \<and>
    (cons_ready t \<noteq> cons_ready s \<longrightarrow> procs t = woken Ch_cons_r (curproc s) (procs s))"

lemma cons_small:
  assumes "cons_ok s"
  shows "cons_e s - cons_r s < of_nat INPUT_BUF_SIZE \<longleftrightarrow> length (cons_ready s) + length (cons_edit s) < INPUT_BUF_SIZE"
proof -
  have len: "length (cons_ready s) + length (cons_edit s) = unat (cons_e s - cons_r s)"
    using assms by (simp add: cons_ok_def cons_ready_def cons_edit_def)
  show ?thesis unfolding len by (simp add: word_less_nat_alt INPUT_BUF_SIZE_def)
qed

lemma consoleintr_key:
  assumes "cons_ok s" "L_cons \<notin> held s" "may_wake s"
    and k: "c \<noteq> C 80" "c \<noteq> C 85" "c \<noteq> C 72" "c \<noteq> 0x7f" "c \<noteq> 0" "length (cons_ready s) + length (cons_edit s) < INPUT_BUF_SIZE"
  shows "edits_line c s"
proof -
  let ?s = "s\<lparr>held := insert L_cons (held s)\<rparr>"
  have h: "held s - {L_cons} = held s" "insert L_cons (held s) - {L_cons} = held s" using assms(2) by auto
  note small = cons_small [OF assms(1)]
  define d where "d = (if c = 13 then 10 else c)"
  define t where "t = s\<lparr>cons_buf := (cons_buf s)(unat (cons_e s) mod INPUT_BUF_SIZE := d), cons_e := cons_e s + 1,
    consout := consout (consputc (unat d) s), held := held s\<rparr>"
  note st = cons_store [OF assms(1) k(6) t_def]
  have full: "cons_e t - cons_r t = of_nat INPUT_BUF_SIZE \<longleftrightarrow> length (cons_ready s) + length (cons_edit s @ [d]) = INPUT_BUF_SIZE"
    using st(4) by (simp add: word_unat_eq_iff INPUT_BUF_SIZE_def)
  let ?done = "d = 10 \<or> d = C 68 \<or> length (cons_ready s) + length (cons_edit s @ [d]) = INPUT_BUF_SIZE"
  let ?ps = "woken Ch_cons_r (curproc s) (procs s)"
  let ?t = "t\<lparr>held := insert L_cons (held s)\<rparr>"
  have out: "consputc (unat d) ?s\<lparr>cons_buf := (cons_buf s)(unat (cons_e s) mod INPUT_BUF_SIZE := d), cons_e := cons_e s + 1\<rparr> = ?t"
    by (simp add: t_def consputc_def uart_out_def)
  have keep: "cons_buf (consputc x ?s) = cons_buf s" "cons_e (consputc x ?s) = cons_e s" for x by (simp_all add: consputc_def uart_out_def)
  have body: "consoleintr c s = bnd (if ?done then wakeup Ch_cons_r (?t\<lparr>cons_w := cons_e t\<rparr>) else Ret () ?t) (\<lambda>_ s. rel L_cons s)"
    unfolding consoleintr_def Let_def d_def [symmetric] full [symmetric] using k small assms(2) by (simp add: keep out)
  have edit: "line_edit c (cons_ready s, cons_edit s) = (if ?done then (cons_ready s @ cons_edit s @ [d], []) else (cons_ready s, cons_edit s @ [d]))"
    unfolding line_edit_def Let_def d_def [symmetric] using k by simp
  show ?thesis
  proof (cases ?done)
    case True
    have "may_wake (?t\<lparr>cons_w := cons_e t\<rparr>)" using assms(3) by (simp add: may_wake_def t_def)
    from wakeup_Ret [OF this] have "consoleintr c s = Ret () (t\<lparr>cons_w := cons_e t, procs := ?ps\<rparr>)"
      unfolding body if_P [OF True] using h by (simp add: t_def)
    moreover have "cons_ok (t\<lparr>cons_w := cons_e t, procs := ?ps\<rparr>)"
      using st(4) k(6) by (simp add: cons_ok_def cons_edit_def)
    moreover have "held t = held s" by (simp add: t_def)
    ultimately show ?thesis unfolding edit if_P [OF True] using cons_commit [OF st(3), of ?ps] st(1,2) by simp
  next
    case False
    have "consoleintr c s = Ret () t" unfolding body if_not_P [OF False] using h by (simp add: t_def)
    moreover have "cons_ok t" using st False k(6) assms(1) by (auto simp: cons_ok_def)
    moreover have "held t = held s" by (simp add: t_def)
    ultimately show ?thesis unfolding edit if_not_P [OF False] using st(1,2) by simp
  qed
qed

text \<open>C22. The console's input buffer is a line editor: a character typed ends up at the end of the line being edited, backspace and delete take the
  last one off, control-U empties the line, and neither touches what readers may already take. A newline, control-D or a full buffer hands
  the whole line to the readers and wakes them. Carriage returns become newlines; what does not fit is dropped.\<close>

theorem consoleintr_edits_line:
  assumes "cons_ok s" "L_cons \<notin> held s" "L_pr \<notin> held s" "may_wake s"
  shows "\<exists>t. consoleintr c s = Ret () t \<and> cons_ok t \<and> held t = held s \<and>
    (cons_ready t, cons_edit t) = line_edit c (cons_ready s, cons_edit s) \<and>
    (cons_ready t \<noteq> cons_ready s \<longrightarrow> procs t = woken Ch_cons_r (curproc s) (procs s))"
proof -
  let ?s = "s\<lparr>held := insert L_cons (held s)\<rparr>"
  have h: "held s - {L_cons} = held s" "insert L_cons (held s) - {L_cons} = held s" using assms(2) by auto
  note small = cons_small [OF assms(1)]
  consider (p) "c = C 80" | (u) "c \<noteq> C 80" "c = C 85" | (b) "c \<noteq> C 80" "c \<noteq> C 85" "c = C 72 \<or> c = 0x7f"
    | (d) "c \<noteq> C 80" "c \<noteq> C 85" "c \<noteq> C 72" "c \<noteq> 0x7f" "\<not> (c \<noteq> 0 \<and> length (cons_ready s) + length (cons_edit s) < INPUT_BUF_SIZE)"
    | (k) "c \<noteq> C 80" "c \<noteq> C 85" "c \<noteq> C 72" "c \<noteq> 0x7f" "c \<noteq> 0" "length (cons_ready s) + length (cons_edit s) < INPUT_BUF_SIZE"
    by blast
  then show ?thesis
  proof cases
    case p
    have pr: "L_pr \<notin> held ?s" using assms(3) by simp
    obtain co where "procdump ?s = Ret () (?s\<lparr>consout := co\<rparr>)" using procdump_ok [OF pr] by blast
    then have "consoleintr c s = Ret () (s\<lparr>consout := co\<rparr>)" using p assms(2) h by (simp add: consoleintr_def)
    then show ?thesis using p assms(1) by (simp add: cons_frame line_edit_def)
  next
    case u
    have "10 \<notin> set (cons_edit ?s)" using assms(1) by (simp add: cons_frame) (simp add: cons_ok_def)
    then obtain co where "kill_line ?s = ?s\<lparr>cons_e := cons_w ?s, consout := co\<rparr>" using kill_line_ok by blast
    then have "consoleintr c s = Ret () (s\<lparr>cons_e := cons_w s, consout := co\<rparr>)" using u assms(2) h by (simp add: consoleintr_def)
    moreover have "cons_edit (s\<lparr>cons_e := cons_w s\<rparr>) = []" by (simp add: cons_edit_def)
    moreover have "cons_ok (s\<lparr>cons_e := cons_w s\<rparr>)" using assms(1) by (simp add: cons_ok_def cons_edit_def)
    ultimately show ?thesis using u by (simp add: cons_frame line_edit_def)
  next
    case b
    show ?thesis
    proof (cases "cons_e s = cons_w s")
      case True
      then have "consoleintr c s = Ret () s" using b assms(2) h by (auto simp: consoleintr_def)
      moreover have "cons_edit s = []" using True by (simp add: cons_edit_def)
      ultimately show ?thesis using b assms(1) by (auto simp: line_edit_def)
    next
      case False
      then obtain co where "consoleintr c s = Ret () (s\<lparr>cons_e := cons_e s - 1, consout := co, held := held s\<rparr>)"
        using b assms(2) h by (auto simp: consoleintr_def consputc_def uart_out_def)
      then show ?thesis using b cons_back [OF assms(1) False, where co = co and h = "held s"] by (auto simp: cons_frame line_edit_def)
    qed
  next
    case d
    then have "consoleintr c s = Ret () s" using assms(2) h small by (auto simp: consoleintr_def)
    then show ?thesis using d assms(1) by (auto simp: line_edit_def)
  next
    case k
    then show ?thesis using consoleintr_key [OF assms(1,2,4)] by blast
  qed
qed

end
