(* ===== verification/Pipe.thy ===== *)
theory Pipe
  imports Console
begin

text \<open>
  \<^verbatim>\<open>kernel/pipe.c\<close> but for \<^verbatim>\<open>pipealloc\<close>, which needs the file table (theory \<open>File\<close>). A pipe is named by the address
  of its page. The counters \<^verbatim>\<open>nread\<close> and \<^verbatim>\<open>nwrite\<close> are 32-bit and wrap around.
\<close>

definition PIPESIZE :: nat where "PIPESIZE = 512"

record pipe =
  pi_data :: "nat \<Rightarrow> byte"
  pi_nread :: uint32
  pi_nwrite :: uint32
  pi_readopen :: bool
  pi_writeopen :: bool

record pipe_state = con_state +
  pipes :: "uint64 \<Rightarrow> pipe"

definition upd_pipe :: "uint64 \<Rightarrow> (pipe \<Rightarrow> pipe) \<Rightarrow> 'z pipe_state_scheme \<Rightarrow> 'z pipe_state_scheme" where
  "upd_pipe a f s = s\<lparr>pipes := (pipes s)(a := f (pipes s a))\<rparr>"

definition pipeclose :: "uint64 \<Rightarrow> bool \<Rightarrow> 'z pipe_state_scheme \<Rightarrow> ('z pipe_state_scheme, unit) res" where
  "pipeclose a writable s =
     bnd (acq (L_pipe a) s) (\<lambda>_ s.
     bnd (if writable then
            let s = upd_pipe a (\<lambda>q. q\<lparr>pi_writeopen := False\<rparr>) s in
            wakeup (Ch_pipe_nread a) s
          else
            let s = upd_pipe a (\<lambda>q. q\<lparr>pi_readopen := False\<rparr>) s in
            wakeup (Ch_pipe_nwrite a) s) (\<lambda>_ s.
     if \<not> pi_readopen (pipes s a) \<and> \<not> pi_writeopen (pipes s a) then
       bnd (rel (L_pipe a) s) (\<lambda>_ s.
       kfree a s)
     else rel (L_pipe a) s))"

text \<open>
  The loop of \<^verbatim>\<open>pipewrite\<close> with \<open>i\<close> bytes written and \<open>k = n - i\<close> to go, through the return. When the pipe is full
  the writer sleeps; resumed, it is at the test of the loop again.
\<close>

fun pipewrite_loop ::
  "nat \<Rightarrow> uint64 \<Rightarrow> uint64 \<Rightarrow> nat \<Rightarrow> nat \<Rightarrow> 'z pipe_state_scheme \<Rightarrow> ('z pipe_state_scheme, cint) res" where
  "pipewrite_loop pr a addr 0 i s =
     bnd (wakeup (Ch_pipe_nread a) s) (\<lambda>_ s.
     bnd (rel (L_pipe a) s) (\<lambda>_ s. Ret (of_nat i) s))"
| "pipewrite_loop pr a addr (Suc k) i s =
     bnd (if \<not> pi_readopen (pipes s a) then Ret True s else killed pr s) (\<lambda>stop s.
     if stop then bnd (rel (L_pipe a) s) (\<lambda>_ s. Ret (-1) s)
     else if pi_nwrite (pipes s a) = pi_nread (pipes s a) + of_nat PIPESIZE then
       bnd (wakeup (Ch_pipe_nread a) s) (\<lambda>_ s.
       bnd (sleep (Ch_pipe_nwrite a) (L_pipe a) s) (\<lambda>_ s. Ret (-1) s))
     else bnd (copyin (p_pagetable (procs s pr)) (addr + of_nat i) 1 s) (\<lambda>(r, bs) s.
       if r = -1 then
         bnd (wakeup (Ch_pipe_nread a) s) (\<lambda>_ s.
         bnd (rel (L_pipe a) s) (\<lambda>_ s. Ret (of_nat i) s))
       else
         let s = upd_pipe a (\<lambda>q. q\<lparr>pi_data := (pi_data q)(unat (pi_nwrite q) mod PIPESIZE := hd bs),
                                  pi_nwrite := pi_nwrite q + 1\<rparr>) s in
         pipewrite_loop pr a addr k (i + 1) s))"

definition pipewrite :: "uint64 \<Rightarrow> uint64 \<Rightarrow> cint \<Rightarrow> 'z pipe_state_scheme \<Rightarrow> ('z pipe_state_scheme, cint) res" where
  "pipewrite a addr n s =
     bnd (myproc s) (\<lambda>pr s.
     bnd (acq (L_pipe a) s) (\<lambda>_ s.
     pipewrite_loop pr a addr (nat (sint n)) 0 s))"

definition pipewrite_resume ::
  "uint64 \<Rightarrow> uint64 \<Rightarrow> nat \<Rightarrow> nat \<Rightarrow> 'z pipe_state_scheme \<Rightarrow> ('z pipe_state_scheme, cint) res" where
  "pipewrite_resume a addr k i s =
     bnd (sleep_resume (L_pipe a) s) (\<lambda>_ s.
     bnd (myproc s) (\<lambda>pr s.
     pipewrite_loop pr a addr k i s))"

text \<open>The copying loop of \<^verbatim>\<open>piperead\<close>; its value is \<^verbatim>\<open>i\<close> at the end.\<close>

fun piperead_copy ::
  "nat \<Rightarrow> uint64 \<Rightarrow> uint64 \<Rightarrow> nat \<Rightarrow> nat \<Rightarrow> 'z pipe_state_scheme \<Rightarrow> ('z pipe_state_scheme, nat) res" where
  "piperead_copy pr a addr 0 i s = Ret i s"
| "piperead_copy pr a addr (Suc k) i s =
     (if pi_nread (pipes s a) = pi_nwrite (pipes s a) then Ret i s
      else let ch = pi_data (pipes s a) (unat (pi_nread (pipes s a)) mod PIPESIZE);
               s = upd_pipe a (\<lambda>q. q\<lparr>pi_nread := pi_nread q + 1\<rparr>) s
           in bnd (copyout (p_pagetable (procs s pr)) (addr + of_nat i) [ch] s) (\<lambda>r s.
              if r = -1 then Ret i s
              else piperead_copy pr a addr k (i + 1) s))"

text \<open>\<^verbatim>\<open>piperead\<close> from the test for an empty pipe on.\<close>

definition piperead_body :: "uint64 \<Rightarrow> uint64 \<Rightarrow> nat \<Rightarrow> 'z pipe_state_scheme \<Rightarrow> ('z pipe_state_scheme, cint) res" where
  "piperead_body a addr n s =
     bnd (myproc s) (\<lambda>pr s.
     if pi_nread (pipes s a) = pi_nwrite (pipes s a) \<and> pi_writeopen (pipes s a) then
       bnd (killed pr s) (\<lambda>k s.
       if k then bnd (rel (L_pipe a) s) (\<lambda>_ s. Ret (-1) s)
       else bnd (sleep (Ch_pipe_nread a) (L_pipe a) s) (\<lambda>_ s. Ret (-1) s))
     else bnd (piperead_copy pr a addr n 0 s) (\<lambda>i s.
       bnd (wakeup (Ch_pipe_nwrite a) s) (\<lambda>_ s.
       bnd (rel (L_pipe a) s) (\<lambda>_ s. Ret (of_nat i) s))))"

definition piperead :: "uint64 \<Rightarrow> uint64 \<Rightarrow> cint \<Rightarrow> 'z pipe_state_scheme \<Rightarrow> ('z pipe_state_scheme, cint) res" where
  "piperead a addr n s =
     bnd (acq (L_pipe a) s) (\<lambda>_ s.
     piperead_body a addr (nat (sint n)) s)"

definition piperead_resume :: "uint64 \<Rightarrow> uint64 \<Rightarrow> nat \<Rightarrow> 'z pipe_state_scheme \<Rightarrow> ('z pipe_state_scheme, cint) res" where
  "piperead_resume a addr n s =
     bnd (sleep_resume (L_pipe a) s) (\<lambda>_ s. piperead_body a addr n s)"

section \<open>A pipe is a queue\<close>

interpretation pipe_ring: ring PIPESIZE "TYPE(32)"
  by unfold_locales (simp_all add: PIPESIZE_def)

definition pipe_queue :: "pipe \<Rightarrow> byte list" where
  "pipe_queue q = ring_queue PIPESIZE (pi_data q) (pi_nread q) (pi_nwrite q)"

definition pipe_ok :: "pipe \<Rightarrow> bool" where
  "pipe_ok q \<longleftrightarrow> length (pipe_queue q) \<le> PIPESIZE"

abbreviation push_byte :: "byte \<Rightarrow> pipe \<Rightarrow> pipe" where
  "push_byte ch q \<equiv> q\<lparr>pi_data := (pi_data q)(unat (pi_nwrite q) mod PIPESIZE := ch), pi_nwrite := pi_nwrite q + 1\<rparr>"

lemma push_byte_queue: "length (pipe_queue q) < PIPESIZE \<Longrightarrow> pipe_queue (push_byte ch q) = pipe_queue q @ [ch]"
  using pipe_ring.push by (simp add: pipe_queue_def)

lemma pipe_full: "pipe_ok q \<Longrightarrow> pi_nwrite q = pi_nread q + of_nat PIPESIZE \<longleftrightarrow> length (pipe_queue q) = PIPESIZE"
  using pipe_ring.full_iff by (simp add: pipe_queue_def pipe_ok_def)

lemma pipe_empty: "pi_nread q = pi_nwrite q \<longleftrightarrow> pipe_queue q = []"
  by (auto simp: pipe_queue_def ring_Nil_iff)

lemma pop_byte_queue:
  "pipe_queue q \<noteq> [] \<Longrightarrow> pipe_queue (q\<lparr>pi_nread := pi_nread q + 1\<rparr>) = tl (pipe_queue q) \<and>
     pi_data q (unat (pi_nread q) mod PIPESIZE) = hd (pipe_queue q)"
  using pipe_ring.pop [of "pi_nwrite q" "pi_nread q" "pi_data q"] by (auto simp: pipe_queue_def ring_Nil_iff)

text \<open>A process in the middle of a call on pipe \<open>a\<close>: it holds the pipe's lock and no other, and has not been killed.\<close>

definition pipe_user :: "uint64 \<Rightarrow> nat \<Rightarrow> uint64 \<Rightarrow> uint64 set \<Rightarrow> 'z pipe_state_scheme \<Rightarrow> bool" where
  "pipe_user a pr pt S s \<longleftrightarrow> curproc s = Some pr \<and> held s = {L_pipe a} \<and> p_pagetable (procs s pr) = pt \<and> uvm_ok pt S s \<and>
     \<not> p_killed (procs s pr) \<and> pipe_ok (pipes s a)"

text \<open>The state after the pipe became \<open>q\<close> and the sleepers on channel \<open>c\<close> were woken.\<close>

definition pipe_now :: "uint64 \<Rightarrow> pipe \<Rightarrow> chan \<Rightarrow> 'z pipe_state_scheme \<Rightarrow> 'z pipe_state_scheme" where
  "pipe_now a q c s = s\<lparr>pipes := (pipes s)(a := q), procs := woken c (curproc s) (procs s)\<rparr>"

lemma wakeup_pipe: "held s = {L_pipe a} \<Longrightarrow> wakeup c s = Ret () (pipe_now a (pipes s a) c s)"
  by (simp add: may_wake_def pipe_now_def)

lemma pipe_user_upd:
  assumes "pipe_user a pr pt S s" "pipe_ok (f (pipes s a))"
  shows "pipe_user a pr pt S (upd_pipe a f s)"
  using assms uvm_cong(1) [of "upd_pipe a f s" s pt S] by (simp add: pipe_user_def upd_pipe_def)

lemma pipe_now_upd: "pipe_now a q c (upd_pipe a f s) = pipe_now a q c s"
  by (simp add: pipe_now_def upd_pipe_def)

lemma pipewrite_loop_ok:
  assumes "pipe_user a pr pt S s" "pi_readopen (pipes s a)"
  shows "\<exists>bs q. length bs \<le> k \<and> (\<forall>j < length bs. umem s pt (addr + of_nat (i + j)) = Some (bs ! j)) \<and>
    pipe_queue q = pipe_queue (pipes s a) @ bs \<and> pipe_ok q \<and> pi_readopen q \<and> pi_writeopen q = pi_writeopen (pipes s a) \<and>
    (let t = pipe_now a q (Ch_pipe_nread a) s in
     pipewrite_loop pr a addr k i s = Ret (of_nat (i + length bs)) (t\<lparr>held := {}\<rparr>) \<and>
       (length bs = k \<or> umem s pt (addr + of_nat (i + length bs)) = None) \<or>
     pipewrite_loop pr a addr k i s = Sleep (Ch_pipe_nwrite a) (asleep pr (Ch_pipe_nwrite a) t) \<and>
       length bs < k \<and> length (pipe_queue q) = PIPESIZE)"
  using assms
proof (induction k arbitrary: i s)
  case 0
  let ?q = "pipes s a"
  have "pipewrite_loop pr a addr 0 i s = Ret (of_nat i) ((pipe_now a ?q (Ch_pipe_nread a) s)\<lparr>held := {}\<rparr>)"
    using 0 by (simp add: pipe_user_def wakeup_pipe) (simp add: pipe_now_def)
  then show ?case using 0 by (intro exI [of _ "[]"] exI [of _ ?q]) (simp add: pipe_user_def)
next
  case (Suc k)
  let ?q = "pipes s a"
  have u: "curproc s = Some pr" "held s = {L_pipe a}" "p_pagetable (procs s pr) = pt" "uvm_ok pt S s"
    "\<not> p_killed (procs s pr)" "pipe_ok ?q" using Suc.prems(1) by (auto simp: pipe_user_def)
  show ?case
  proof (cases "length (pipe_queue ?q) = PIPESIZE")
    case True
    have "pipewrite_loop pr a addr (Suc k) i s = Sleep (Ch_pipe_nwrite a) (asleep pr (Ch_pipe_nwrite a) (pipe_now a ?q (Ch_pipe_nread a) s))"
      using u Suc.prems(2) True sleep_asleep [of "pipe_now a ?q (Ch_pipe_nread a) s" pr "L_pipe a"]
      by (simp add: pipe_full wakeup_pipe) (simp add: pipe_now_def)
    then show ?thesis using True u Suc.prems(2) by (intro exI [of _ "[]"] exI [of _ ?q]) simp
  next
    case False
    then have room: "length (pipe_queue ?q) < PIPESIZE" using u(6) by (simp add: pipe_ok_def)
    note c1 = copyin_byte [OF u(4), of "addr + of_nat i"]
    show ?thesis
    proof (cases "umem s pt (addr + of_nat i)")
      case None
      have "pipewrite_loop pr a addr (Suc k) i s = Ret (of_nat i) ((pipe_now a ?q (Ch_pipe_nread a) s)\<lparr>held := {}\<rparr>)"
        using u Suc.prems(2) False None c1 by (simp add: pipe_full wakeup_pipe) (simp add: pipe_now_def)
      then show ?thesis using None u Suc.prems(2) by (intro exI [of _ "[]"] exI [of _ ?q]) simp
    next
      case (Some b)
      let ?s = "upd_pipe a (push_byte b) s"
      have pq: "pipe_queue (push_byte b ?q) = pipe_queue ?q @ [b]" by (rule push_byte_queue [OF room])
      then have "pipe_user a pr pt S ?s" using Suc.prems(1) room by (intro pipe_user_upd) (simp_all add: pipe_ok_def)
      moreover have "pi_readopen (pipes ?s a)" using Suc.prems(2) by (simp add: upd_pipe_def)
      moreover have um: "umem ?s pt va = umem s pt va" for va by (rule uvm_cong(3)) (simp_all add: upd_pipe_def)
      moreover have qs: "pipes ?s a = push_byte b ?q" by (simp add: upd_pipe_def)
      ultimately obtain bs q where IH: "length bs \<le> k" "\<forall>j < length bs. umem s pt (addr + of_nat (i + 1 + j)) = Some (bs ! j)"
        "pipe_queue q = pipe_queue ?q @ [b] @ bs" "pipe_ok q" "pi_readopen q" "pi_writeopen q = pi_writeopen ?q"
        "let t = pipe_now a q (Ch_pipe_nread a) s in
         pipewrite_loop pr a addr k (i + 1) ?s = Ret (of_nat (i + 1 + length bs)) (t\<lparr>held := {}\<rparr>) \<and>
           (length bs = k \<or> umem s pt (addr + of_nat (i + 1 + length bs)) = None) \<or>
         pipewrite_loop pr a addr k (i + 1) ?s = Sleep (Ch_pipe_nwrite a) (asleep pr (Ch_pipe_nwrite a) t) \<and>
           length bs < k \<and> length (pipe_queue q) = PIPESIZE"
        using Suc.IH [of ?s "i + 1"] pq by (auto simp: pipe_now_upd simp del: of_nat_add of_nat_Suc)
      have step: "pipewrite_loop pr a addr (Suc k) i s = pipewrite_loop pr a addr k (i + 1) ?s"
        using u Suc.prems(2) False Some c1 by (simp add: pipe_full)
      have "\<forall>j < length (b # bs). umem s pt (addr + of_nat (i + j)) = Some ((b # bs) ! j)"
        using IH(2) Some by (auto simp: nth_Cons algebra_simps split: nat.split)
      then show ?thesis using IH step by (intro exI [of _ "b # bs"] exI [of _ q]) (auto simp: Let_def simp del: of_nat_add of_nat_Suc)
    qed
  qed
qed

lemma piperead_copy_ok:
  assumes "pipe_user a pr pt S s" "i + k < 2 ^ 64"
  defines "Q \<equiv> pipe_queue (pipes s a)"
  shows "\<exists>n m q. n \<le> k \<and> n \<le> length Q \<and> pipe_ok q \<and> pi_readopen q = pi_readopen (pipes s a) \<and> pi_writeopen q = pi_writeopen (pipes s a) \<and>
    (let t = put_mem m (s\<lparr>pipes := (pipes s)(a := q)\<rparr>) in
     piperead_copy pr a addr k i s = Ret (i + n) t \<and> uvm_ok pt S t \<and>
     (\<forall>j < n. umem s pt (addr + of_nat (i + j)) \<noteq> None \<and> umem t pt (addr + of_nat (i + j)) = Some (Q ! j)) \<and>
     (\<forall>va'. (\<forall>j < n. va' \<noteq> addr + of_nat (i + j)) \<longrightarrow> umem t pt va' = umem s pt va')) \<and>
    (if n < k \<and> n < length Q then umem s pt (addr + of_nat (i + n)) = None \<and> pipe_queue q = drop (n + 1) Q
     else pipe_queue q = drop n Q)"
  using assms(1,2) unfolding Q_def
proof (induction k arbitrary: i s)
  case 0
  have e: "put_mem (mem s) (s\<lparr>pipes := (pipes s)(a := pipes s a)\<rparr>) = s" by (simp add: put_mem_def)
  have "uvm_ok pt S s" "pipe_ok (pipes s a)" using 0 by (simp_all add: pipe_user_def)
  then show ?case unfolding Let_def
    by (intro exI [of _ 0] exI [of _ "mem s"] exI [of _ "pipes s a"], unfold e) simp
next
  case (Suc k)
  let ?q = "pipes s a" and ?pop = "\<lambda>q. q\<lparr>pi_nread := pi_nread q + 1\<rparr>"
  show ?case
  proof (cases "pipe_queue ?q = []")
    case True
    have e: "put_mem (mem s) (s\<lparr>pipes := (pipes s)(a := ?q)\<rparr>) = s" by (simp add: put_mem_def)
    have r: "piperead_copy pr a addr (Suc k) i s = Ret i s" using True by (simp add: pipe_empty)
    have u: "uvm_ok pt S s" "pipe_ok ?q" using Suc.prems(1) by (simp_all add: pipe_user_def)
    show ?thesis unfolding Let_def
      by (rule exI [of _ 0], rule exI [of _ "mem s"], rule exI [of _ ?q], unfold e r) (use True u in simp)
  next
    case False
    note pop = pop_byte_queue [OF False]
    let ?s = "upd_pipe a ?pop s"
    have "pipe_ok ?q" using Suc.prems(1) by (simp add: pipe_user_def)
    then have popok: "pipe_ok (?pop ?q)" using conjunct1 [OF pop] by (simp add: pipe_ok_def)
    have s1: "pipe_user a pr pt S ?s" using pipe_user_upd [OF Suc.prems(1), of ?pop] popok by simp
    have um1: "umem ?s pt va = umem s pt va" for va by (rule uvm_cong(3)) (simp_all add: upd_pipe_def)
    have ok1: "uvm_ok pt S ?s" "p_pagetable (procs ?s pr) = pt" using s1 by (auto simp: pipe_user_def)
    obtain r m where c0: "copyout pt (addr + of_nat i) [hd (pipe_queue ?q)] ?s = Ret r (put_mem m ?s)" "uvm_ok pt S (put_mem m ?s)"
      "r = (if umem ?s pt (addr + of_nat i) = None then -1 else 0)"
      "\<forall>va'. umem (put_mem m ?s) pt va' = (if va' = addr + of_nat i \<and> umem ?s pt (addr + of_nat i) \<noteq> None then Some (hd (pipe_queue ?q)) else umem ?s pt va')"
      by (rule copyout_byte [OF ok1(1)])
    note c = c0 [unfolded um1]
    have step: "piperead_copy pr a addr (Suc k) i s =
        (if r = -1 then Ret i (put_mem m ?s) else piperead_copy pr a addr k (i + 1) (put_mem m ?s))"
      using False pop c(1) ok1(2) by (simp add: pipe_empty)
    have us: "?s = s\<lparr>pipes := (pipes s)(a := ?pop ?q)\<rparr>" by (simp add: upd_pipe_def)
    show ?thesis
    proof (cases "umem s pt (addr + of_nat i) = None")
      case True
      then have st: "piperead_copy pr a addr (Suc k) i s = Ret i (put_mem m ?s)" using c(3) step by simp
      have e: "s\<lparr>pipes := (pipes s)(a := ?pop ?q)\<rparr> = ?s" by (simp only: us)
      have um: "umem (put_mem m ?s) pt va' = umem s pt va'" for va' using c(4) True by simp
      have d: "pipe_queue (?pop ?q) = drop (0 + 1) (pipe_queue ?q)" using pop by (simp add: drop_Suc)
      show ?thesis unfolding Let_def
        by (rule exI [of _ 0], rule exI [of _ m], rule exI [of _ "?pop ?q"], unfold e st um d)
          (use True False c(2) popok in simp)
    next
      case some: False
      then have r: "r \<noteq> -1" using c(3) by simp
      let ?t = "put_mem m ?s"
      have q2: "pipes ?t a = ?pop ?q" by (simp add: put_mem_def upd_pipe_def)
      have "pipe_user a pr pt S ?t" using s1 c(2) by (simp add: pipe_user_def put_mem_def)
      moreover have "i + 1 + k < 2 ^ 64" using Suc.prems(2) by simp
      note IH0 = Suc.IH [OF calculation this, unfolded q2 Let_def conjunct1 [OF pop]]
      have flags: "pi_readopen (?pop ?q) = pi_readopen ?q" "pi_writeopen (?pop ?q) = pi_writeopen ?q" by simp_all
      obtain n m' q where IH: "n \<le> k" "n \<le> length (tl (pipe_queue ?q))" "pipe_ok q" "pi_readopen q = pi_readopen ?q"
        "pi_writeopen q = pi_writeopen ?q" and
        IH2: "piperead_copy pr a addr k (i + 1) ?t = Ret (i + 1 + n) (put_mem m' (?t\<lparr>pipes := (pipes ?t)(a := q)\<rparr>))"
        "uvm_ok pt S (put_mem m' (?t\<lparr>pipes := (pipes ?t)(a := q)\<rparr>))"
        "\<forall>j < n. umem ?t pt (addr + of_nat (i + 1 + j)) \<noteq> None \<and>
           umem (put_mem m' (?t\<lparr>pipes := (pipes ?t)(a := q)\<rparr>)) pt (addr + of_nat (i + 1 + j)) = Some (tl (pipe_queue ?q) ! j)"
        "\<forall>va'. (\<forall>j < n. va' \<noteq> addr + of_nat (i + 1 + j)) \<longrightarrow>
           umem (put_mem m' (?t\<lparr>pipes := (pipes ?t)(a := q)\<rparr>)) pt va' = umem ?t pt va'" and
        IH3: "if n < k \<and> n < length (tl (pipe_queue ?q))
          then umem ?t pt (addr + of_nat (i + 1 + n)) = None \<and> pipe_queue q = drop (n + 1) (tl (pipe_queue ?q))
          else pipe_queue q = drop n (tl (pipe_queue ?q))"
        using IH0 [unfolded flags] unfolding q2 by blast
      have tt: "put_mem m' (?t\<lparr>pipes := (pipes ?t)(a := q)\<rparr>) = put_mem m' (s\<lparr>pipes := (pipes s)(a := q)\<rparr>)"
        by (simp add: put_mem_def upd_pipe_def)
      note IH2 = IH2 [unfolded tt]
      have ne: "addr + of_nat i \<noteq> addr + of_nat (i + 1 + j)" if "j < n" for j
      proof
        assume "addr + of_nat i = addr + of_nat (i + 1 + j)"
        then have e: "of_nat i = (of_nat (i + 1 + j) :: uint64)" by (simp only: add_left_cancel)
        have "i < 2 ^ 64" "i + 1 + j < 2 ^ 64" using that IH(1) Suc.prems(2) by linarith+
        from of_nat_inj64 [OF this e] show False by simp
      qed
      have reach: "umem s pt (addr + of_nat (i + 1 + j)) \<noteq> None" if "j < n" for j
      proof -
        have "umem ?t pt (addr + of_nat (i + 1 + j)) = umem s pt (addr + of_nat (i + 1 + j))"
          unfolding c(4) [rule_format] using ne [OF that] by simp
        then show ?thesis using conjunct1 [OF IH2(3) [rule_format, OF that]] by (simp only: not_False_eq_True)
      qed
      have "umem (put_mem m' (s\<lparr>pipes := (pipes s)(a := q)\<rparr>)) pt (addr + of_nat i) = Some (hd (pipe_queue ?q))"
        using IH2(4) ne c(4) some by auto
      then have "\<forall>j < Suc n. umem s pt (addr + of_nat (i + j)) \<noteq> None \<and>
          umem (put_mem m' (s\<lparr>pipes := (pipes s)(a := q)\<rparr>)) pt (addr + of_nat (i + j)) = Some (pipe_queue ?q ! j)"
        using IH2(3) False IH(2) some reach by (auto simp: less_Suc_eq_0_disj nth_tl hd_conv_nth algebra_simps)
      moreover have "umem (put_mem m' (s\<lparr>pipes := (pipes s)(a := q)\<rparr>)) pt va' = umem s pt va'"
        if out: "\<forall>j < Suc n. va' \<noteq> addr + of_nat (i + j)" for va'
      proof -
        have "va' \<noteq> addr + of_nat (i + 1 + j)" if "j < n" for j
          using out [rule_format, of "Suc j"] that by simp
        moreover have "va' \<noteq> addr + of_nat i" using out [rule_format, of 0] by simp
        ultimately show ?thesis using IH2(4) c(4) by simp
      qed
      moreover have "piperead_copy pr a addr (Suc k) i s = Ret (i + Suc n) (put_mem m' (s\<lparr>pipes := (pipes s)(a := q)\<rparr>))"
        using step r IH2(1) by simp
      moreover have "if Suc n < Suc k \<and> Suc n < length (pipe_queue ?q)
          then umem s pt (addr + of_nat (i + Suc n)) = None \<and> pipe_queue q = drop (Suc n + 1) (pipe_queue ?q)
          else pipe_queue q = drop (Suc n) (pipe_queue ?q)"
      proof -
        have u: "umem ?t pt (addr + of_nat (i + 1 + n)) = None \<Longrightarrow> umem s pt (addr + of_nat (i + 1 + n)) = None"
          using c(4) by (simp split: if_splits)
        have e: "i + Suc n = i + 1 + n" by simp
        have l: "Suc n < Suc k \<and> Suc n < length (pipe_queue ?q) \<longleftrightarrow> n < k \<and> n < length (tl (pipe_queue ?q))" by auto
        have d: "drop (Suc x) (pipe_queue ?q) = drop x (tl (pipe_queue ?q))" for x by (rule drop_Suc)
        show ?thesis unfolding e l using IH3 u by (cases "n < k \<and> n < length (tl (pipe_queue ?q))") (simp_all only: if_True if_False d add_Suc simp_thms)
      qed
      moreover have "Suc n \<le> length (pipe_queue ?q)" using IH(2) False by (cases "pipe_queue ?q") auto
      moreover have "Suc n \<le> Suc k" using IH(1) by simp
      ultimately show ?thesis using IH(3-5) IH2(2) unfolding Let_def
        by (intro exI [of _ "Suc n"] exI [of _ m'] exI [of _ q] conjI) blast+
    qed
  qed
qed

text \<open>C20. A pipe is a queue of bytes, at most 512, whatever its wrapping counters are. A write appends to it, in order, the bytes at the
  user address, and wakes the readers. It returns once it has appended all of them, or the ones before the first byte the user
  cannot access; if the queue becomes full before that, the writer sleeps with the queue full and goes on when it is woken. Other pipes
  do not change.\<close>

theorem pipewrite_appends:
  assumes "curproc s = Some pr" "held s = {}" "uvm_ok (p_pagetable (procs s pr)) S s" "\<not> p_killed (procs s pr)"
    "pipe_ok (pipes s a)" "pi_readopen (pipes s a)"
  shows "\<exists>bs q. pipe_queue q = pipe_queue (pipes s a) @ bs \<and> pipe_ok q \<and> length bs \<le> nat (sint n) \<and>
    (\<forall>j < length bs. umem s (p_pagetable (procs s pr)) (addr + of_nat j) = Some (bs ! j)) \<and>
    (let t = pipe_now a q (Ch_pipe_nread a) s in
     pipewrite a addr n s = Ret (of_nat (length bs)) t \<and>
       (length bs = nat (sint n) \<or> umem s (p_pagetable (procs s pr)) (addr + of_nat (length bs)) = None) \<or>
     pipewrite a addr n s = Sleep (Ch_pipe_nwrite a) (asleep pr (Ch_pipe_nwrite a) t) \<and>
       length bs < nat (sint n) \<and> length (pipe_queue q) = PIPESIZE)"
proof -
  let ?pt = "p_pagetable (procs s pr)" and ?s = "s\<lparr>held := {L_pipe a}\<rparr>"
  have um: "umem ?s ?pt va = umem s ?pt va" for va by (rule uvm_cong(3)) simp_all
  have "pipe_user a pr ?pt S ?s" using assms uvm_cong(1) [of ?s s ?pt S] by (simp add: pipe_user_def)
  moreover have "pi_readopen (pipes ?s a)" using assms(6) by simp
  ultimately obtain bs q where b: "length bs \<le> nat (sint n)" "\<forall>j < length bs. umem s ?pt (addr + of_nat j) = Some (bs ! j)"
    "pipe_queue q = pipe_queue (pipes s a) @ bs" "pipe_ok q"
    "let t = pipe_now a q (Ch_pipe_nread a) ?s in
     pipewrite_loop pr a addr (nat (sint n)) 0 ?s = Ret (of_nat (length bs)) (t\<lparr>held := {}\<rparr>) \<and>
       (length bs = nat (sint n) \<or> umem s ?pt (addr + of_nat (length bs)) = None) \<or>
     pipewrite_loop pr a addr (nat (sint n)) 0 ?s = Sleep (Ch_pipe_nwrite a) (asleep pr (Ch_pipe_nwrite a) t) \<and>
       length bs < nat (sint n) \<and> length (pipe_queue q) = PIPESIZE"
    using pipewrite_loop_ok [of a pr ?pt S ?s "nat (sint n)" addr 0] um by auto
  have "pipewrite a addr n s = pipewrite_loop pr a addr (nat (sint n)) 0 ?s"
    using assms(1,2) by (simp add: pipewrite_def)
  moreover have "(pipe_now a q (Ch_pipe_nread a) ?s)\<lparr>held := {}\<rparr> = pipe_now a q (Ch_pipe_nread a) s"
    "asleep pr c (pipe_now a q (Ch_pipe_nread a) ?s) = asleep pr c (pipe_now a q (Ch_pipe_nread a) s)" for c
    using assms(2) by (simp_all add: pipe_now_def asleep_def upd_proc_def)
  ultimately show ?thesis using b by (intro exI [of _ bs] exI [of _ q]) (auto simp: Let_def)
qed

text \<open>C21. A read takes bytes from the front of the queue and stores them, in order, at the user address, as many as were asked for or as
  there are, and wakes the writers; no other byte of the user's memory changes. Where it comes to a byte the user cannot access it
  stops, and the byte it was about to store is gone from the queue: neither returned now nor by a later read. An empty pipe with an
  open write end puts the reader to sleep.\<close>

theorem piperead_takes:
  assumes "curproc s = Some pr" "held s = {}" "uvm_ok (p_pagetable (procs s pr)) S s" "\<not> p_killed (procs s pr)" "pipe_ok (pipes s a)"
  defines "Q \<equiv> pipe_queue (pipes s a)" and "pt \<equiv> p_pagetable (procs s pr)"
  shows "if Q = [] \<and> pi_writeopen (pipes s a)
    then piperead a addr n s = Sleep (Ch_pipe_nread a) (asleep pr (Ch_pipe_nread a) s)
    else \<exists>k m q. k \<le> nat (sint n) \<and> k \<le> length Q \<and> pipe_ok q \<and>
      piperead a addr n s = Ret (of_nat k) (put_mem m (pipe_now a q (Ch_pipe_nwrite a) s)) \<and>
      (\<forall>j < k. umem s pt (addr + of_nat j) \<noteq> None \<and> umem (put_mem m s) pt (addr + of_nat j) = Some (Q ! j)) \<and>
      (\<forall>va. (\<forall>j < k. va \<noteq> addr + of_nat j) \<longrightarrow> umem (put_mem m s) pt va = umem s pt va) \<and>
      (if k < nat (sint n) \<and> k < length Q then umem s pt (addr + of_nat k) = None \<and> pipe_queue q = drop (k + 1) Q
       else pipe_queue q = drop k Q)"
proof -
  let ?s = "s\<lparr>held := {L_pipe a}\<rparr>"
  have um: "umem ?s pt va = umem s pt va" for va by (rule uvm_cong(3)) simp_all
  have u: "pipe_user a pr pt S ?s" using assms uvm_cong(1) [of ?s s pt S] by (simp add: pipe_user_def)
  have e: "piperead a addr n s = piperead_body a addr (nat (sint n)) ?s" using assms(2) by (simp add: piperead_def)
  show ?thesis
  proof (cases "Q = [] \<and> pi_writeopen (pipes s a)")
    case True
    have "asleep pr (Ch_pipe_nread a) ?s = asleep pr (Ch_pipe_nread a) s" by (simp add: asleep_def)
    then show ?thesis using True e assms(1,4) sleep_asleep [of ?s pr "L_pipe a"]
      by (simp add: piperead_body_def Q_def pipe_empty)
  next
    case False
    have "sint n < 2 ^ 31" using sint_less [of n] by simp
    then have "nat (sint n) < 2 ^ 31" by simp
    then have l: "0 + nat (sint n) < 2 ^ 64" by simp
    have ps: "pipes ?s = pipes s" by simp
    obtain k m q where c: "k \<le> nat (sint n)" "k \<le> length Q" "pipe_ok q"
      "piperead_copy pr a addr (nat (sint n)) 0 ?s = Ret k (put_mem m (?s\<lparr>pipes := (pipes s)(a := q)\<rparr>))"
      "\<forall>j < k. umem s pt (addr + of_nat j) \<noteq> None \<and> umem (put_mem m (?s\<lparr>pipes := (pipes s)(a := q)\<rparr>)) pt (addr + of_nat j) = Some (Q ! j)"
      "\<forall>va. (\<forall>j < k. va \<noteq> addr + of_nat j) \<longrightarrow> umem (put_mem m (?s\<lparr>pipes := (pipes s)(a := q)\<rparr>)) pt va = umem s pt va"
      "if k < nat (sint n) \<and> k < length Q then umem s pt (addr + of_nat k) = None \<and> pipe_queue q = drop (k + 1) Q
       else pipe_queue q = drop k Q"
      using piperead_copy_ok [OF u l, of addr] unfolding Let_def Q_def um ps add_0 by blast
    let ?t = "put_mem m (?s\<lparr>pipes := (pipes s)(a := q)\<rparr>)"
    have um2: "umem (put_mem m s) pt va = umem ?t pt va" for va by (rule uvm_cong(3)) (simp_all add: put_mem_def assms(2))
    have "wakeup (Ch_pipe_nwrite a) ?t = Ret () (pipe_now a (pipes ?t a) (Ch_pipe_nwrite a) ?t)"
      by (rule wakeup_pipe) (simp add: put_mem_def)
    moreover have "(pipe_now a (pipes ?t a) (Ch_pipe_nwrite a) ?t)\<lparr>held := {}\<rparr> = put_mem m (pipe_now a q (Ch_pipe_nwrite a) s)"
      using assms(2) by (simp add: pipe_now_def put_mem_def)
    ultimately have "piperead a addr n s = Ret (of_nat k) (put_mem m (pipe_now a q (Ch_pipe_nwrite a) s))"
      using False assms(1) c(4) by (simp add: e piperead_body_def Q_def pipe_empty) (auto simp: pipe_now_def put_mem_def)
    moreover have "\<not> (Q = [] \<and> pi_writeopen (pipes s a))" using False .
    ultimately show ?thesis using c(1-3,5-7) unfolding um2 [symmetric] if_not_P [OF False]
      by (intro exI [of _ k] exI [of _ m] exI [of _ q] conjI) blast+
  qed
qed

end
