(* ===== verification/File.thy ===== *)
theory File
  imports Pipe
begin

text \<open>
  \<^verbatim>\<open>kernel/file.c\<close> with \<^verbatim>\<open>pipealloc\<close> of \<^verbatim>\<open>kernel/pipe.c\<close>: the table of open files with its reference counts, and
  reading, writing and closing a file of each kind. Pointers to table entries are indices.
\<close>

definition NFILE :: nat where "NFILE = 100"

datatype ftype = FD_NONE | FD_PIPE | FD_INODE | FD_DEVICE

record struct_file =
  f_type :: ftype
  f_ref :: int
  f_readable :: bool
  f_writable :: bool
  f_pipe :: uint64
  f_ip :: nat
  f_off :: uint32
  f_major :: uint16

record file_state = pipe_state +
  ftable :: "nat \<Rightarrow> struct_file"

definition upd_file :: "nat \<Rightarrow> (struct_file \<Rightarrow> struct_file) \<Rightarrow> 'z file_state_scheme \<Rightarrow> 'z file_state_scheme" where
  "upd_file f g s = s\<lparr>ftable := (ftable s)(f := g (ftable s f))\<rparr>"

section \<open>Reference counts\<close>

definition filealloc :: "'z file_state_scheme \<Rightarrow> ('z file_state_scheme, nat option) res" where
  "filealloc s =
     bnd (acq L_ftable s) (\<lambda>_ s.
     case find (\<lambda>f. f_ref (ftable s f) = 0) [0..<NFILE] of
       Some f \<Rightarrow>
         let s = upd_file f (\<lambda>q. q\<lparr>f_ref := 1\<rparr>) s in
         bnd (rel L_ftable s) (\<lambda>_ s. Ret (Some f) s)
     | None \<Rightarrow> bnd (rel L_ftable s) (\<lambda>_ s. Ret None s))"

definition filedup :: "nat \<Rightarrow> 'z file_state_scheme \<Rightarrow> ('z file_state_scheme, nat) res" where
  "filedup f s =
     bnd (acq L_ftable s) (\<lambda>_ s.
     if f_ref (ftable s f) < 1 then Panic ''filedup''
     else let s = upd_file f (\<lambda>q. q\<lparr>f_ref := f_ref q + 1\<rparr>) s in
       bnd (rel L_ftable s) (\<lambda>_ s. Ret f s))"

definition fileclose :: "nat \<Rightarrow> 'z file_state_scheme \<Rightarrow> ('z file_state_scheme, unit) res" where
  "fileclose f s =
     bnd (acq L_ftable s) (\<lambda>_ s.
     if f_ref (ftable s f) < 1 then Panic ''fileclose''
     else let s = upd_file f (\<lambda>q. q\<lparr>f_ref := f_ref q - 1\<rparr>) s in
       if f_ref (ftable s f) > 0 then rel L_ftable s
       else let ff = ftable s f;
                s = upd_file f (\<lambda>q. q\<lparr>f_ref := 0, f_type := FD_NONE\<rparr>) s
            in bnd (rel L_ftable s) (\<lambda>_ s.
               if f_type ff = FD_PIPE then pipeclose (f_pipe ff) (f_writable ff) s
               else if f_type ff = FD_INODE \<or> f_type ff = FD_DEVICE then
                 bnd (begin_op s) (\<lambda>_ s.
                 bnd (iput (f_ip ff) s) (\<lambda>_ s.
                 end_op s))
               else Ret () s))"

definition pipealloc :: "'z file_state_scheme \<Rightarrow> ('z file_state_scheme, (nat \<times> nat) option) res" where
  "pipealloc s =
     bnd (filealloc s) (\<lambda>r0 s.
     case r0 of None \<Rightarrow> Ret None s
     | Some f0 \<Rightarrow>
       bnd (filealloc s) (\<lambda>r1 s.
       case r1 of None \<Rightarrow> bnd (fileclose f0 s) (\<lambda>_ s. Ret None s)
       | Some f1 \<Rightarrow>
         bnd (kalloc s) (\<lambda>a s.
         if a = 0 then
           bnd (fileclose f0 s) (\<lambda>_ s.
           bnd (fileclose f1 s) (\<lambda>_ s. Ret None s))
         else
           let s = upd_pipe a (\<lambda>q. q\<lparr>pi_readopen := True, pi_writeopen := True, pi_nwrite := 0, pi_nread := 0\<rparr>) s;
               s = upd_file f0 (\<lambda>q. q\<lparr>f_type := FD_PIPE, f_readable := True, f_writable := False, f_pipe := a\<rparr>) s;
               s = upd_file f1 (\<lambda>q. q\<lparr>f_type := FD_PIPE, f_readable := False, f_writable := True, f_pipe := a\<rparr>) s
           in Ret (Some (f0, f1)) s)))"

section \<open>Reading and writing\<close>

text \<open>\<open>pad\<close> is what the four padding bytes of the structure on the stack happen to hold.\<close>

definition filestat :: "byte list \<Rightarrow> nat \<Rightarrow> uint64 \<Rightarrow> 'z file_state_scheme \<Rightarrow> ('z file_state_scheme, cint) res" where
  "filestat pad f addr s =
     bnd (myproc s) (\<lambda>p s.
     let q = ftable s f in
     if f_type q = FD_INODE \<or> f_type q = FD_DEVICE then
       bnd (ilock (f_ip q) s) (\<lambda>_ s.
       let st = stati (f_ip q) pad s in
       bnd (iunlock (f_ip q) s) (\<lambda>_ s.
       bnd (copyout (p_pagetable (procs s p)) addr st s) (\<lambda>r s.
       if sint r < 0 then Ret (-1) s else Ret 0 s)))
     else Ret (-1) s)"

definition fileread :: "nat \<Rightarrow> uint64 \<Rightarrow> cint \<Rightarrow> 'z file_state_scheme \<Rightarrow> ('z file_state_scheme, cint) res" where
  "fileread f addr n s =
     (let q = ftable s f in
      if \<not> f_readable q then Ret (-1) s
      else case f_type q of
        FD_PIPE \<Rightarrow> piperead (f_pipe q) addr n s
      | FD_DEVICE \<Rightarrow>
          if sint (f_major q) < 0 \<or> sint (f_major q) \<ge> int NDEV then Ret (-1) s
          else (case fst (devsw s (unat (f_major q))) of
                  None \<Rightarrow> Ret (-1) s
                | Some Consoleread \<Rightarrow> consoleread (Udst addr) n s)
      | FD_INODE \<Rightarrow>
          bnd (ilock (f_ip q) s) (\<lambda>_ s.
          bnd (readi (f_ip q) (Udst addr) (f_off (ftable s f)) n s) (\<lambda>(r, _) s.
          let s = (if sint r > 0 then upd_file f (\<lambda>q. q\<lparr>f_off := f_off q + r\<rparr>) s else s) in
          bnd (iunlock (f_ip q) s) (\<lambda>_ s. Ret r s)))
      | FD_NONE \<Rightarrow> Panic ''fileread'')"

definition write_max :: nat where "write_max = ((MAXOPBLOCKS - 1 - 1 - 2) div 2) * BSIZE"

lemma write_max_pos: "0 < write_max" by (simp add: write_max_def MAXOPBLOCKS_def BSIZE_def)

text \<open>
  The loop over the pieces of a write to the inode \<open>ip\<close> of file \<open>f\<close>; the result is \<^verbatim>\<open>i\<close> at the end. \<^verbatim>\<open>f->ip\<close> of an open file never
  changes and is read once.
\<close>

function filewrite_loop ::
  "nat \<Rightarrow> nat \<Rightarrow> uint64 \<Rightarrow> nat \<Rightarrow> nat \<Rightarrow> 'z file_state_scheme \<Rightarrow> ('z file_state_scheme, nat) res" where
  "filewrite_loop f ip addr i n s =
     (if i < n then
        let n1 = (if n - i > write_max then write_max else n - i) in
        bnd (begin_op s) (\<lambda>_ s.
        bnd (ilock ip s) (\<lambda>_ s.
        bnd (writei ip (Usrc (addr + of_nat i)) (f_off (ftable s f)) (of_nat n1) s) (\<lambda>r s.
        let s = (if sint r > 0 then upd_file f (\<lambda>q. q\<lparr>f_off := f_off q + r\<rparr>) s else s) in
        bnd (iunlock ip s) (\<lambda>_ s.
        bnd (end_op s) (\<lambda>_ s.
        if r \<noteq> of_nat n1 then Ret i s
        else filewrite_loop f ip addr (i + n1) n s)))))
      else Ret i s)"
  by auto
termination by (relation "measure (\<lambda>(_, _, _, i, n, _). n - i)") (use write_max_pos in auto)

declare filewrite_loop.simps [simp del]

definition filewrite :: "nat \<Rightarrow> uint64 \<Rightarrow> cint \<Rightarrow> 'z file_state_scheme \<Rightarrow> ('z file_state_scheme, cint) res" where
  "filewrite f addr n s =
     (let q = ftable s f in
      if \<not> f_writable q then Ret (-1) s
      else case f_type q of
        FD_PIPE \<Rightarrow> pipewrite (f_pipe q) addr n s
      | FD_DEVICE \<Rightarrow>
          if sint (f_major q) < 0 \<or> sint (f_major q) \<ge> int NDEV then Ret (-1) s
          else (case snd (devsw s (unat (f_major q))) of
                  None \<Rightarrow> Ret (-1) s
                | Some Consolewrite \<Rightarrow> consolewrite (Usrc addr) n s)
      | FD_INODE \<Rightarrow>
          if sint n < 0 then Ret (-1) s
          else bnd (filewrite_loop f (f_ip q) addr 0 (unat n) s) (\<lambda>i s.
            Ret (if i = unat n then n else -1) s)
      | FD_NONE \<Rightarrow> Panic ''filewrite'')"

end
