(* ===== verification/Proc.thy ===== *)
theory Proc
  imports File
begin

text \<open>
  The life of a process, from \<^verbatim>\<open>kernel/proc.c\<close>: allocation and release of table slots, the first process, growing,
  \<^verbatim>\<open>fork\<close>, \<^verbatim>\<open>exit\<close>, \<^verbatim>\<open>wait\<close> and the scheduler. The addresses the linker gives to \<^verbatim>\<open>trampoline\<close> and \<^verbatim>\<open>forkret\<close> are
  fields of the state. A call that ends in a switch to the scheduler for good (\<^verbatim>\<open>exit\<close>) returns the state at the
  switch.
\<close>

record proc_state = file_state +
  initproc :: "nat option"
  nextpid :: cint
  ticks :: uint32
  trampoline_pa :: uint64
  forkret_pc :: uint64

section \<open>The process table\<close>

definition proc_mapstacks :: "uint64 \<Rightarrow> 'z kmem_state_scheme \<Rightarrow> ('z kmem_state_scheme, unit) res" where
  "proc_mapstacks kpgtbl =
     foreach [0..<NPROC] (\<lambda>i s.
       bnd (kalloc s) (\<lambda>pa s.
       if pa = 0 then Panic ''kalloc''
       else kvmmap kpgtbl (KSTACK i) pa 4096 (PTE_R OR PTE_W) s))"

definition procinit :: "'z kstate_scheme \<Rightarrow> ('z kstate_scheme, unit) res" where
  "procinit = foreach [0..<NPROC] (\<lambda>i s. Ret () (upd_proc i (\<lambda>p. p\<lparr>p_state := UNUSED, p_kstack := KSTACK i\<rparr>) s))"

definition allocpid :: "'z proc_state_scheme \<Rightarrow> ('z proc_state_scheme, cint) res" where
  "allocpid s =
     bnd (acq L_pid s) (\<lambda>_ s.
     let pid = nextpid s;
         s = s\<lparr>nextpid := nextpid s + 1\<rparr>
     in bnd (rel L_pid s) (\<lambda>_ s. Ret pid s))"

definition proc_pagetable :: "nat \<Rightarrow> 'z proc_state_scheme \<Rightarrow> ('z proc_state_scheme, uint64) res" where
  "proc_pagetable p s =
     bnd (uvmcreate s) (\<lambda>pagetable s.
     if pagetable = 0 then Ret 0 s
     else bnd (mappages pagetable TRAMPOLINE 4096 (trampoline_pa s) (PTE_R OR PTE_X) s) (\<lambda>r s.
     if sint r < 0 then bnd (uvmfree pagetable 0 s) (\<lambda>_ s. Ret 0 s)
     else bnd (mappages pagetable TRAPFRAME 4096 (p_trapframe (procs s p)) (PTE_R OR PTE_W) s) (\<lambda>r s.
     if sint r < 0 then
       bnd (uvmunmap pagetable TRAMPOLINE 1 False s) (\<lambda>_ s.
       bnd (uvmfree pagetable 0 s) (\<lambda>_ s. Ret 0 s))
     else Ret pagetable s)))"

definition proc_freepagetable :: "uint64 \<Rightarrow> uint64 \<Rightarrow> 'z kmem_state_scheme \<Rightarrow> ('z kmem_state_scheme, unit) res" where
  "proc_freepagetable pagetable sz s =
     bnd (uvmunmap pagetable TRAMPOLINE 1 False s) (\<lambda>_ s.
     bnd (uvmunmap pagetable TRAPFRAME 1 False s) (\<lambda>_ s.
     uvmfree pagetable sz s))"

definition freeproc :: "nat \<Rightarrow> 'z kmem_state_scheme \<Rightarrow> ('z kmem_state_scheme, unit) res" where
  "freeproc p s =
     bnd (if p_trapframe (procs s p) \<noteq> 0 then kfree (p_trapframe (procs s p)) s else Ret () s) (\<lambda>_ s.
     let s = upd_proc p (\<lambda>q. q\<lparr>p_trapframe := 0\<rparr>) s in
     bnd (if p_pagetable (procs s p) \<noteq> 0 then proc_freepagetable (p_pagetable (procs s p)) (p_sz (procs s p)) s
          else Ret () s) (\<lambda>_ s.
     Ret () (upd_proc p (\<lambda>q. q\<lparr>p_pagetable := 0, p_sz := 0, p_pid := 0, p_parent := None, p_name := (p_name q)[0 := 0],
                               p_chan := None, p_killed := False, p_xstate := 0, p_state := UNUSED\<rparr>) s)))"

text \<open>What a new trapframe page holds: \<^verbatim>\<open>kalloc\<close> fills pages with fives.\<close>

definition junk_tf :: trapframe where
  "junk_tf = (let v = 0x0505050505050505 in
     \<lparr>tf_kernel_satp = v, tf_kernel_sp = v, tf_kernel_trap = v, tf_epc = v, tf_kernel_hartid = v, tf_ra = v, tf_sp = v,
      tf_gp = v, tf_tp = v, tf_t0 = v, tf_t1 = v, tf_t2 = v, tf_s0 = v, tf_s1 = v, tf_a0 = v, tf_a1 = v, tf_a2 = v,
      tf_a3 = v, tf_a4 = v, tf_a5 = v, tf_a6 = v, tf_a7 = v, tf_s2 = v, tf_s3 = v, tf_s4 = v, tf_s5 = v, tf_s6 = v,
      tf_s7 = v, tf_s8 = v, tf_s9 = v, tf_s10 = v, tf_s11 = v, tf_t3 = v, tf_t4 = v, tf_t5 = v, tf_t6 = v\<rparr>)"

text \<open>The scan for a free slot: on success its lock is held.\<close>

fun allocproc_scan :: "nat list \<Rightarrow> 'z kstate_scheme \<Rightarrow> ('z kstate_scheme, nat option) res" where
  "allocproc_scan [] s = Ret None s"
| "allocproc_scan (p # ps) s =
     bnd (acq (L_proc p) s) (\<lambda>_ s.
     if p_state (procs s p) = UNUSED then Ret (Some p) s
     else bnd (rel (L_proc p) s) (\<lambda>_ s. allocproc_scan ps s))"

definition allocproc :: "'z proc_state_scheme \<Rightarrow> ('z proc_state_scheme, nat option) res" where
  "allocproc s =
     bnd (allocproc_scan [0..<NPROC] s) (\<lambda>r s.
     case r of None \<Rightarrow> Ret None s
     | Some p \<Rightarrow>
       bnd (allocpid s) (\<lambda>pid s.
       let s = upd_proc p (\<lambda>q. q\<lparr>p_pid := pid, p_state := USED\<rparr>) s in
       bnd (kalloc s) (\<lambda>tf s.
       let s = upd_proc p (\<lambda>q. q\<lparr>p_trapframe := tf\<rparr>) s in
       if tf = 0 then
         bnd (freeproc p s) (\<lambda>_ s.
         bnd (rel (L_proc p) s) (\<lambda>_ s. Ret None s))
       else
         let s = upd_proc p (\<lambda>q. q\<lparr>p_tf := junk_tf\<rparr>) s in
         bnd (proc_pagetable p s) (\<lambda>pagetable s.
         let s = upd_proc p (\<lambda>q. q\<lparr>p_pagetable := pagetable\<rparr>) s in
         if pagetable = 0 then
           bnd (freeproc p s) (\<lambda>_ s.
           bnd (rel (L_proc p) s) (\<lambda>_ s. Ret None s))
         else
           let s = upd_proc p (\<lambda>q. q\<lparr>p_context := zero_context\<lparr>c_ra := forkret_pc s, c_sp := p_kstack q + 4096\<rparr>\<rparr>) s in
           Ret (Some p) s))))"

section \<open>The first process, growing\<close>

definition initcode :: "byte list" where
  "initcode =
    [0x17, 0x05, 0x00, 0x00, 0x13, 0x05, 0x45, 0x02,
     0x97, 0x05, 0x00, 0x00, 0x93, 0x85, 0x35, 0x02,
     0x93, 0x08, 0x70, 0x00, 0x73, 0x00, 0x00, 0x00,
     0x93, 0x08, 0x20, 0x00, 0x73, 0x00, 0x00, 0x00,
     0xef, 0xf0, 0x9f, 0xff, 0x2f, 0x69, 0x6e, 0x69,
     0x74, 0x00, 0x00, 0x24, 0x00, 0x00, 0x00, 0x00,
     0x00, 0x00, 0x00, 0x00]"

definition bytes_of :: "string \<Rightarrow> byte list" where
  "bytes_of t = map (\<lambda>c. of_nat (of_char c)) t"

definition set_name :: "byte list \<Rightarrow> proc \<Rightarrow> proc" where
  "set_name bs q = q\<lparr>p_name := splice (p_name q) 0 (safestrcpy (lview bs) 16)\<rparr>"

definition userinit :: "'z proc_state_scheme \<Rightarrow> ('z proc_state_scheme, unit) res" where
  "userinit s =
     bnd (allocproc s) (\<lambda>r s.
     let s = s\<lparr>initproc := r\<rparr> in
     case r of None \<Rightarrow> Panic ''kerneltrap''
     | Some p \<Rightarrow>
       bnd (uvmfirst (p_pagetable (procs s p)) initcode s) (\<lambda>_ s.
       let s = upd_proc p (\<lambda>q. q\<lparr>p_sz := 4096, p_tf := (p_tf q)\<lparr>tf_epc := 0, tf_sp := 4096\<rparr>\<rparr>) s;
           s = upd_proc p (set_name (bytes_of ''initcode'')) s
       in bnd (namei [slash] s) (\<lambda>ip s.
          let s = upd_proc p (\<lambda>q. q\<lparr>p_cwd := ip, p_state := RUNNABLE\<rparr>) s in
          rel (L_proc p) s)))"

definition growproc :: "cint \<Rightarrow> 'z kmem_state_scheme \<Rightarrow> ('z kmem_state_scheme, cint) res" where
  "growproc n s =
     bnd (myproc s) (\<lambda>p s.
     let sz = p_sz (procs s p) in
     if sint n > 0 then
       bnd (uvmalloc (p_pagetable (procs s p)) sz (sz + scast n) PTE_W s) (\<lambda>sz s.
       if sz = 0 then Ret (-1) s
       else Ret 0 (upd_proc p (\<lambda>q. q\<lparr>p_sz := sz\<rparr>) s))
     else if sint n < 0 then
       bnd (uvmdealloc (p_pagetable (procs s p)) sz (sz + scast n) s) (\<lambda>sz s.
       Ret 0 (upd_proc p (\<lambda>q. q\<lparr>p_sz := sz\<rparr>) s))
     else Ret 0 (upd_proc p (\<lambda>q. q\<lparr>p_sz := sz\<rparr>) s))"

section \<open>fork\<close>

definition fork_file :: "nat \<Rightarrow> nat \<Rightarrow> nat \<Rightarrow> 'z file_state_scheme \<Rightarrow> ('z file_state_scheme, unit) res" where
  "fork_file p np i s =
     (case p_ofile (procs s p) i of
        None \<Rightarrow> Ret () s
      | Some f \<Rightarrow> bnd (filedup f s) (\<lambda>f s. Ret () (upd_proc np (\<lambda>q. q\<lparr>p_ofile := (p_ofile q)(i := Some f)\<rparr>) s)))"

definition fork :: "'z proc_state_scheme \<Rightarrow> ('z proc_state_scheme, cint) res" where
  "fork s =
     bnd (myproc s) (\<lambda>p s.
     bnd (allocproc s) (\<lambda>r s.
     case r of None \<Rightarrow> Ret (-1) s
     | Some np \<Rightarrow>
       bnd (uvmcopy (p_pagetable (procs s p)) (p_pagetable (procs s np)) (p_sz (procs s p)) s) (\<lambda>r s.
       if sint r < 0 then
         bnd (freeproc np s) (\<lambda>_ s.
         bnd (rel (L_proc np) s) (\<lambda>_ s. Ret (-1) s))
       else
         let s = upd_proc np (\<lambda>q. q\<lparr>p_sz := p_sz (procs s p), p_tf := (p_tf (procs s p))\<lparr>tf_a0 := 0\<rparr>\<rparr>) s in
         bnd (foreach [0..<NOFILE] (fork_file p np) s) (\<lambda>_ s.
         case p_cwd (procs s p) of None \<Rightarrow> Panic ''kerneltrap''
         | Some cwd \<Rightarrow>
           bnd (idup cwd s) (\<lambda>cwd s.
           let s = upd_proc np (\<lambda>q. q\<lparr>p_cwd := Some cwd\<rparr>) s;
               s = upd_proc np (set_name (p_name (procs s p))) s;
               pid = p_pid (procs s np)
           in bnd (rel (L_proc np) s) (\<lambda>_ s.
              bnd (acq L_wait s) (\<lambda>_ s.
              let s = upd_proc np (\<lambda>q. q\<lparr>p_parent := Some p\<rparr>) s in
              bnd (rel L_wait s) (\<lambda>_ s.
              bnd (acq (L_proc np) s) (\<lambda>_ s.
              let s = upd_proc np (\<lambda>q. q\<lparr>p_state := RUNNABLE\<rparr>) s in
              bnd (rel (L_proc np) s) (\<lambda>_ s.
              Ret pid s))))))))))"

section \<open>exit and wait\<close>

text \<open>A wakeup of a null pointer's channel: no process sleeps on it.\<close>

definition wakeup_proc :: "nat option \<Rightarrow> 'z kstate_scheme \<Rightarrow> ('z kstate_scheme, unit) res" where
  "wakeup_proc p s = (case p of None \<Rightarrow> Ret () s | Some p \<Rightarrow> wakeup (Ch_proc p) s)"

definition reparent :: "nat \<Rightarrow> 'z proc_state_scheme \<Rightarrow> ('z proc_state_scheme, unit) res" where
  "reparent p =
     foreach [0..<NPROC] (\<lambda>i s.
       if p_parent (procs s i) = Some p then
         let s = upd_proc i (\<lambda>q. q\<lparr>p_parent := initproc s\<rparr>) s in
         wakeup_proc (initproc s) s
       else Ret () s)"

definition exit_file :: "nat \<Rightarrow> nat \<Rightarrow> 'z file_state_scheme \<Rightarrow> ('z file_state_scheme, unit) res" where
  "exit_file p fd s =
     (case p_ofile (procs s p) fd of
        None \<Rightarrow> Ret () s
      | Some f \<Rightarrow> bnd (fileclose f s) (\<lambda>_ s. Ret () (upd_proc p (\<lambda>q. q\<lparr>p_ofile := (p_ofile q)(fd := None)\<rparr>) s)))"

definition exit :: "cint \<Rightarrow> 'z proc_state_scheme \<Rightarrow> ('z proc_state_scheme, unit) res" where
  "exit status s =
     bnd (myproc s) (\<lambda>p s.
     if initproc s = Some p then Panic ''init exiting''
     else bnd (foreach [0..<NOFILE] (exit_file p) s) (\<lambda>_ s.
       bnd (begin_op s) (\<lambda>_ s.
       case p_cwd (procs s p) of None \<Rightarrow> Panic ''kerneltrap''
       | Some cwd \<Rightarrow>
         bnd (iput cwd s) (\<lambda>_ s.
         bnd (end_op s) (\<lambda>_ s.
         let s = upd_proc p (\<lambda>q. q\<lparr>p_cwd := None\<rparr>) s in
         bnd (acq L_wait s) (\<lambda>_ s.
         bnd (reparent p s) (\<lambda>_ s.
         bnd (wakeup_proc (p_parent (procs s p)) s) (\<lambda>_ s.
         bnd (acq (L_proc p) s) (\<lambda>_ s.
         let s = upd_proc p (\<lambda>q. q\<lparr>p_xstate := status, p_state := ZOMBIE\<rparr>) s in
         bnd (rel L_wait s) (\<lambda>_ s.
         sched s))))))))))"

text \<open>The scan of \<^verbatim>\<open>wait\<close>: \<open>Inl r\<close> is the return of \<open>r\<close>, \<open>Inr havekids\<close> the end of the scan.\<close>

fun wait_scan :: "nat \<Rightarrow> uint64 \<Rightarrow> nat list \<Rightarrow> bool \<Rightarrow> 'z kmem_state_scheme \<Rightarrow> ('z kmem_state_scheme, cint + bool) res" where
  "wait_scan p addr [] havekids s = Ret (Inr havekids) s"
| "wait_scan p addr (pp # ps) havekids s =
     (if p_parent (procs s pp) = Some p then
        bnd (acq (L_proc pp) s) (\<lambda>_ s.
        if p_state (procs s pp) = ZOMBIE then
          let pid = p_pid (procs s pp) in
          bnd (if addr \<noteq> 0 then copyout (p_pagetable (procs s p)) addr (le_enc 4 (p_xstate (procs s pp))) s else Ret 0 s) (\<lambda>r s.
          if addr \<noteq> 0 \<and> sint r < 0 then
            bnd (rel (L_proc pp) s) (\<lambda>_ s.
            bnd (rel L_wait s) (\<lambda>_ s. Ret (Inl (-1)) s))
          else
            bnd (freeproc pp s) (\<lambda>_ s.
            bnd (rel (L_proc pp) s) (\<lambda>_ s.
            bnd (rel L_wait s) (\<lambda>_ s. Ret (Inl pid) s))))
        else bnd (rel (L_proc pp) s) (\<lambda>_ s. wait_scan p addr ps True s))
      else wait_scan p addr ps havekids s)"

definition wait_body :: "uint64 \<Rightarrow> 'z kmem_state_scheme \<Rightarrow> ('z kmem_state_scheme, cint) res" where
  "wait_body addr s =
     bnd (myproc s) (\<lambda>p s.
     bnd (wait_scan p addr [0..<NPROC] False s) (\<lambda>r s.
     case r of Inl pid \<Rightarrow> Ret pid s
     | Inr havekids \<Rightarrow>
       bnd (if \<not> havekids then Ret True s else killed p s) (\<lambda>stop s.
       if stop then bnd (rel L_wait s) (\<lambda>_ s. Ret (-1) s)
       else bnd (sleep (Ch_proc p) L_wait s) (\<lambda>_ s. Ret (-1) s))))"

definition wait :: "uint64 \<Rightarrow> 'z kmem_state_scheme \<Rightarrow> ('z kmem_state_scheme, cint) res" where
  "wait addr s = bnd (acq L_wait s) (\<lambda>_ s. wait_body addr s)"

definition wait_resume :: "uint64 \<Rightarrow> 'z kmem_state_scheme \<Rightarrow> ('z kmem_state_scheme, cint) res" where
  "wait_resume addr s = bnd (sleep_resume L_wait s) (\<lambda>_ s. wait_body addr s)"

section \<open>The scheduler\<close>

text \<open>
  One pass of \<^verbatim>\<open>scheduler\<close> over the table. \<open>swtch i\<close> runs the chosen process until it switches back to the
  scheduler. The value is the list of the processes run.
\<close>

fun scheduler_pass ::
  "(nat \<Rightarrow> 'z kstate_scheme \<Rightarrow> ('z kstate_scheme, unit) res) \<Rightarrow> nat list \<Rightarrow> 'z kstate_scheme \<Rightarrow> ('z kstate_scheme, nat list) res" where
  "scheduler_pass swtch [] s = Ret [] s"
| "scheduler_pass swtch (p # ps) s =
     bnd (acq (L_proc p) s) (\<lambda>_ s.
     if p_state (procs s p) = RUNNABLE then
       let s = upd_proc p (\<lambda>q. q\<lparr>p_state := RUNNING\<rparr>) s;
           s = s\<lparr>curproc := Some p\<rparr>
       in bnd (swtch p s) (\<lambda>_ s.
          let s = s\<lparr>curproc := None\<rparr> in
          bnd (rel (L_proc p) s) (\<lambda>_ s.
          bnd (scheduler_pass swtch ps s) (\<lambda>run s. Ret (p # run) s)))
     else bnd (rel (L_proc p) s) (\<lambda>_ s. scheduler_pass swtch ps s))"

text \<open>\<open>n\<close> rounds of the endless loop.\<close>

fun scheduler ::
  "(nat \<Rightarrow> 'z kstate_scheme \<Rightarrow> ('z kstate_scheme, unit) res) \<Rightarrow> nat \<Rightarrow> 'z kstate_scheme \<Rightarrow> ('z kstate_scheme, nat list) res" where
  "scheduler swtch 0 s = Ret [] (s\<lparr>curproc := None\<rparr>)"
| "scheduler swtch (Suc n) s =
     bnd (scheduler swtch n s) (\<lambda>run s.
     bnd (scheduler_pass swtch [0..<NPROC] s) (\<lambda>run' s. Ret (run @ run') s))"

section \<open>No runnable process waits for more than a round\<close>

text \<open>
  What the scheduler relies on when it switches to a process: the process runs with its own lock held, at some point switches back
  holding that lock only, and has taken no other process out of the runnable ones.
\<close>

definition switches_back :: "(nat \<Rightarrow> 'z kstate_scheme \<Rightarrow> ('z kstate_scheme, unit) res) \<Rightarrow> bool" where
  "switches_back swtch \<longleftrightarrow> (\<forall>p s. held s = {L_proc p} \<and> curproc s = Some p \<and> p_state (procs s p) = RUNNING \<longrightarrow>
     (\<exists>s'. swtch p s = Ret () s' \<and> held s' = {L_proc p} \<and>
        (\<forall>q. q \<noteq> p \<and> p_state (procs s q) = RUNNABLE \<longrightarrow> p_state (procs s' q) = RUNNABLE)))"

lemma scheduler_pass_ok:
  assumes "switches_back swtch" "held s = {}" "sorted_wrt (<) ps"
  shows "\<exists>run t. scheduler_pass swtch ps s = Ret run t \<and> held t = {} \<and> sorted_wrt (<) run \<and> set run \<subseteq> set ps \<and>
    (\<forall>p \<in> set ps. p_state (procs s p) = RUNNABLE \<longrightarrow> p \<in> set run)"
  using assms(2,3)
proof (induction ps arbitrary: s)
  case (Cons p ps)
  show ?case
  proof (cases "p_state (procs s p) = RUNNABLE")
    case True
    let ?s = "(upd_proc p (\<lambda>q. q\<lparr>p_state := RUNNING\<rparr>) (s\<lparr>held := {L_proc p}\<rparr>))\<lparr>curproc := Some p\<rparr>"
    have "held ?s = {L_proc p} \<and> curproc ?s = Some p \<and> p_state (procs ?s p) = RUNNING" by (simp add: upd_proc_def)
    from assms(1) [unfolded switches_back_def, THEN spec, THEN spec, THEN mp, OF this]
    obtain s' where s': "swtch p ?s = Ret () s'" "held s' = {L_proc p}"
      "\<forall>q. q \<noteq> p \<and> p_state (procs ?s q) = RUNNABLE \<longrightarrow> p_state (procs s' q) = RUNNABLE" by (elim exE conjE)
    let ?t = "s'\<lparr>curproc := None, held := {}\<rparr>"
    obtain run t where r: "scheduler_pass swtch ps ?t = Ret run t" "held t = {}" "sorted_wrt (<) run" "set run \<subseteq> set ps"
      "\<forall>q \<in> set ps. p_state (procs ?t q) = RUNNABLE \<longrightarrow> q \<in> set run"
      using Cons.IH [of ?t] Cons.prems by auto
    have "scheduler_pass swtch (p # ps) s = Ret (p # run) t" using True Cons.prems(1) s'(1,2) r(1) by (simp add: upd_proc_def)
    moreover have "p_state (procs ?t q) = RUNNABLE" if "q \<in> set ps" "p_state (procs s q) = RUNNABLE" for q
      using s'(3) that Cons.prems(2) by (auto simp: upd_proc_def)
    ultimately show ?thesis using r Cons.prems(2) by (intro exI [of _ "p # run"] exI [of _ t]) auto
  next
    case False
    have "sorted_wrt (<) ps" using Cons.prems(2) by simp
    from Cons.IH [OF Cons.prems(1) this] obtain run t where r: "scheduler_pass swtch ps s = Ret run t" "held t = {}" "sorted_wrt (<) run"
      "set run \<subseteq> set ps" "\<forall>q \<in> set ps. p_state (procs s q) = RUNNABLE \<longrightarrow> q \<in> set run" by (elim exE conjE)
    have e: "s\<lparr>held := {}\<rparr> = s" using Cons.prems(1) by simp
    have "scheduler_pass swtch (p # ps) s = scheduler_pass swtch ps (s\<lparr>held := {}\<rparr>)" using False Cons.prems(1) by simp
    also have "\<dots> = Ret run t" unfolding e by (rule r(1))
    finally show ?thesis using False r(2-5) by (intro exI [of _ run] exI [of _ t]) auto
  qed
qed simp

text \<open>C12. The scheduler starves no one: for any number of rounds it neither panics nor blocks, each round runs processes in the order of
  the table and none twice, and a process that is runnable when a round starts is run in that round.\<close>

theorem scheduler_starves_no_one:
  assumes "switches_back swtch" "held s = {}"
  shows "\<exists>run t run' t'. scheduler swtch n s = Ret run t \<and> scheduler swtch (Suc n) s = Ret (run @ run') t' \<and> held t' = {} \<and>
    sorted_wrt (<) run' \<and> (\<forall>p. p < NPROC \<and> p_state (procs t p) = RUNNABLE \<longrightarrow> p \<in> set run')"
proof -
  have "\<exists>run t. scheduler swtch n s = Ret run t \<and> held t = {}"
  proof (induction n)
    case 0
    then show ?case using assms(2) by simp
  next
    case (Suc n)
    then obtain run t where r: "scheduler swtch n s = Ret run t" "held t = {}" by blast
    obtain run' t' where "scheduler_pass swtch [0..<NPROC] t = Ret run' t'" "held t' = {}"
      using scheduler_pass_ok [OF assms(1) r(2) sorted_wrt_upt [of 0 NPROC]] by (elim exE conjE)
    then show ?case using r(1) by simp
  qed
  then obtain run t where r: "scheduler swtch n s = Ret run t" "held t = {}" by blast
  obtain run' t' where p: "scheduler_pass swtch [0..<NPROC] t = Ret run' t'" "held t' = {}" "sorted_wrt (<) run'"
    "\<forall>p \<in> set [0..<NPROC]. p_state (procs t p) = RUNNABLE \<longrightarrow> p \<in> set run'"
    using scheduler_pass_ok [OF assms(1) r(2) sorted_wrt_upt [of 0 NPROC]] by (elim exE conjE)
  have "scheduler swtch (Suc n) s = Ret (run @ run') t'" using r(1) p(1) by simp
  then show ?thesis using r(1) p by (intro exI [of _ run] exI [of _ t] exI [of _ run'] exI [of _ t']) auto
qed

text \<open>Processes that yield at once, and a table with one of them.\<close>

definition yields :: "nat \<Rightarrow> kstate \<Rightarrow> (kstate, unit) res" where
  "yields p s = Ret () (upd_proc p (\<lambda>q. q\<lparr>p_state := RUNNABLE\<rparr>) s)"

definition one_runnable :: kstate where
  "one_runnable = \<lparr>held = {}, procs = (\<lambda>_. zero_proc)(5 := zero_proc\<lparr>p_state := RUNNABLE\<rparr>), curproc = None, consout = []\<rparr>"

theorem scheduler_starves_no_one_witness: "\<exists>run t. scheduler yields 1 one_runnable = Ret run t \<and> 5 \<in> set run"
proof -
  have "switches_back yields" by (simp add: switches_back_def yields_def upd_proc_def)
  moreover have "held one_runnable = {}" by (simp add: one_runnable_def)
  ultimately have "\<exists>run t run' t'. scheduler yields 0 one_runnable = Ret run t \<and> scheduler yields (Suc 0) one_runnable = Ret (run @ run') t' \<and>
      held t' = {} \<and> sorted_wrt (<) run' \<and> (\<forall>p. p < NPROC \<and> p_state (procs t p) = RUNNABLE \<longrightarrow> p \<in> set run')"
    by (rule scheduler_starves_no_one)
  then obtain t run' t' where r: "scheduler yields 0 one_runnable = Ret [] t" "scheduler yields (Suc 0) one_runnable = Ret run' t'"
      "\<forall>p. p < NPROC \<and> p_state (procs t p) = RUNNABLE \<longrightarrow> p \<in> set run'" by auto
  have "p_state (procs t 5) = RUNNABLE" using r(1) by (auto simp: one_runnable_def)
  then show ?thesis using r(2,3) by (intro exI [of _ run'] exI [of _ t']) (simp add: NPROC_def)
qed

end
