(* ===== verification/Exec.thy ===== *)
theory Exec
  imports Proc
begin

text \<open>
  \<^verbatim>\<open>kernel/exec.c\<close> with the formats of \<^verbatim>\<open>kernel/elf.h\<close>, the kernel's own page table (\<^verbatim>\<open>kvmmake\<close>) and the page-table
  printer \<^verbatim>\<open>vmprint\<close> of \<^verbatim>\<open>kernel/vm.c\<close>. Argument strings and the path are byte lists without the terminating zero;
  the headers read from the file are byte lists.
\<close>

section \<open>The kernel's page table\<close>

definition UART0 :: uint64 where "UART0 = 0x10000000"
definition VIRTIO0 :: uint64 where "VIRTIO0 = 0x10001000"
definition GOLDFISH :: uint64 where "GOLDFISH = 0x101000"
definition PLIC :: uint64 where "PLIC = 0x0c000000"

text \<open>\<open>etext\<close> is the end of the kernel's code, \<open>trampoline\<close> the address of the trampoline page; the linker sets both.\<close>

definition kvmmake :: "uint64 \<Rightarrow> uint64 \<Rightarrow> 'z kmem_state_scheme \<Rightarrow> ('z kmem_state_scheme, uint64) res" where
  "kvmmake etext trampoline s =
     bnd (kalloc s) (\<lambda>kpgtbl s.
     let s = put_mem (memset kpgtbl 0 PGSIZE (mem s)) s in
     bnd (kvmmap kpgtbl UART0 UART0 4096 (PTE_R OR PTE_W) s) (\<lambda>_ s.
     bnd (kvmmap kpgtbl VIRTIO0 VIRTIO0 4096 (PTE_R OR PTE_W) s) (\<lambda>_ s.
     bnd (kvmmap kpgtbl GOLDFISH GOLDFISH 4096 (PTE_R OR PTE_W) s) (\<lambda>_ s.
     bnd (kvmmap kpgtbl PLIC PLIC 0x400000 (PTE_R OR PTE_W) s) (\<lambda>_ s.
     bnd (kvmmap kpgtbl KERNBASE KERNBASE (etext - KERNBASE) (PTE_R OR PTE_X) s) (\<lambda>_ s.
     bnd (kvmmap kpgtbl etext etext (PHYSTOP - etext) (PTE_R OR PTE_W) s) (\<lambda>_ s.
     bnd (kvmmap kpgtbl TRAMPOLINE trampoline 4096 (PTE_R OR PTE_X) s) (\<lambda>_ s.
     bnd (proc_mapstacks kpgtbl s) (\<lambda>_ s.
     Ret kpgtbl s)))))))))"

text \<open>
  \<^verbatim>\<open>print_pagetable\<close> on a table of at most \<open>lv\<close> levels; a deeper one overflows the stack, a trap in the kernel.
\<close>

definition print_leaf :: "nat \<Rightarrow> uint64 \<Rightarrow> 'z kstate_scheme \<Rightarrow> ('z kstate_scheme, unit) res" where
  "print_leaf i pa s =
     (let va = push_bit 12 (of_nat i) in
      printf (''%d: leaf pte: va %p-%p -> pa %p-%p'' @ newline)
        [Num (of_nat i), Num va, Num (va + 4096 - 1), Num pa, Num (pa + 4096 - 1)] s)"

fun print_pagetable :: "nat \<Rightarrow> uint64 \<Rightarrow> nat \<Rightarrow> 'z kmem_state_scheme \<Rightarrow> ('z kmem_state_scheme, unit) res" where
  "print_pagetable 0 pagetable level s = Panic ''kerneltrap''"
| "print_pagetable (Suc lv) pagetable level s =
     foreach [0..<512] (\<lambda>i s.
       let pte = ld64 (mem s) (pagetable + 8 * of_nat i) in
       if pte AND PTE_V \<noteq> 0 then
         bnd (foreach [0..<level] (\<lambda>_. printf ''.. '' []) s) (\<lambda>_ s.
         let pa = PTE2PA pte in
         if pte AND (PTE_R OR PTE_W OR PTE_X) \<noteq> 0 then print_leaf i pa s
         else
           bnd (printf (''%d: pte points to lower-level page table: pte %p -> pa %p'' @ newline)
                  [Num (of_nat i), Num pte, Num pa] s) (\<lambda>_ s.
           print_pagetable lv pa (level + 1) s))
       else Ret () s) s"

definition vmprint :: "uint64 \<Rightarrow> 'z kmem_state_scheme \<Rightarrow> ('z kmem_state_scheme, unit) res" where
  "vmprint pagetable s =
     bnd (printf (''page table at physical address (pa) %p'' @ newline) [Num pagetable] s) (\<lambda>_ s.
     print_pagetable 3 pagetable 0 s)"

section \<open>Executable files\<close>

definition MAXARG :: nat where "MAXARG = 32"
definition ELF_MAGIC :: uint32 where "ELF_MAGIC = 0x464C457F"
definition ELF_PROG_LOAD :: uint32 where "ELF_PROG_LOAD = 1"

definition rd64 :: "byte list \<Rightarrow> nat \<Rightarrow> uint64" where
  "rd64 bs off = le_dec (slice off 8 bs)"

record elfhdr =
  elf_magic :: uint32
  elf_entry :: uint64
  elf_phoff :: uint64
  elf_phnum :: uint16

record proghdr =
  ph_type :: uint32
  ph_flags :: uint32
  ph_off :: uint64
  ph_vaddr :: uint64
  ph_filesz :: uint64
  ph_memsz :: uint64

text \<open>The fields \<^verbatim>\<open>exec\<close> uses of the 64-byte file header and the 56-byte program header.\<close>

definition get_elfhdr :: "byte list \<Rightarrow> elfhdr" where
  "get_elfhdr bs = \<lparr>elf_magic = rd32 bs 0, elf_entry = rd64 bs 24, elf_phoff = rd64 bs 32, elf_phnum = rd16 bs 56\<rparr>"

definition get_proghdr :: "byte list \<Rightarrow> proghdr" where
  "get_proghdr bs = \<lparr>ph_type = rd32 bs 0, ph_flags = rd32 bs 4, ph_off = rd64 bs 8, ph_vaddr = rd64 bs 16,
     ph_filesz = rd64 bs 32, ph_memsz = rd64 bs 40\<rparr>"

definition flags2perm :: "uint32 \<Rightarrow> uint64" where
  "flags2perm flags =
     (let perm = (if flags AND 0x1 \<noteq> 0 then PTE_X else 0)
      in if flags AND 0x2 \<noteq> 0 then perm OR PTE_W else perm)"

text \<open>The loop of \<^verbatim>\<open>loadseg\<close> over the page offsets \<^verbatim>\<open>i\<close>; \<open>sz\<close> and \<open>offset\<close> are 32-bit.\<close>

fun loadseg_loop ::
  "uint64 \<Rightarrow> uint64 \<Rightarrow> nat \<Rightarrow> uint32 \<Rightarrow> nat \<Rightarrow> nat list \<Rightarrow> 'z fs_state_scheme \<Rightarrow> ('z fs_state_scheme, cint) res" where
  "loadseg_loop pagetable va ip offset sz [] s = Ret 0 s"
| "loadseg_loop pagetable va ip offset sz (i # is) s =
     bnd (walkaddr pagetable (va + of_nat i) s) (\<lambda>pa s.
     if pa = 0 then Panic ''loadseg: address should exist''
     else let n = (if sz - i < PGSIZE then sz - i else PGSIZE) in
       bnd (readi ip (Kdst pa) (offset + of_nat i) (of_nat n) s) (\<lambda>(r, _) s.
       if r \<noteq> of_nat n then Ret (-1) s
       else loadseg_loop pagetable va ip offset sz is s))"

definition loadseg :: "uint64 \<Rightarrow> uint64 \<Rightarrow> nat \<Rightarrow> uint32 \<Rightarrow> uint32 \<Rightarrow> 'z fs_state_scheme \<Rightarrow> ('z fs_state_scheme, cint) res" where
  "loadseg pagetable va ip offset sz s =
     loadseg_loop pagetable va ip offset (unat sz) (map (\<lambda>k. k * PGSIZE) [0..<(unat sz + PGSIZE - 1) div PGSIZE]) s"

section \<open>exec\<close>

text \<open>The program headers: whether all is well, and the size reached.\<close>

fun exec_segs :: "uint64 \<Rightarrow> nat \<Rightarrow> nat \<Rightarrow> uint32 \<Rightarrow> uint64 \<Rightarrow> 'z fs_state_scheme \<Rightarrow> ('z fs_state_scheme, bool \<times> uint64) res" where
  "exec_segs pagetable ip 0 off sz s = Ret (True, sz) s"
| "exec_segs pagetable ip (Suc k) off sz s =
     bnd (readi ip Kvar off 56 s) (\<lambda>(r, bs) s.
     if r \<noteq> 56 then Ret (False, sz) s
     else let ph = get_proghdr bs in
       if ph_type ph \<noteq> ELF_PROG_LOAD then exec_segs pagetable ip k (off + 56) sz s
       else if ph_memsz ph < ph_filesz ph then Ret (False, sz) s
       else if ph_vaddr ph + ph_memsz ph < ph_vaddr ph then Ret (False, sz) s
       else if ph_vaddr ph mod 4096 \<noteq> 0 then Ret (False, sz) s
       else bnd (uvmalloc pagetable sz (ph_vaddr ph + ph_memsz ph) (flags2perm (ph_flags ph)) s) (\<lambda>sz1 s.
         if sz1 = 0 then Ret (False, sz) s
         else bnd (loadseg pagetable (ph_vaddr ph) ip (ucast (ph_off ph)) (ucast (ph_filesz ph)) s) (\<lambda>r s.
           if sint r < 0 then Ret (False, sz1) s
           else exec_segs pagetable ip k (off + 56) sz1 s)))"

text \<open>From the file header to the last segment: whether all is well, the page table, the size and the entry point.\<close>

definition exec_load :: "nat \<Rightarrow> nat \<Rightarrow> 'z proc_state_scheme \<Rightarrow> ('z proc_state_scheme, bool \<times> uint64 \<times> uint64 \<times> uint64) res" where
  "exec_load p ip s =
     bnd (readi ip Kvar 0 64 s) (\<lambda>(r, bs) s.
     if r \<noteq> 64 then Ret (False, 0, 0, 0) s
     else let elf = get_elfhdr bs in
       if elf_magic elf \<noteq> ELF_MAGIC then Ret (False, 0, 0, 0) s
       else bnd (proc_pagetable p s) (\<lambda>pagetable s.
         if pagetable = 0 then Ret (False, 0, 0, 0) s
         else bnd (exec_segs pagetable ip (unat (elf_phnum elf)) (ucast (elf_phoff elf)) 0 s) (\<lambda>(ok, sz) s.
           Ret (ok, pagetable, sz, elf_entry elf) s)))"

text \<open>The argument strings onto the stack; the result is the stack pointer and \<^verbatim>\<open>ustack\<close>.\<close>

fun exec_push ::
  "uint64 \<Rightarrow> uint64 \<Rightarrow> byte list list \<Rightarrow> uint64 \<Rightarrow> uint64 list \<Rightarrow> 'z kmem_state_scheme \<Rightarrow> ('z kmem_state_scheme, (uint64 \<times> uint64 list) option) res" where
  "exec_push pagetable stackbase [] sp ustack s = Ret (Some (sp, ustack)) s"
| "exec_push pagetable stackbase (arg # argv) sp ustack s =
     (if length ustack \<ge> MAXARG then Ret None s
      else let sp = sp - of_nat (length arg + 1);
               sp = sp - sp mod 16
           in if sp < stackbase then Ret None s
              else bnd (copyout pagetable sp (arg @ [0]) s) (\<lambda>r s.
                if sint r < 0 then Ret None s
                else exec_push pagetable stackbase argv sp (ustack @ [sp]) s))"

text \<open>
  The stack: whether all is well, the size, the stack pointer and the number of arguments. \<^verbatim>\<open>ustack\<close> has room for
  \<open>MAXARG\<close> words, the final zero included; a longer argument vector writes past its end.
\<close>

definition exec_stack :: "uint64 \<Rightarrow> uint64 \<Rightarrow> byte list list \<Rightarrow> 'z kmem_state_scheme \<Rightarrow> ('z kmem_state_scheme, bool \<times> uint64 \<times> uint64 \<times> nat) res" where
  "exec_stack pagetable sz argv s =
     (let sz = PGROUNDUP sz in
      bnd (uvmalloc pagetable sz (sz + 2 * 4096) PTE_W s) (\<lambda>sz1 s.
      if sz1 = 0 then Ret (False, sz, 0, 0) s
      else let sz = sz1 in
        bnd (uvmclear pagetable (sz - 2 * 4096) s) (\<lambda>_ s.
        let sp = sz; stackbase = sp - 4096 in
        bnd (exec_push pagetable stackbase argv sp [] s) (\<lambda>r s.
        case r of None \<Rightarrow> Ret (False, sz, 0, 0) s
        | Some (sp, ustack) \<Rightarrow>
          let argc = length ustack;
              sp = sp - of_nat ((argc + 1) * 8);
              sp = sp - sp mod 16
          in if argc \<ge> MAXARG then Panic ''kerneltrap''
             else if sp < stackbase then Ret (False, sz, 0, 0) s
             else bnd (copyout pagetable sp (concat (map (le_enc 8) (ustack @ [0]))) s) (\<lambda>r s.
               if sint r < 0 then Ret (False, sz, 0, 0) s
               else Ret (True, sz, sp, argc) s)))))"

text \<open>The part of the path after the last slash.\<close>

definition last_elem :: "byte list \<Rightarrow> byte list" where
  "last_elem path = rev (takeWhile (\<lambda>c. c \<noteq> slash) (rev path))"

text \<open>The label \<^verbatim>\<open>bad\<close>; \<open>ip\<close> is none once the file has been released.\<close>

definition exec_bad :: "uint64 \<Rightarrow> uint64 \<Rightarrow> nat option \<Rightarrow> 'z fs_state_scheme \<Rightarrow> ('z fs_state_scheme, cint) res" where
  "exec_bad pagetable sz ip s =
     bnd (if pagetable \<noteq> 0 then proc_freepagetable pagetable sz s else Ret () s) (\<lambda>_ s.
     case ip of None \<Rightarrow> Ret (-1) s
     | Some ip \<Rightarrow> bnd (iunlockput ip s) (\<lambda>_ s. bnd (end_op s) (\<lambda>_ s. Ret (-1) s)))"

definition exec_commit :: "nat \<Rightarrow> byte list \<Rightarrow> uint64 \<Rightarrow> uint64 \<Rightarrow> uint64 \<Rightarrow> uint64 \<Rightarrow> 'z kmem_state_scheme \<Rightarrow> ('z kmem_state_scheme, unit) res" where
  "exec_commit p path pagetable sz entry sp s =
     (let oldsz = p_sz (procs s p);
          s = upd_proc p (\<lambda>q. q\<lparr>p_tf := (p_tf q)\<lparr>tf_a1 := sp\<rparr>\<rparr>) s;
          s = upd_proc p (set_name (last_elem path)) s;
          oldpagetable = p_pagetable (procs s p);
          s = upd_proc p (\<lambda>q. q\<lparr>p_pagetable := pagetable, p_sz := sz, p_tf := (p_tf q)\<lparr>tf_epc := entry, tf_sp := sp\<rparr>\<rparr>) s
      in bnd (proc_freepagetable oldpagetable oldsz s) (\<lambda>_ s.
         if p_pid (procs s p) = 1 then vmprint (p_pagetable (procs s p)) s else Ret () s))"

definition exec :: "byte list \<Rightarrow> byte list list \<Rightarrow> 'z proc_state_scheme \<Rightarrow> ('z proc_state_scheme, cint) res" where
  "exec path argv s =
     bnd (myproc s) (\<lambda>p s.
     bnd (begin_op s) (\<lambda>_ s.
     bnd (namei path s) (\<lambda>r s.
     case r of None \<Rightarrow> bnd (end_op s) (\<lambda>_ s. Ret (-1) s)
     | Some ip \<Rightarrow>
       bnd (ilock ip s) (\<lambda>_ s.
       bnd (exec_load p ip s) (\<lambda>(ok, pagetable, sz, entry) s.
       if \<not> ok then exec_bad pagetable sz (Some ip) s
       else
         bnd (iunlockput ip s) (\<lambda>_ s.
         bnd (end_op s) (\<lambda>_ s.
         bnd (exec_stack pagetable sz argv s) (\<lambda>(ok, sz, sp, argc) s.
         if \<not> ok then exec_bad pagetable sz None s
         else bnd (exec_commit p path pagetable sz entry sp s) (\<lambda>_ s.
           Ret (of_nat argc) s)))))))))"

end
