(* ===== verification/Sysproc.thy ===== *)
theory Sysproc
  imports Exec
begin

text \<open>
  Fetching system call arguments (\<^verbatim>\<open>kernel/syscall.c\<close>) and the system calls about processes (\<^verbatim>\<open>kernel/sysproc.c\<close>).
  A fetched word or string is the value of the call, \<open>None\<close> its failure; the number \<^verbatim>\<open>fetchstr\<close> and \<^verbatim>\<open>argstr\<close> return is
  the length of the string. The results of system calls are 64-bit; a C \<^verbatim>\<open>int\<close> is extended with its sign.
\<close>

section \<open>Arguments\<close>

definition fetchaddr :: "uint64 \<Rightarrow> 'z kmem_state_scheme \<Rightarrow> ('z kmem_state_scheme, uint64 option) res" where
  "fetchaddr addr s =
     bnd (myproc s) (\<lambda>p s.
     if addr \<ge> p_sz (procs s p) \<or> addr + 8 > p_sz (procs s p) then Ret None s
     else bnd (copyin (p_pagetable (procs s p)) addr 8 s) (\<lambda>(r, bs) s.
       if r \<noteq> 0 then Ret None s else Ret (Some (le_dec bs)) s))"

definition fetchstr :: "uint64 \<Rightarrow> nat \<Rightarrow> 'z kmem_state_scheme \<Rightarrow> ('z kmem_state_scheme, byte list option) res" where
  "fetchstr addr mx s =
     bnd (myproc s) (\<lambda>p s.
     bnd (copyinstr (p_pagetable (procs s p)) addr mx s) (\<lambda>(r, buf) s.
     if sint r < 0 then Ret None s else Ret (Some (takeWhile (\<lambda>b. b \<noteq> 0) buf)) s))"

definition argraw :: "nat \<Rightarrow> 'z kstate_scheme \<Rightarrow> ('z kstate_scheme, uint64) res" where
  "argraw n s =
     bnd (myproc s) (\<lambda>p s.
     let tf = p_tf (procs s p) in
     if n = 0 then Ret (tf_a0 tf) s
     else if n = 1 then Ret (tf_a1 tf) s
     else if n = 2 then Ret (tf_a2 tf) s
     else if n = 3 then Ret (tf_a3 tf) s
     else if n = 4 then Ret (tf_a4 tf) s
     else if n = 5 then Ret (tf_a5 tf) s
     else Panic ''argraw'')"

definition argint :: "nat \<Rightarrow> 'z kstate_scheme \<Rightarrow> ('z kstate_scheme, cint) res" where
  "argint n s = bnd (argraw n s) (\<lambda>v s. Ret (ucast v) s)"

definition argaddr :: "nat \<Rightarrow> 'z kstate_scheme \<Rightarrow> ('z kstate_scheme, uint64) res" where
  "argaddr n s = argraw n s"

definition argstr :: "nat \<Rightarrow> nat \<Rightarrow> 'z kmem_state_scheme \<Rightarrow> ('z kmem_state_scheme, byte list option) res" where
  "argstr n mx s = bnd (argaddr n s) (\<lambda>addr s. fetchstr addr mx s)"

section \<open>System calls about processes\<close>

text \<open>\<^verbatim>\<open>sys_exit\<close> does not return: its value is the state at the switch to the scheduler.\<close>

definition sys_exit :: "'z proc_state_scheme \<Rightarrow> ('z proc_state_scheme, unit) res" where
  "sys_exit s = bnd (argint 0 s) (\<lambda>n s. exit n s)"

definition sys_getpid :: "'z proc_state_scheme \<Rightarrow> ('z proc_state_scheme, uint64) res" where
  "sys_getpid s = bnd (myproc s) (\<lambda>p s. Ret (scast (p_pid (procs s p))) s)"

definition sys_fork :: "'z proc_state_scheme \<Rightarrow> ('z proc_state_scheme, uint64) res" where
  "sys_fork s = bnd (fork s) (\<lambda>r s. Ret (scast r) s)"

definition sys_wait :: "'z proc_state_scheme \<Rightarrow> ('z proc_state_scheme, uint64) res" where
  "sys_wait s = bnd (argaddr 0 s) (\<lambda>p s. bnd (wait p s) (\<lambda>r s. Ret (scast r) s))"

definition sys_sbrk :: "'z proc_state_scheme \<Rightarrow> ('z proc_state_scheme, uint64) res" where
  "sys_sbrk s =
     bnd (argint 0 s) (\<lambda>n s.
     bnd (myproc s) (\<lambda>p s.
     let addr = p_sz (procs s p) in
     bnd (growproc n s) (\<lambda>r s.
     if sint r < 0 then Ret (-1) s else Ret addr s)))"

text \<open>The loop of \<^verbatim>\<open>sys_sleep\<close>; the comparison is unsigned.\<close>

definition sys_sleep_body :: "uint32 \<Rightarrow> cint \<Rightarrow> 'z proc_state_scheme \<Rightarrow> ('z proc_state_scheme, uint64) res" where
  "sys_sleep_body ticks0 n s =
     (if ticks s - ticks0 < n then
        bnd (myproc s) (\<lambda>p s.
        bnd (killed p s) (\<lambda>k s.
        if k then bnd (rel L_ticks s) (\<lambda>_ s. Ret (-1) s)
        else bnd (sleep Ch_ticks L_ticks s) (\<lambda>_ s. Ret (-1) s)))
      else bnd (rel L_ticks s) (\<lambda>_ s. Ret 0 s))"

definition sys_sleep :: "'z proc_state_scheme \<Rightarrow> ('z proc_state_scheme, uint64) res" where
  "sys_sleep s =
     bnd (argint 0 s) (\<lambda>n s.
     bnd (acq L_ticks s) (\<lambda>_ s.
     let ticks0 = ticks s in
     sys_sleep_body ticks0 n s))"

definition sys_sleep_resume :: "uint32 \<Rightarrow> cint \<Rightarrow> 'z proc_state_scheme \<Rightarrow> ('z proc_state_scheme, uint64) res" where
  "sys_sleep_resume ticks0 n s = bnd (sleep_resume L_ticks s) (\<lambda>_ s. sys_sleep_body ticks0 n s)"

definition sys_kill :: "'z proc_state_scheme \<Rightarrow> ('z proc_state_scheme, uint64) res" where
  "sys_kill s = bnd (argint 0 s) (\<lambda>pid s. bnd (kill pid s) (\<lambda>r s. Ret (scast r) s))"

definition sys_uptime :: "'z proc_state_scheme \<Rightarrow> ('z proc_state_scheme, uint64) res" where
  "sys_uptime s =
     bnd (acq L_ticks s) (\<lambda>_ s.
     let xticks = ticks s in
     bnd (rel L_ticks s) (\<lambda>_ s. Ret (ucast xticks) s))"

end
