(* ===== verification/Sysfile.thy ===== *)
theory Sysfile
  imports Sysproc
begin

text \<open>\<^verbatim>\<open>kernel/sysfile.c\<close>: the system calls about files, directories and pipes, with their checks and error paths.\<close>

definition MAXPATH :: nat where "MAXPATH = 128"
definition O_RDONLY :: cint where "O_RDONLY = 0x000"
definition O_WRONLY :: cint where "O_WRONLY = 0x001"
definition O_RDWR :: cint where "O_RDWR = 0x002"
definition O_CREATE :: cint where "O_CREATE = 0x200"
definition O_TRUNC :: cint where "O_TRUNC = 0x400"

section \<open>File descriptors\<close>

text \<open>The descriptor and its file; \<open>None\<close> is the result -1.\<close>

definition argfd :: "nat \<Rightarrow> 'z kstate_scheme \<Rightarrow> ('z kstate_scheme, (nat \<times> nat) option) res" where
  "argfd n s =
     bnd (argint n s) (\<lambda>fd s.
     if sint fd < 0 \<or> sint fd \<ge> int NOFILE then Ret None s
     else bnd (myproc s) (\<lambda>p s.
       case p_ofile (procs s p) (unat fd) of
         None \<Rightarrow> Ret None s
       | Some f \<Rightarrow> Ret (Some (unat fd, f)) s))"

definition set_ofile :: "nat \<Rightarrow> nat \<Rightarrow> nat option \<Rightarrow> 'z kstate_scheme \<Rightarrow> 'z kstate_scheme" where
  "set_ofile p fd f s = upd_proc p (\<lambda>q. q\<lparr>p_ofile := (p_ofile q)(fd := f)\<rparr>) s"

definition fdalloc :: "nat \<Rightarrow> 'z kstate_scheme \<Rightarrow> ('z kstate_scheme, nat option) res" where
  "fdalloc f s =
     bnd (myproc s) (\<lambda>p s.
     case find (\<lambda>fd. p_ofile (procs s p) fd = None) [0..<NOFILE] of
       None \<Rightarrow> Ret None s
     | Some fd \<Rightarrow> Ret (Some fd) (set_ofile p fd (Some f) s))"

definition sys_dup :: "'z proc_state_scheme \<Rightarrow> ('z proc_state_scheme, uint64) res" where
  "sys_dup s =
     bnd (argfd 0 s) (\<lambda>r s.
     case r of None \<Rightarrow> Ret (-1) s
     | Some (_, f) \<Rightarrow>
       bnd (fdalloc f s) (\<lambda>r s.
       case r of None \<Rightarrow> Ret (-1) s
       | Some fd \<Rightarrow> bnd (filedup f s) (\<lambda>_ s. Ret (of_nat fd) s)))"

definition sys_read :: "'z proc_state_scheme \<Rightarrow> ('z proc_state_scheme, uint64) res" where
  "sys_read s =
     bnd (argaddr 1 s) (\<lambda>p s.
     bnd (argint 2 s) (\<lambda>n s.
     bnd (argfd 0 s) (\<lambda>r s.
     case r of None \<Rightarrow> Ret (-1) s
     | Some (_, f) \<Rightarrow> bnd (fileread f p n s) (\<lambda>r s. Ret (scast r) s))))"

definition sys_write :: "'z proc_state_scheme \<Rightarrow> ('z proc_state_scheme, uint64) res" where
  "sys_write s =
     bnd (argaddr 1 s) (\<lambda>p s.
     bnd (argint 2 s) (\<lambda>n s.
     bnd (argfd 0 s) (\<lambda>r s.
     case r of None \<Rightarrow> Ret (-1) s
     | Some (_, f) \<Rightarrow> bnd (filewrite f p n s) (\<lambda>r s. Ret (scast r) s))))"

definition sys_close :: "'z proc_state_scheme \<Rightarrow> ('z proc_state_scheme, uint64) res" where
  "sys_close s =
     bnd (argfd 0 s) (\<lambda>r s.
     case r of None \<Rightarrow> Ret (-1) s
     | Some (fd, f) \<Rightarrow>
       bnd (myproc s) (\<lambda>p s.
       bnd (fileclose f (set_ofile p fd None s)) (\<lambda>_ s. Ret 0 s)))"

definition sys_fstat :: "byte list \<Rightarrow> 'z proc_state_scheme \<Rightarrow> ('z proc_state_scheme, uint64) res" where
  "sys_fstat pad s =
     bnd (argaddr 1 s) (\<lambda>st s.
     bnd (argfd 0 s) (\<lambda>r s.
     case r of None \<Rightarrow> Ret (-1) s
     | Some (_, f) \<Rightarrow> bnd (filestat pad f st s) (\<lambda>r s. Ret (scast r) s)))"

section \<open>Links\<close>

definition add_nlink :: "nat \<Rightarrow> uint16 \<Rightarrow> 'z fs_state_scheme \<Rightarrow> 'z fs_state_scheme" where
  "add_nlink ip d s = upd_inode ip (\<lambda>n. n\<lparr>i_nlink := i_nlink n + d\<rparr>) s"

text \<open>\<^verbatim>\<open>end_op(); return -1\<close>\<close>

definition op_fails :: "'z log_state_scheme \<Rightarrow> ('z log_state_scheme, uint64) res" where
  "op_fails s = bnd (end_op s) (\<lambda>_ s. Ret (-1) s)"

definition sys_link_bad :: "nat \<Rightarrow> 'z fs_state_scheme \<Rightarrow> ('z fs_state_scheme, uint64) res" where
  "sys_link_bad ip s =
     bnd (ilock ip s) (\<lambda>_ s.
     bnd (iupdate ip (add_nlink ip (-1) s)) (\<lambda>_ s.
     bnd (iunlockput ip s) (\<lambda>_ s.
     op_fails s)))"

definition sys_link :: "'z proc_state_scheme \<Rightarrow> ('z proc_state_scheme, uint64) res" where
  "sys_link s =
     bnd (argstr 0 MAXPATH s) (\<lambda>r s.
     case r of None \<Rightarrow> Ret (-1) s
     | Some old \<Rightarrow>
     bnd (argstr 1 MAXPATH s) (\<lambda>r s.
     case r of None \<Rightarrow> Ret (-1) s
     | Some new \<Rightarrow>
       bnd (begin_op s) (\<lambda>_ s.
       bnd (namei old s) (\<lambda>r s.
       case r of None \<Rightarrow> op_fails s
       | Some ip \<Rightarrow>
         bnd (ilock ip s) (\<lambda>_ s.
         if i_type (itable s ip) = T_DIR then bnd (iunlockput ip s) (\<lambda>_ s. op_fails s)
         else
           bnd (iupdate ip (add_nlink ip 1 s)) (\<lambda>_ s.
           bnd (iunlock ip s) (\<lambda>_ s.
           bnd (nameiparent new s) (\<lambda>(r, name) s.
           case r of None \<Rightarrow> sys_link_bad ip s
           | Some dp \<Rightarrow>
             bnd (ilock dp s) (\<lambda>_ s.
             bnd (if i_dev (itable s dp) \<noteq> i_dev (itable s ip) then Ret (-1) s
                  else dirlink dp name (i_inum (itable s ip)) s) (\<lambda>r s.
             if sint r < 0 then bnd (iunlockput dp s) (\<lambda>_ s. sys_link_bad ip s)
             else
               bnd (iunlockput dp s) (\<lambda>_ s.
               bnd (iput ip s) (\<lambda>_ s.
               bnd (end_op s) (\<lambda>_ s.
               Ret 0 s)))))))))))))"

text \<open>The loop over the entries after the first two.\<close>

fun isdirempty_loop :: "nat \<Rightarrow> nat list \<Rightarrow> 'z fs_state_scheme \<Rightarrow> ('z fs_state_scheme, bool) res" where
  "isdirempty_loop dp [] s = Ret True s"
| "isdirempty_loop dp (off # offs) s =
     bnd (readi dp Kvar (of_nat off) 16 s) (\<lambda>(r, de) s.
     if r \<noteq> 16 then Panic ''isdirempty: readi''
     else if de_inum de \<noteq> 0 then Ret False s
     else isdirempty_loop dp offs s)"

definition isdirempty :: "nat \<Rightarrow> 'z fs_state_scheme \<Rightarrow> ('z fs_state_scheme, bool) res" where
  "isdirempty dp s = isdirempty_loop dp (drop 2 (de_offsets (unat (i_size (itable s dp))))) s"

definition dot :: "byte list" where "dot = bytes_of ''.''"
definition dotdot :: "byte list" where "dotdot = bytes_of ''..''"

definition sys_unlink :: "'z proc_state_scheme \<Rightarrow> ('z proc_state_scheme, uint64) res" where
  "sys_unlink s =
     bnd (argstr 0 MAXPATH s) (\<lambda>r s.
     case r of None \<Rightarrow> Ret (-1) s
     | Some path \<Rightarrow>
       bnd (begin_op s) (\<lambda>_ s.
       bnd (nameiparent path s) (\<lambda>(r, name) s.
       case r of None \<Rightarrow> op_fails s
       | Some dp \<Rightarrow>
         bnd (ilock dp s) (\<lambda>_ s.
         if namecmp name dot = 0 \<or> namecmp name dotdot = 0 then bnd (iunlockput dp s) (\<lambda>_ s. op_fails s)
         else bnd (dirlookup dp name s) (\<lambda>r s.
           case r of None \<Rightarrow> bnd (iunlockput dp s) (\<lambda>_ s. op_fails s)
           | Some (ip, off) \<Rightarrow>
             bnd (ilock ip s) (\<lambda>_ s.
             if sint (i_nlink (itable s ip)) < 1 then Panic ''unlink: nlink < 1''
             else bnd (if i_type (itable s ip) = T_DIR then isdirempty ip s else Ret True s) (\<lambda>removable s.
               if \<not> removable then
                 bnd (iunlockput ip s) (\<lambda>_ s.
                 bnd (iunlockput dp s) (\<lambda>_ s. op_fails s))
               else
                 bnd (writei dp (Ksrc (replicate 16 0)) off 16 s) (\<lambda>r s.
                 if r \<noteq> 16 then Panic ''unlink: writei''
                 else
                   bnd (if i_type (itable s ip) = T_DIR then iupdate dp (add_nlink dp (-1) s) else Ret () s) (\<lambda>_ s.
                   bnd (iunlockput dp s) (\<lambda>_ s.
                   bnd (iupdate ip (add_nlink ip (-1) s)) (\<lambda>_ s.
                   bnd (iunlockput ip s) (\<lambda>_ s.
                   bnd (end_op s) (\<lambda>_ s.
                   Ret 0 s)))))))))))))"

section \<open>Creating and opening\<close>

definition create_fail :: "nat \<Rightarrow> nat \<Rightarrow> 'z fs_state_scheme \<Rightarrow> ('z fs_state_scheme, nat option) res" where
  "create_fail ip dp s =
     (let s = upd_inode ip (\<lambda>n. n\<lparr>i_nlink := 0\<rparr>) s in
      bnd (iupdate ip s) (\<lambda>_ s.
      bnd (iunlockput ip s) (\<lambda>_ s.
      bnd (iunlockput dp s) (\<lambda>_ s. Ret None s))))"

definition create :: "byte list \<Rightarrow> uint16 \<Rightarrow> uint16 \<Rightarrow> uint16 \<Rightarrow> 'z fs_state_scheme \<Rightarrow> ('z fs_state_scheme, nat option) res" where
  "create path type major minor s =
     bnd (nameiparent path s) (\<lambda>(r, name) s.
     case r of None \<Rightarrow> Ret None s
     | Some dp \<Rightarrow>
       bnd (ilock dp s) (\<lambda>_ s.
       bnd (dirlookup dp name s) (\<lambda>r s.
       case r of
         Some (ip, _) \<Rightarrow>
           bnd (iunlockput dp s) (\<lambda>_ s.
           bnd (ilock ip s) (\<lambda>_ s.
           if type = T_FILE \<and> (i_type (itable s ip) = T_FILE \<or> i_type (itable s ip) = T_DEVICE) then Ret (Some ip) s
           else bnd (iunlockput ip s) (\<lambda>_ s. Ret None s)))
       | None \<Rightarrow>
           bnd (ialloc (i_dev (itable s dp)) type s) (\<lambda>r s.
           case r of None \<Rightarrow> bnd (iunlockput dp s) (\<lambda>_ s. Ret None s)
           | Some ip \<Rightarrow>
             bnd (ilock ip s) (\<lambda>_ s.
             let s = upd_inode ip (\<lambda>n. n\<lparr>i_major := major, i_minor := minor, i_nlink := 1\<rparr>) s in
             bnd (iupdate ip s) (\<lambda>_ s.
             bnd (if type = T_DIR then
                    bnd (dirlink ip dot (i_inum (itable s ip)) s) (\<lambda>r s.
                    if sint r < 0 then Ret False s
                    else bnd (dirlink ip dotdot (i_inum (itable s dp)) s) (\<lambda>r s. Ret (\<not> sint r < 0) s))
                  else Ret True s) (\<lambda>ok s.
             if \<not> ok then create_fail ip dp s
             else bnd (dirlink dp name (i_inum (itable s ip)) s) (\<lambda>r s.
               if sint r < 0 then create_fail ip dp s
               else bnd (if type = T_DIR then iupdate dp (add_nlink dp 1 s) else Ret () s) (\<lambda>_ s.
                 bnd (iunlockput dp s) (\<lambda>_ s.
                 Ret (Some ip) s))))))))))"

text \<open>The first part of \<^verbatim>\<open>sys_open\<close>: the inode, referenced and locked, or none.\<close>

definition open_inode :: "byte list \<Rightarrow> cint \<Rightarrow> 'z fs_state_scheme \<Rightarrow> ('z fs_state_scheme, nat option) res" where
  "open_inode path omode s =
     (if omode AND O_CREATE \<noteq> 0 then create path T_FILE 0 0 s
      else bnd (namei path s) (\<lambda>r s.
        case r of None \<Rightarrow> Ret None s
        | Some ip \<Rightarrow>
          bnd (ilock ip s) (\<lambda>_ s.
          if i_type (itable s ip) = T_DIR \<and> omode \<noteq> O_RDONLY then bnd (iunlockput ip s) (\<lambda>_ s. Ret None s)
          else Ret (Some ip) s)))"

definition open_file :: "nat \<Rightarrow> cint \<Rightarrow> inode \<Rightarrow> struct_file \<Rightarrow> struct_file" where
  "open_file ip omode n q =
     (let q = (if i_type n = T_DEVICE then q\<lparr>f_type := FD_DEVICE, f_major := i_major n\<rparr>
               else q\<lparr>f_type := FD_INODE, f_off := 0\<rparr>)
      in q\<lparr>f_ip := ip, f_readable := (omode AND O_WRONLY = 0),
           f_writable := (omode AND O_WRONLY \<noteq> 0 \<or> omode AND O_RDWR \<noteq> 0)\<rparr>)"

definition sys_open :: "'z proc_state_scheme \<Rightarrow> ('z proc_state_scheme, uint64) res" where
  "sys_open s =
     bnd (argint 1 s) (\<lambda>omode s.
     bnd (argstr 0 MAXPATH s) (\<lambda>r s.
     case r of None \<Rightarrow> Ret (-1) s
     | Some path \<Rightarrow>
       bnd (begin_op s) (\<lambda>_ s.
       bnd (open_inode path omode s) (\<lambda>r s.
       case r of None \<Rightarrow> op_fails s
       | Some ip \<Rightarrow>
         if i_type (itable s ip) = T_DEVICE \<and>
            (sint (i_major (itable s ip)) < 0 \<or> sint (i_major (itable s ip)) \<ge> int NDEV)
         then bnd (iunlockput ip s) (\<lambda>_ s. op_fails s)
         else bnd (filealloc s) (\<lambda>r s.
           case r of None \<Rightarrow> bnd (iunlockput ip s) (\<lambda>_ s. op_fails s)
           | Some f \<Rightarrow>
             bnd (fdalloc f s) (\<lambda>r s.
             case r of
               None \<Rightarrow> bnd (fileclose f s) (\<lambda>_ s. bnd (iunlockput ip s) (\<lambda>_ s. op_fails s))
             | Some fd \<Rightarrow>
                 let s = upd_file f (open_file ip omode (itable s ip)) s in
                 bnd (if omode AND O_TRUNC \<noteq> 0 \<and> i_type (itable s ip) = T_FILE then itrunc ip s else Ret () s) (\<lambda>_ s.
                 bnd (iunlock ip s) (\<lambda>_ s.
                 bnd (end_op s) (\<lambda>_ s.
                 Ret (of_nat fd) s)))))))))"

definition sys_mkdir :: "'z proc_state_scheme \<Rightarrow> ('z proc_state_scheme, uint64) res" where
  "sys_mkdir s =
     bnd (begin_op s) (\<lambda>_ s.
     bnd (argstr 0 MAXPATH s) (\<lambda>r s.
     case r of None \<Rightarrow> op_fails s
     | Some path \<Rightarrow>
       bnd (create path T_DIR 0 0 s) (\<lambda>r s.
       case r of None \<Rightarrow> op_fails s
       | Some ip \<Rightarrow> bnd (iunlockput ip s) (\<lambda>_ s. bnd (end_op s) (\<lambda>_ s. Ret 0 s)))))"

definition sys_mknod :: "'z proc_state_scheme \<Rightarrow> ('z proc_state_scheme, uint64) res" where
  "sys_mknod s =
     bnd (begin_op s) (\<lambda>_ s.
     bnd (argint 1 s) (\<lambda>major s.
     bnd (argint 2 s) (\<lambda>minor s.
     bnd (argstr 0 MAXPATH s) (\<lambda>r s.
     case r of None \<Rightarrow> op_fails s
     | Some path \<Rightarrow>
       bnd (create path T_DEVICE (ucast major) (ucast minor) s) (\<lambda>r s.
       case r of None \<Rightarrow> op_fails s
       | Some ip \<Rightarrow> bnd (iunlockput ip s) (\<lambda>_ s. bnd (end_op s) (\<lambda>_ s. Ret 0 s)))))))"

definition sys_chdir :: "'z proc_state_scheme \<Rightarrow> ('z proc_state_scheme, uint64) res" where
  "sys_chdir s =
     bnd (myproc s) (\<lambda>p s.
     bnd (begin_op s) (\<lambda>_ s.
     bnd (argstr 0 MAXPATH s) (\<lambda>r s.
     case r of None \<Rightarrow> op_fails s
     | Some path \<Rightarrow>
       bnd (namei path s) (\<lambda>r s.
       case r of None \<Rightarrow> op_fails s
       | Some ip \<Rightarrow>
         bnd (ilock ip s) (\<lambda>_ s.
         if i_type (itable s ip) \<noteq> T_DIR then bnd (iunlockput ip s) (\<lambda>_ s. op_fails s)
         else bnd (iunlock ip s) (\<lambda>_ s.
           case p_cwd (procs s p) of None \<Rightarrow> Panic ''kerneltrap''
           | Some cwd \<Rightarrow>
             bnd (iput cwd s) (\<lambda>_ s.
             bnd (end_op s) (\<lambda>_ s.
             Ret 0 (upd_proc p (\<lambda>q. q\<lparr>p_cwd := Some ip\<rparr>) s)))))))))"

section \<open>exec and pipe\<close>

text \<open>
  The loop fetching the argument strings, each into a page of its own: whether it reached the null pointer, and
  the pages with their strings. The first argument counts the entries of \<^verbatim>\<open>argv\<close> left.
\<close>

fun sys_exec_args ::
  "nat \<Rightarrow> uint64 \<Rightarrow> nat \<Rightarrow> (uint64 \<times> byte list) list \<Rightarrow> 'z kmem_state_scheme \<Rightarrow> ('z kmem_state_scheme, bool \<times> (uint64 \<times> byte list) list) res" where
  "sys_exec_args 0 uargv i argv s = Ret (False, argv) s"
| "sys_exec_args (Suc k) uargv i argv s =
     bnd (fetchaddr (uargv + 8 * of_nat i) s) (\<lambda>r s.
     case r of None \<Rightarrow> Ret (False, argv) s
     | Some uarg \<Rightarrow>
       if uarg = 0 then Ret (True, argv) s
       else bnd (kalloc s) (\<lambda>pg s.
         if pg = 0 then Ret (False, argv) s
         else bnd (fetchstr uarg PGSIZE s) (\<lambda>r s.
           case r of None \<Rightarrow> Ret (False, argv @ [(pg, [])]) s
           | Some arg \<Rightarrow>
             sys_exec_args k uargv (i + 1) (argv @ [(pg, arg)]) (put_mem (store_bytes (mem s) pg (arg @ [0])) s))))"

definition sys_exec :: "'z proc_state_scheme \<Rightarrow> ('z proc_state_scheme, uint64) res" where
  "sys_exec s =
     bnd (argaddr 1 s) (\<lambda>uargv s.
     bnd (argstr 0 MAXPATH s) (\<lambda>r s.
     case r of None \<Rightarrow> Ret (-1) s
     | Some path \<Rightarrow>
       bnd (sys_exec_args MAXARG uargv 0 [] s) (\<lambda>(ok, argv) s.
       if ok then
         bnd (exec path (map snd argv) s) (\<lambda>ret s.
         bnd (foreach (map fst argv) kfree s) (\<lambda>_ s.
         Ret (scast ret) s))
       else
         bnd (foreach (map fst argv) kfree s) (\<lambda>_ s.
         Ret (-1) s))))"

definition close_both :: "nat \<Rightarrow> nat \<Rightarrow> 'z file_state_scheme \<Rightarrow> ('z file_state_scheme, uint64) res" where
  "close_both rfl wfl s =
     bnd (fileclose rfl s) (\<lambda>_ s.
     bnd (fileclose wfl s) (\<lambda>_ s. Ret (-1) s))"

definition sys_pipe :: "'z proc_state_scheme \<Rightarrow> ('z proc_state_scheme, uint64) res" where
  "sys_pipe s =
     bnd (myproc s) (\<lambda>p s.
     bnd (argaddr 0 s) (\<lambda>fdarray s.
     bnd (pipealloc s) (\<lambda>r s.
     case r of None \<Rightarrow> Ret (-1) s
     | Some (rfl, wfl) \<Rightarrow>
       bnd (fdalloc rfl s) (\<lambda>r s.
       case r of None \<Rightarrow> close_both rfl wfl s
       | Some fd0 \<Rightarrow>
         bnd (fdalloc wfl s) (\<lambda>r s.
         case r of None \<Rightarrow> close_both rfl wfl (set_ofile p fd0 None s)
         | Some fd1 \<Rightarrow>
           bnd (copyout (p_pagetable (procs s p)) fdarray (le_enc 4 (of_nat fd0 :: cint)) s) (\<lambda>r s.
           bnd (if sint r < 0 then Ret (-1) s
                else copyout (p_pagetable (procs s p)) (fdarray + 4) (le_enc 4 (of_nat fd1 :: cint)) s) (\<lambda>r s.
           if sint r < 0 then close_both rfl wfl (set_ofile p fd1 None (set_ofile p fd0 None s))
           else Ret 0 s)))))))"

end
