(* ===== verification/Virtio.thy ===== *)
theory Virtio
  imports Sysfile
begin

text \<open>
  \<^verbatim>\<open>kernel/virtio_disk.c\<close> with the structures of \<^verbatim>\<open>kernel/virtio.h\<close>: the descriptors and rings the driver shares with the
  disk, requests, and the completion interrupt. A descriptor's address names the object it points to. What
  the device's registers read as is a function \<open>dev\<close> of the register writes so far, an argument of
  \<^verbatim>\<open>virtio_disk_init\<close>.
\<close>

definition NUM :: nat where "NUM = 8"
definition VRING_DESC_F_NEXT :: uint16 where "VRING_DESC_F_NEXT = 1"
definition VRING_DESC_F_WRITE :: uint16 where "VRING_DESC_F_WRITE = 2"
definition VIRTIO_BLK_T_IN :: uint32 where "VIRTIO_BLK_T_IN = 0"
definition VIRTIO_BLK_T_OUT :: uint32 where "VIRTIO_BLK_T_OUT = 1"

datatype dma = Dma_null | Dma_ops nat | Dma_data nat | Dma_status nat

record virtq_desc =
  vq_addr :: dma
  vq_len :: uint32
  vq_flags :: uint16
  vq_next :: uint16

record virtio_blk_req =
  rq_type :: uint32
  rq_reserved :: uint32
  rq_sector :: uint64

record vdisk_state = proc_state +
  vd_desc :: "nat \<Rightarrow> virtq_desc"
  vd_avail_ring :: "nat \<Rightarrow> uint16"
  vd_avail_idx :: uint16
  vd_used_ring :: "nat \<Rightarrow> uint32"
  vd_used_dev_idx :: uint16
  vd_free :: "nat \<Rightarrow> bool"
  vd_used_idx :: uint16
  vd_info_b :: "nat \<Rightarrow> nat option"
  vd_info_status :: "nat \<Rightarrow> byte"
  vd_ops :: "nat \<Rightarrow> virtio_blk_req"
  vd_regs :: "(nat \<times> uint32) list"

section \<open>Descriptors\<close>

definition alloc_desc :: "'z vdisk_state_scheme \<Rightarrow> nat option \<times> 'z vdisk_state_scheme" where
  "alloc_desc s =
     (case find (vd_free s) [0..<NUM] of
        Some i \<Rightarrow> (Some i, s\<lparr>vd_free := (vd_free s)(i := False)\<rparr>)
      | None \<Rightarrow> (None, s))"

definition free_desc :: "nat \<Rightarrow> 'z vdisk_state_scheme \<Rightarrow> ('z vdisk_state_scheme, unit) res" where
  "free_desc i s =
     (if i \<ge> NUM then Panic ''free_desc 1''
      else if vd_free s i then Panic ''free_desc 2''
      else let s = s\<lparr>vd_desc := (vd_desc s)(i := \<lparr>vq_addr = Dma_null, vq_len = 0, vq_flags = 0, vq_next = 0\<rparr>)\<rparr>;
               s = s\<lparr>vd_free := (vd_free s)(i := True)\<rparr>
           in wakeup Ch_disk_free s)"

text \<open>
  The loop of \<^verbatim>\<open>free_chain\<close>, at most \<open>n\<close> descriptors of it: freeing a descriptor a second time panics, so \<open>NUM + 1\<close>
  are enough.
\<close>

fun free_chain_loop :: "nat \<Rightarrow> nat \<Rightarrow> 'z vdisk_state_scheme \<Rightarrow> ('z vdisk_state_scheme, unit) res" where
  "free_chain_loop 0 i s = Panic ''kerneltrap''"
| "free_chain_loop (Suc n) i s =
     (let flag = vq_flags (vd_desc s i); nxt = vq_next (vd_desc s i) in
      bnd (free_desc i s) (\<lambda>_ s.
      if flag AND VRING_DESC_F_NEXT \<noteq> 0 then free_chain_loop n (unat nxt) s else Ret () s))"

definition free_chain :: "nat \<Rightarrow> 'z vdisk_state_scheme \<Rightarrow> ('z vdisk_state_scheme, unit) res" where
  "free_chain i s = free_chain_loop (NUM + 1) i s"

text \<open>The loop of \<^verbatim>\<open>alloc3_desc\<close>: \<open>k\<close> descriptors to go, \<open>idx\<close> those taken.\<close>

fun alloc3_loop :: "nat \<Rightarrow> nat list \<Rightarrow> 'z vdisk_state_scheme \<Rightarrow> ('z vdisk_state_scheme, nat list option) res" where
  "alloc3_loop 0 idx s = Ret (Some idx) s"
| "alloc3_loop (Suc k) idx s =
     (case alloc_desc s of
        (Some i, s) \<Rightarrow> alloc3_loop k (idx @ [i]) s
      | (None, s) \<Rightarrow> bnd (foreach idx free_desc s) (\<lambda>_ s. Ret None s))"

definition alloc3_desc :: "'z vdisk_state_scheme \<Rightarrow> ('z vdisk_state_scheme, nat list option) res" where
  "alloc3_desc s = alloc3_loop 3 [] s"

section \<open>Requests\<close>

definition set_desc :: "nat \<Rightarrow> virtq_desc \<Rightarrow> 'z vdisk_state_scheme \<Rightarrow> 'z vdisk_state_scheme" where
  "set_desc i d s = s\<lparr>vd_desc := (vd_desc s)(i := d)\<rparr>"

text \<open>Formatting the three descriptors of a request, and handing the request to the device.\<close>

definition vd_submit :: "nat \<Rightarrow> bool \<Rightarrow> nat \<Rightarrow> nat \<Rightarrow> nat \<Rightarrow> 'z vdisk_state_scheme \<Rightarrow> 'z vdisk_state_scheme" where
  "vd_submit b write i0 i1 i2 s =
     (let sector = ucast (b_blockno (bufs s b) * of_nat (BSIZE div 512));
          s = s\<lparr>vd_ops := (vd_ops s)(i0 := \<lparr>rq_type = (if write then VIRTIO_BLK_T_OUT else VIRTIO_BLK_T_IN), rq_reserved = 0, rq_sector = sector\<rparr>)\<rparr>;
          s = set_desc i0 \<lparr>vq_addr = Dma_ops i0, vq_len = 16, vq_flags = VRING_DESC_F_NEXT, vq_next = of_nat i1\<rparr> s;
          s = set_desc i1 \<lparr>vq_addr = Dma_data b, vq_len = of_nat BSIZE,
                vq_flags = (if write then 0 else VRING_DESC_F_WRITE) OR VRING_DESC_F_NEXT, vq_next = of_nat i2\<rparr> s;
          s = s\<lparr>vd_info_status := (vd_info_status s)(i0 := 0xff)\<rparr>;
          s = set_desc i2 \<lparr>vq_addr = Dma_status i0, vq_len = 1, vq_flags = VRING_DESC_F_WRITE, vq_next = 0\<rparr> s;
          s = upd_buf b (\<lambda>q. q\<lparr>b_disk := True\<rparr>) s;
          s = s\<lparr>vd_info_b := (vd_info_b s)(i0 := Some b)\<rparr>;
          s = s\<lparr>vd_avail_ring := (vd_avail_ring s)(unat (vd_avail_idx s) mod NUM := of_nat i0)\<rparr>;
          s = s\<lparr>vd_avail_idx := vd_avail_idx s + 1\<rparr>
      in s\<lparr>vd_regs := vd_regs s @ [(0x050, 0)]\<rparr>)"

text \<open>The wait for the interrupt and the end of \<^verbatim>\<open>virtio_disk_rw\<close>; resumed, it makes the test again.\<close>

definition vd_finish :: "nat \<Rightarrow> nat \<Rightarrow> 'z vdisk_state_scheme \<Rightarrow> ('z vdisk_state_scheme, unit) res" where
  "vd_finish b i0 s =
     (if b_disk (bufs s b) then sleep (Ch_buf b) L_vdisk s
      else let s = s\<lparr>vd_info_b := (vd_info_b s)(i0 := None)\<rparr> in
        bnd (free_chain i0 s) (\<lambda>_ s.
        rel L_vdisk s))"

definition vd_finish_resume :: "nat \<Rightarrow> nat \<Rightarrow> 'z vdisk_state_scheme \<Rightarrow> ('z vdisk_state_scheme, unit) res" where
  "vd_finish_resume b i0 s = bnd (sleep_resume L_vdisk s) (\<lambda>_ s. vd_finish b i0 s)"

text \<open>\<^verbatim>\<open>virtio_disk_rw\<close> from the search for descriptors on.\<close>

definition vd_start :: "nat \<Rightarrow> bool \<Rightarrow> 'z vdisk_state_scheme \<Rightarrow> ('z vdisk_state_scheme, unit) res" where
  "vd_start b write s =
     bnd (alloc3_desc s) (\<lambda>r s.
     case r of
       None \<Rightarrow> sleep Ch_disk_free L_vdisk s
     | Some idx \<Rightarrow> vd_finish b (idx ! 0) (vd_submit b write (idx ! 0) (idx ! 1) (idx ! 2) s))"

definition vd_rw :: "nat \<Rightarrow> bool \<Rightarrow> 'z vdisk_state_scheme \<Rightarrow> ('z vdisk_state_scheme, unit) res" where
  "vd_rw b write s = bnd (acq L_vdisk s) (\<lambda>_ s. vd_start b write s)"

definition vd_start_resume :: "nat \<Rightarrow> bool \<Rightarrow> 'z vdisk_state_scheme \<Rightarrow> ('z vdisk_state_scheme, unit) res" where
  "vd_start_resume b write s = bnd (sleep_resume L_vdisk s) (\<lambda>_ s. vd_start b write s)"

section \<open>The interrupt\<close>

text \<open>The loop over the entries the device has added; the first argument is their number, which fits 16 bits.\<close>

fun vd_intr_loop :: "nat \<Rightarrow> 'z vdisk_state_scheme \<Rightarrow> ('z vdisk_state_scheme, unit) res" where
  "vd_intr_loop 0 s = Ret () s"
| "vd_intr_loop (Suc n) s =
     (let id = unat (vd_used_ring s (unat (vd_used_idx s) mod NUM)) in
      if vd_info_status s id \<noteq> 0 then Panic ''virtio_disk_intr status''
      else case vd_info_b s id of
        None \<Rightarrow> Panic ''kerneltrap''
      | Some b \<Rightarrow>
          let s = upd_buf b (\<lambda>q. q\<lparr>b_disk := False\<rparr>) s in
          bnd (wakeup (Ch_buf b) s) (\<lambda>_ s.
          vd_intr_loop n (s\<lparr>vd_used_idx := vd_used_idx s + 1\<rparr>)))"

definition virtio_disk_intr :: "uint32 \<Rightarrow> 'z vdisk_state_scheme \<Rightarrow> ('z vdisk_state_scheme, unit) res" where
  "virtio_disk_intr int_status s =
     bnd (acq L_vdisk s) (\<lambda>_ s.
     let s = s\<lparr>vd_regs := vd_regs s @ [(0x064, int_status AND 0x3)]\<rparr> in
     bnd (vd_intr_loop (unat (vd_used_dev_idx s - vd_used_idx s)) s) (\<lambda>_ s.
     rel L_vdisk s))"

section \<open>Initialisation\<close>

definition vd_write :: "nat \<Rightarrow> uint32 \<Rightarrow> 'z vdisk_state_scheme \<Rightarrow> 'z vdisk_state_scheme" where
  "vd_write r v s = s\<lparr>vd_regs := vd_regs s @ [(r, v)]\<rparr>"

definition feature_mask :: uint32 where
  "feature_mask = NOT (push_bit 5 1) AND NOT (push_bit 7 1) AND NOT (push_bit 11 1) AND NOT (push_bit 12 1)
     AND NOT (push_bit 27 1) AND NOT (push_bit 29 1) AND NOT (push_bit 28 1)"

definition virtio_disk_init :: "((nat \<times> uint32) list \<Rightarrow> nat \<Rightarrow> uint32) \<Rightarrow> 'z vdisk_state_scheme \<Rightarrow> ('z vdisk_state_scheme, unit) res" where
  "virtio_disk_init dev s =
     (let R = (\<lambda>r s. dev (vd_regs s) r) in
      if R 0x000 s \<noteq> 0x74726976 \<or> R 0x004 s \<noteq> 2 \<or> R 0x008 s \<noteq> 2 \<or> R 0x00c s \<noteq> 0x554d4551 then
        Panic ''could not find virtio disk''
      else
        let s = vd_write 0x070 0 s;
            s = vd_write 0x070 1 s;
            s = vd_write 0x070 (1 OR 2) s;
            features = R 0x010 s AND feature_mask;
            s = vd_write 0x020 features s;
            s = vd_write 0x070 (1 OR 2 OR 8) s;
            status = R 0x070 s
        in if status AND 8 = 0 then Panic ''virtio disk FEATURES_OK unset''
        else let s = vd_write 0x030 0 s in
        if R 0x044 s \<noteq> 0 then Panic ''virtio disk should not be ready''
        else let mx = R 0x034 s in
        if mx = 0 then Panic ''virtio disk has no queue 0''
        else if mx < of_nat NUM then Panic ''virtio disk max queue too short''
        else
          bnd (kalloc s) (\<lambda>desc s.
          bnd (kalloc s) (\<lambda>avail s.
          bnd (kalloc s) (\<lambda>used s.
          if desc = 0 \<or> avail = 0 \<or> used = 0 then Panic ''virtio disk kalloc''
          else
            let s = s\<lparr>vd_desc := (\<lambda>_. \<lparr>vq_addr = Dma_null, vq_len = 0, vq_flags = 0, vq_next = 0\<rparr>),
                      vd_avail_idx := 0, vd_avail_ring := (\<lambda>_. 0), vd_used_dev_idx := 0, vd_used_ring := (\<lambda>_. 0)\<rparr>;
                s = vd_write 0x038 (of_nat NUM) s;
                s = vd_write 0x080 (ucast desc) s;
                s = vd_write 0x084 (ucast (drop_bit 32 desc)) s;
                s = vd_write 0x090 (ucast avail) s;
                s = vd_write 0x094 (ucast (drop_bit 32 avail)) s;
                s = vd_write 0x0a0 (ucast used) s;
                s = vd_write 0x0a4 (ucast (drop_bit 32 used)) s;
                s = vd_write 0x044 0x1 s;
                s = s\<lparr>vd_free := (\<lambda>i. i < NUM \<or> vd_free s i)\<rparr>
            in Ret () (vd_write 0x070 (status OR 4) s)))))"

end
