(* ===== verification/Trap.thy ===== *)
theory Trap
  imports Virtio
begin

text \<open>
  Entry to the kernel and back: \<^verbatim>\<open>kernel/trap.c\<close>, the system call table of \<^verbatim>\<open>kernel/syscall.c\<close>, \<^verbatim>\<open>kernel/plic.c\<close>, \<^verbatim>\<open>forkret\<close> of
  \<^verbatim>\<open>kernel/proc.c\<close> and the boot sequence of \<^verbatim>\<open>kernel/main.c\<close>. The hart's control registers are fields of the state, as
  are the addresses the linker gives to the entry points in assembly. \<open>plic_irqs\<close> are the interrupts the
  controller will hand out, in order; \<open>plic_regs\<close> the values written to its registers.
\<close>

record trap_state = vdisk_state +
  sstatus :: uint64
  sepc :: uint64
  scause :: uint64
  stval :: uint64
  stvec :: uint64
  satp :: uint64
  sip :: uint64
  hartid :: uint64
  kernelvec_pc :: uint64
  uservec_pc :: uint64
  userret_pc :: uint64
  usertrap_pc :: uint64
  goldfish :: uint64
  vd_int_status :: uint32
  plic_irqs :: "uint32 list"
  plic_regs :: "(uint64 \<times> uint32) list"
  fs_first :: bool
  kernel_pagetable :: uint64

definition SSTATUS_SPP :: uint64 where "SSTATUS_SPP = push_bit 8 1"
definition SSTATUS_SPIE :: uint64 where "SSTATUS_SPIE = push_bit 5 1"
definition SSTATUS_SIE :: uint64 where "SSTATUS_SIE = push_bit 1 1"
definition MAKE_SATP :: "uint64 \<Rightarrow> uint64" where "MAKE_SATP pagetable = push_bit 60 8 OR drop_bit 12 pagetable"

definition UART0_IRQ :: uint32 where "UART0_IRQ = 10"
definition VIRTIO0_IRQ :: uint32 where "VIRTIO0_IRQ = 1"

section \<open>The interrupt controller\<close>

definition plic_write :: "uint64 \<Rightarrow> uint32 \<Rightarrow> 'z trap_state_scheme \<Rightarrow> 'z trap_state_scheme" where
  "plic_write a v s = s\<lparr>plic_regs := plic_regs s @ [(a, v)]\<rparr>"

definition plicinit :: "'z trap_state_scheme \<Rightarrow> 'z trap_state_scheme" where
  "plicinit s = plic_write (PLIC + ucast VIRTIO0_IRQ * 4) 1 (plic_write (PLIC + ucast UART0_IRQ * 4) 1 s)"

definition plicinithart :: "'z trap_state_scheme \<Rightarrow> 'z trap_state_scheme" where
  "plicinithart s =
     (let s = plic_write (PLIC + 0x2080 + hartid s * 0x100) (push_bit 10 1 OR push_bit 1 1) s
      in plic_write (PLIC + 0x201000 + hartid s * 0x2000) 0 s)"

definition plic_claim :: "'z trap_state_scheme \<Rightarrow> uint32 \<times> 'z trap_state_scheme" where
  "plic_claim s = (case plic_irqs s of [] \<Rightarrow> (0, s) | irq # irqs \<Rightarrow> (irq, s\<lparr>plic_irqs := irqs\<rparr>))"

definition plic_complete :: "uint32 \<Rightarrow> 'z trap_state_scheme \<Rightarrow> 'z trap_state_scheme" where
  "plic_complete irq s = plic_write (PLIC + 0x201004 + hartid s * 0x2000) irq s"

section \<open>System calls\<close>

definition sys_nanotime :: "'z trap_state_scheme \<Rightarrow> ('z trap_state_scheme, uint64) res" where
  "sys_nanotime s = Ret (goldfish s) s"

text \<open>The table; \<open>None\<close> as the value of a call means that it does not return.\<close>

definition returning :: "('s \<Rightarrow> ('s, uint64) res) \<Rightarrow> ('s \<Rightarrow> ('s, uint64 option) res) option" where
  "returning f = Some (\<lambda>s. bnd (f s) (\<lambda>v s. Ret (Some v) s))"

definition syscalls :: "byte list \<Rightarrow> int \<Rightarrow> ('z trap_state_scheme \<Rightarrow> ('z trap_state_scheme, uint64 option) res) option" where
  "syscalls pad num =
     (if num = 1 then returning sys_fork
      else if num = 2 then Some (\<lambda>s. bnd (sys_exit s) (\<lambda>_ s. Ret None s))
      else if num = 3 then returning sys_wait
      else if num = 4 then returning sys_pipe
      else if num = 5 then returning sys_read
      else if num = 6 then returning sys_kill
      else if num = 7 then returning sys_exec
      else if num = 8 then returning (sys_fstat pad)
      else if num = 9 then returning sys_chdir
      else if num = 10 then returning sys_dup
      else if num = 11 then returning sys_getpid
      else if num = 12 then returning sys_sbrk
      else if num = 13 then returning sys_sleep
      else if num = 14 then returning sys_uptime
      else if num = 15 then returning sys_open
      else if num = 16 then returning sys_write
      else if num = 17 then returning sys_mknod
      else if num = 18 then returning sys_unlink
      else if num = 19 then returning sys_link
      else if num = 20 then returning sys_mkdir
      else if num = 21 then returning sys_close
      else if num = 22 then returning sys_nanotime
      else None)"

definition set_a0 :: "nat \<Rightarrow> uint64 \<Rightarrow> 'z kstate_scheme \<Rightarrow> 'z kstate_scheme" where
  "set_a0 p v s = upd_proc p (\<lambda>q. q\<lparr>p_tf := (p_tf q)\<lparr>tf_a0 := v\<rparr>\<rparr>) s"

text \<open>The value tells whether the call returned.\<close>

definition syscall :: "byte list \<Rightarrow> 'z trap_state_scheme \<Rightarrow> ('z trap_state_scheme, bool) res" where
  "syscall pad s =
     bnd (myproc s) (\<lambda>p s.
     let num = (ucast (tf_a7 (p_tf (procs s p))) :: cint) in
     case (if sint num > 0 then syscalls pad (sint num) else None) of
       Some f \<Rightarrow>
         bnd (f s) (\<lambda>r s.
         case r of Some v \<Rightarrow> Ret True (set_a0 p v s) | None \<Rightarrow> Ret False s)
     | None \<Rightarrow>
         bnd (printf (''%d %s: unknown sys call %d'' @ newline)
                [Num (scast (p_pid (procs s p))), Str (Some (c_string (p_name (procs s p)))), Num (scast num)] s) (\<lambda>_ s.
         Ret True (set_a0 p (-1) s)))"

section \<open>Interrupts\<close>

definition clockintr :: "'z proc_state_scheme \<Rightarrow> ('z proc_state_scheme, unit) res" where
  "clockintr s =
     bnd (acq L_ticks s) (\<lambda>_ s.
     let s = s\<lparr>ticks := ticks s + 1\<rparr> in
     bnd (wakeup Ch_ticks s) (\<lambda>_ s.
     rel L_ticks s))"

definition devintr :: "'z trap_state_scheme \<Rightarrow> ('z trap_state_scheme, nat) res" where
  "devintr s =
     (if scause s AND 0x8000000000000000 \<noteq> 0 \<and> scause s AND 0xff = 9 then
        let (irq, s) = plic_claim s in
        bnd (if irq = UART0_IRQ then uartintr s
             else if irq = VIRTIO0_IRQ then virtio_disk_intr (vd_int_status s) s
             else if irq \<noteq> 0 then printf (''unexpected interrupt irq=%d'' @ newline) [Num (scast irq)] s
             else Ret () s) (\<lambda>_ s.
        let s = (if irq \<noteq> 0 then plic_complete irq s else s) in
        Ret 1 s)
      else if scause s = 0x8000000000000001 then
        bnd (if hartid s = 0 then clockintr s else Ret () s) (\<lambda>_ s.
        let s = s\<lparr>sip := sip s AND NOT 2\<rparr> in
        Ret 2 s)
      else Ret 0 s)"

section \<open>Traps\<close>

text \<open>How a trap handler ends: a jump to \<^verbatim>\<open>userret\<close> with a page table, a switch to the scheduler in \<^verbatim>\<open>exit\<close> or in \<^verbatim>\<open>yield\<close>, or a return.\<close>

datatype trap_end = To_user uint64 | Exited | Yielded | Back

definition trapinithart :: "'z trap_state_scheme \<Rightarrow> 'z trap_state_scheme" where
  "trapinithart s = s\<lparr>stvec := kernelvec_pc s\<rparr>"

definition usertrapret :: "'z trap_state_scheme \<Rightarrow> ('z trap_state_scheme, trap_end) res" where
  "usertrapret s =
     bnd (myproc s) (\<lambda>p s.
     let s = s\<lparr>sstatus := sstatus s AND NOT SSTATUS_SIE\<rparr>;
         s = s\<lparr>stvec := TRAMPOLINE + (uservec_pc s - trampoline_pa s)\<rparr>;
         s = upd_proc p (\<lambda>q. q\<lparr>p_tf := (p_tf q)\<lparr>tf_kernel_satp := satp s, tf_kernel_sp := p_kstack q + 4096,
                                tf_kernel_trap := usertrap_pc s, tf_kernel_hartid := hartid s\<rparr>\<rparr>) s;
         x = sstatus s;
         x = x AND NOT SSTATUS_SPP;
         x = x OR SSTATUS_SPIE;
         s = s\<lparr>sstatus := x\<rparr>;
         s = s\<lparr>sepc := tf_epc (p_tf (procs s p))\<rparr>
     in Ret (To_user (MAKE_SATP (p_pagetable (procs s p)))) s)"

text \<open>The part of \<^verbatim>\<open>usertrap\<close> between saving the program counter and the last test of \<^verbatim>\<open>killed\<close>: whether the process goes on, and \<^verbatim>\<open>which_dev\<close>.\<close>

definition usertrap_body :: "byte list \<Rightarrow> nat \<Rightarrow> 'z trap_state_scheme \<Rightarrow> ('z trap_state_scheme, bool \<times> nat) res" where
  "usertrap_body pad p s =
     (if scause s = 8 then
        bnd (killed p s) (\<lambda>k s.
        if k then bnd (exit (-1) s) (\<lambda>_ s. Ret (False, 0) s)
        else
          let s = upd_proc p (\<lambda>q. q\<lparr>p_tf := (p_tf q)\<lparr>tf_epc := tf_epc (p_tf q) + 4\<rparr>\<rparr>) s;
              s = s\<lparr>sstatus := sstatus s OR SSTATUS_SIE\<rparr>
          in bnd (syscall pad s) (\<lambda>r s. Ret (r, 0) s))
      else bnd (devintr s) (\<lambda>which_dev s.
        if which_dev \<noteq> 0 then Ret (True, which_dev) s
        else
          bnd (printf (''usertrap(): unexpected scause %p pid=%d'' @ newline) [Num (scause s), Num (scast (p_pid (procs s p)))] s) (\<lambda>_ s.
          bnd (printf (''            sepc=%p stval=%p'' @ newline) [Num (sepc s), Num (stval s)] s) (\<lambda>_ s.
          bnd (setkilled p s) (\<lambda>_ s.
          Ret (True, 0) s)))))"

definition usertrap :: "byte list \<Rightarrow> 'z trap_state_scheme \<Rightarrow> ('z trap_state_scheme, trap_end) res" where
  "usertrap pad s =
     (if sstatus s AND SSTATUS_SPP \<noteq> 0 then Panic ''usertrap: not from user mode''
      else
        let s = s\<lparr>stvec := kernelvec_pc s\<rparr> in
        bnd (myproc s) (\<lambda>p s.
        let s = upd_proc p (\<lambda>q. q\<lparr>p_tf := (p_tf q)\<lparr>tf_epc := sepc s\<rparr>\<rparr>) s in
        bnd (usertrap_body pad p s) (\<lambda>(goes_on, which_dev) s.
        if \<not> goes_on then Ret Exited s
        else bnd (killed p s) (\<lambda>k s.
          if k then bnd (exit (-1) s) (\<lambda>_ s. Ret Exited s)
          else if which_dev = 2 then bnd (yield_out s) (\<lambda>_ s. Ret Yielded s)
          else usertrapret s))))"

text \<open>The rest of \<^verbatim>\<open>yield\<close> and of \<^verbatim>\<open>usertrap\<close>, when the scheduler runs the process again.\<close>

definition usertrap_resume :: "'z trap_state_scheme \<Rightarrow> ('z trap_state_scheme, trap_end) res" where
  "usertrap_resume s = bnd (myproc s) (\<lambda>p s. bnd (rel (L_proc p) s) (\<lambda>_ s. usertrapret s))"

text \<open>\<^verbatim>\<open>kerneltrap\<close>; when it yields, the registers are restored after the process runs again.\<close>

definition kerneltrap :: "'z trap_state_scheme \<Rightarrow> ('z trap_state_scheme, trap_end) res" where
  "kerneltrap s =
     (let sepc0 = sepc s; sstatus0 = sstatus s; scause0 = scause s in
      if sstatus0 AND SSTATUS_SPP = 0 then Panic ''kerneltrap: not from supervisor mode''
      else if sstatus s AND SSTATUS_SIE \<noteq> 0 then Panic ''kerneltrap: interrupts enabled''
      else bnd (devintr s) (\<lambda>which_dev s.
        if which_dev = 0 then
          bnd (printf (''scause %p'' @ newline) [Num scause0] s) (\<lambda>_ s.
          bnd (printf (''sepc=%p stval=%p'' @ newline) [Num (sepc s), Num (stval s)] s) (\<lambda>_ s.
          Panic ''kerneltrap''))
        else if which_dev = 2 \<and> (case curproc s of None \<Rightarrow> False | Some p \<Rightarrow> p_state (procs s p) = RUNNING) then
          bnd (yield_out s) (\<lambda>_ s. Ret Yielded s)
        else Ret Back (s\<lparr>sepc := sepc0, sstatus := sstatus0\<rparr>)))"

definition kerneltrap_resume :: "uint64 \<Rightarrow> uint64 \<Rightarrow> 'z trap_state_scheme \<Rightarrow> ('z trap_state_scheme, trap_end) res" where
  "kerneltrap_resume sepc0 sstatus0 s =
     bnd (myproc s) (\<lambda>p s.
     bnd (rel (L_proc p) s) (\<lambda>_ s.
     Ret Back (s\<lparr>sepc := sepc0, sstatus := sstatus0\<rparr>)))"

section \<open>First steps\<close>

definition forkret :: "'z trap_state_scheme \<Rightarrow> ('z trap_state_scheme, trap_end) res" where
  "forkret s =
     bnd (myproc s) (\<lambda>p s.
     bnd (rel (L_proc p) s) (\<lambda>_ s.
     bnd (if fs_first s then fsinit ROOTDEV (s\<lparr>fs_first := False\<rparr>) else Ret () s) (\<lambda>_ s.
     usertrapret s)))"

definition kvminit :: "uint64 \<Rightarrow> 'z trap_state_scheme \<Rightarrow> ('z trap_state_scheme, unit) res" where
  "kvminit etext s = bnd (kvmmake etext (trampoline_pa s) s) (\<lambda>pt s. Ret () (s\<lparr>kernel_pagetable := pt\<rparr>))"

definition kvminithart :: "'z trap_state_scheme \<Rightarrow> 'z trap_state_scheme" where
  "kvminithart s = s\<lparr>satp := MAKE_SATP (kernel_pagetable s)\<rparr>"

text \<open>
  \<^verbatim>\<open>main\<close> on hart 0 up to the call of \<^verbatim>\<open>scheduler\<close>. \<open>dev\<close> and \<open>etext\<close> are as in \<^verbatim>\<open>virtio_disk_init\<close> and \<^verbatim>\<open>kvmmake\<close>; \<open>None\<close> is
  a \<^verbatim>\<open>kinit\<close> that does not end.
\<close>

definition main :: "((nat \<times> uint32) list \<Rightarrow> nat \<Rightarrow> uint32) \<Rightarrow> uint64 \<Rightarrow> 'z trap_state_scheme \<Rightarrow> ('z trap_state_scheme, unit) res option" where
  "main dev etext s =
     (case
        (let s = consoleinit s in
         bnd (printf newline [] s) (\<lambda>_ s.
         bnd (printf (''xv6 kernel is booting'' @ newline) [] s) (\<lambda>_ s.
         printf newline [] s))) of
        Panic e \<Rightarrow> Some (Panic e)
      | Sleep c s \<Rightarrow> Some (Sleep c s)
      | Ret _ s \<Rightarrow>
          map_option (\<lambda>r.
            bnd r (\<lambda>_ s.
            bnd (kvminit etext s) (\<lambda>_ s.
            let s = kvminithart s in
            bnd (procinit s) (\<lambda>_ s.
            let s = trapinithart s;
                s = plicinit s;
                s = plicinithart s
            in bnd (binit s) (\<lambda>_ s.
               bnd (iinit s) (\<lambda>_ s.
               bnd (virtio_disk_init dev s) (\<lambda>_ s.
               userinit s))))))) (kinit s))"

end
