(* ===== verification/Discipline.thy ===== *)
theory Discipline
  imports Trap
begin

text \<open>
  Resource discipline of the whole kernel. A rule per function says what its return does to three resources:
  the spin locks the hart holds, the sleep locks that are taken, and the number of file system operations in
  progress, and that it keeps the sizes of the kernel's arrays. Composed over every branch of every system call they give that a
  system call that returns has released every lock it took, ended every operation it began, and overrun no array.
\<close>

section \<open>Rules for outcomes\<close>

text \<open>\<open>ret m Q\<close>: if the call returns, \<open>Q\<close> holds of its value and state.\<close>

definition ret :: "('s, 'a) res \<Rightarrow> ('a \<Rightarrow> 's \<Rightarrow> bool) \<Rightarrow> bool" where
  "ret m Q \<longleftrightarrow> (\<forall>a s. m = Ret a s \<longrightarrow> Q a s)"

named_theorems ret_intro \<open>rules for returning calls\<close>

lemma ret_mono: "ret m P \<Longrightarrow> (\<And>a s. P a s \<Longrightarrow> Q a s) \<Longrightarrow> ret m Q"
  by (simp add: ret_def)

lemma ret_conj: "ret m P \<Longrightarrow> ret m Q \<Longrightarrow> ret m (\<lambda>a s. P a s \<and> Q a s)"
  by (simp add: ret_def)

lemma retD: "ret m Q \<Longrightarrow> m = Ret a s \<Longrightarrow> Q a s"
  by (simp add: ret_def)

lemma ret_Ret [ret_intro]: "Q a s \<Longrightarrow> ret (Ret a s) Q"
  by (simp add: ret_def)

lemma ret_Panic [ret_intro]: "ret (Panic e) Q"
  by (simp add: ret_def)

lemma ret_bnd [ret_intro]: "ret m (\<lambda>a s. ret (f a s) Q) \<Longrightarrow> ret (bnd m f) Q"
  by (auto simp: ret_def bnd_eq_Ret)

lemma ret_if [ret_intro]: "(c \<Longrightarrow> ret a Q) \<Longrightarrow> (\<not> c \<Longrightarrow> ret b Q) \<Longrightarrow> ret (if c then a else b) Q"
  by simp

lemma ret_let [ret_intro]: "ret (f e) Q \<Longrightarrow> ret (let x = e in f x) Q"
  by simp

lemma ret_option [ret_intro]:
  "(x = None \<Longrightarrow> ret a Q) \<Longrightarrow> (\<And>y. x = Some y \<Longrightarrow> ret (b y) Q) \<Longrightarrow> ret (case x of None \<Rightarrow> a | Some y \<Rightarrow> b y) Q"
  by (cases x) auto

lemma ret_prod [ret_intro]: "(\<And>a b. x = (a, b) \<Longrightarrow> ret (f a b) Q) \<Longrightarrow> ret (case x of (a, b) \<Rightarrow> f a b) Q"
  by (cases x) auto

lemma ret_prod_app [ret_intro]: "(\<And>a b. x = (a, b) \<Longrightarrow> ret (f a b s) Q) \<Longrightarrow> ret (case_prod f x s) Q"
  by (cases x) auto

lemma ret_sum [ret_intro]:
  "(\<And>y. x = Inl y \<Longrightarrow> ret (a y) Q) \<Longrightarrow> (\<And>y. x = Inr y \<Longrightarrow> ret (b y) Q) \<Longrightarrow> ret (case x of Inl y \<Rightarrow> a y | Inr y \<Rightarrow> b y) Q"
  by (cases x) auto

section \<open>Resources\<close>

definition slset :: "'z slock_state_scheme \<Rightarrow> slid set" where
  "slset s = {l. sl_locked (slocks s l)}"

lemma slset_eqI: "slocks s' = slocks s \<Longrightarrow> slset s' = slset s"
  by (simp add: slset_def)

lemma slset_upd [simp]:
  "slset (s\<lparr>held := h\<rparr>) = slset s" "slset (s\<lparr>procs := ps\<rparr>) = slset s" "slset (s\<lparr>curproc := c\<rparr>) = slset s"
  "slset (s\<lparr>consout := co\<rparr>) = slset s"
  by (simp_all add: slset_def)

text \<open>
  The sizes of the kernel's arrays: 1024 bytes in a buffer and in a disk block, 13 block addresses in an inode, 16 bytes in a
  process's name, at most \<^verbatim>\<open>LOGSIZE\<close> blocks in the log header.
\<close>

definition wt :: "'z fs_state_scheme \<Rightarrow> bool" where
  "wt s \<longleftrightarrow> (\<forall>b. length (b_data (bufs s b)) = BSIZE) \<and> (\<forall>n. length (disk s n) = BSIZE) \<and> lg_n s \<le> int LOGSIZE \<and>
     (\<forall>i. length (i_addrs (itable s i)) = NDIRECT + 1) \<and> (\<forall>p. length (p_name (procs s p)) = 16)"

lemma wt_cong:
  assumes "bufs s' = bufs s" "dwrites s' = dwrites s" "dinit s' = dinit s" "lg_n s' = lg_n s" "itable s' = itable s" "procs s' = procs s"
  shows "wt s' = wt s"
  using assms by (simp add: wt_def disk_def)

lemma wt_upd [simp]:
  "wt (s\<lparr>held := x0\<rparr>) = wt s"
  "wt (s\<lparr>curproc := x1\<rparr>) = wt s"
  "wt (s\<lparr>consout := x2\<rparr>) = wt s"
  "wt (s\<lparr>mem := x3\<rparr>) = wt s"
  "wt (s\<lparr>freelist := x4\<rparr>) = wt s"
  "wt (s\<lparr>slocks := x5\<rparr>) = wt s"
  "wt (s\<lparr>bprev := x6\<rparr>) = wt s"
  "wt (s\<lparr>bnext := x7\<rparr>) = wt s"
  "wt (s\<lparr>lg_start := x8\<rparr>) = wt s"
  "wt (s\<lparr>lg_size := x9\<rparr>) = wt s"
  "wt (s\<lparr>lg_outstanding := x10\<rparr>) = wt s"
  "wt (s\<lparr>lg_committing := x11\<rparr>) = wt s"
  "wt (s\<lparr>lg_dev := x12\<rparr>) = wt s"
  "wt (s\<lparr>lg_block := x13\<rparr>) = wt s"
  "wt (s\<lparr>sb := x14\<rparr>) = wt s"
  by (rule wt_cong; simp)+

lemma wt_put_mem [simp]: "wt (put_mem m s) = wt s"
  by (simp add: put_mem_def)

lemma wt_upd_proc [simp]: "wt s \<Longrightarrow> length (p_name (f (procs s i))) = 16 \<Longrightarrow> wt (upd_proc i f s)"
  by (simp add: wt_def upd_proc_def disk_def)

lemma wt_procs [simp]: "wt s \<Longrightarrow> procs s = ps \<Longrightarrow> length (p_name q) = 16 \<Longrightarrow> wt (s\<lparr>procs := ps(p := q)\<rparr>)"
  by (auto simp: wt_def disk_def)

lemma wt_upd_buf [simp]: "wt s \<Longrightarrow> length (b_data (f (bufs s i))) = BSIZE \<Longrightarrow> wt (upd_buf i f s)"
  by (simp add: wt_def upd_buf_def disk_def)

lemma wt_upd_data [simp]: "wt s \<Longrightarrow> length (f (b_data (bufs s i))) = BSIZE \<Longrightarrow> wt (upd_data i f s)"
  by (simp add: upd_data_def)

lemma wt_upd_inode [simp]: "wt s \<Longrightarrow> length (i_addrs (f (itable s i))) = NDIRECT + 1 \<Longrightarrow> wt (upd_inode i f s)"
  by (simp add: wt_def upd_inode_def disk_def)

lemma wt_upd_slock [simp]: "wt (upd_slock l f s) = wt s"
  by (simp add: upd_slock_def)

lemma wt_to_front [simp]: "wt (to_front i s) = wt s"
  by (simp add: to_front_def Let_def)

lemma wt_lg_n [simp]: "wt s \<Longrightarrow> n \<le> int LOGSIZE \<Longrightarrow> wt (s\<lparr>lg_n := n\<rparr>)"
  by (simp add: wt_def disk_def)

lemma wt_write [simp]: "wt s \<Longrightarrow> length d = BSIZE \<Longrightarrow> wt (s\<lparr>dwrites := dwrites s @ [(n, d)]\<rparr>)"
  by (auto simp: wt_def disk_def apply_writes_append)

lemma wtD [simp]:
  "wt s \<Longrightarrow> length (b_data (bufs s b)) = BSIZE" "wt s \<Longrightarrow> length (disk s n) = BSIZE" "wt s \<Longrightarrow> length (i_addrs (itable s i)) = NDIRECT + 1"
  "wt s \<Longrightarrow> length (p_name (procs s p)) = 16" "wt s \<Longrightarrow> lg_n s \<le> int LOGSIZE"
  by (simp_all add: wt_def)

abbreviation keeps :: "'z fs_state_scheme \<Rightarrow> 'y fs_state_scheme \<Rightarrow> bool" where
  "keeps s s' \<equiv> held s' = held s \<and> slset s' = slset s \<and> lg_outstanding s' = lg_outstanding s \<and> (wt s \<longrightarrow> wt s')"

lemma ret_foreach [ret_intro]:
  fixes s :: "'z fs_state_scheme"
  assumes "\<And>x (s :: 'z fs_state_scheme). x \<in> set xs \<Longrightarrow> ret (f x s) (\<lambda>_ s'. keeps s s')"
    and "\<And>s' :: 'z fs_state_scheme. keeps s s' \<Longrightarrow> Q () s'"
  shows "ret (foreach xs f s) Q"
proof -
  have "ret (foreach xs f s) (\<lambda>_ s'. keeps s s')"
    using assms(1)
  proof (induction xs arbitrary: s)
    case Nil
    then show ?case by (simp add: ret_def)
  next
    case (Cons x xs)
    have "ret (f x s) (\<lambda>_ s1. keeps s s1)" by (rule Cons.prems) simp
    moreover have "ret (foreach xs f s1) (\<lambda>_ s'. keeps s1 s')" for s1 by (rule Cons.IH) (simp add: Cons.prems)
    ultimately show ?case by (fastforce simp: ret_def bnd_eq_Ret)
  qed
  then show ?thesis using assms(2) by (auto intro: ret_mono)
qed

lemma ret_acq [ret_intro]:
  "(\<And>s'. l \<notin> held s \<Longrightarrow> held s' = insert l (held s) \<Longrightarrow> slset s' = slset s \<Longrightarrow> lg_outstanding s' = lg_outstanding s \<Longrightarrow> wt s' = wt s \<Longrightarrow> Q () s') \<Longrightarrow>
   ret (acq l (s :: 'z fs_state_scheme)) Q"
  by (simp add: ret_def acq_def)

lemma ret_rel [ret_intro]:
  "(\<And>s'. l \<in> held s \<Longrightarrow> held s' = held s - {l} \<Longrightarrow> slset s' = slset s \<Longrightarrow> lg_outstanding s' = lg_outstanding s \<Longrightarrow> wt s' = wt s \<Longrightarrow> Q () s') \<Longrightarrow>
   ret (rel l (s :: 'z fs_state_scheme)) Q"
  by (simp add: ret_def rel_def)

lemma ret_myproc [ret_intro]: "(\<And>p. curproc s = Some p \<Longrightarrow> Q p s) \<Longrightarrow> ret (myproc s) Q"
  by (auto simp: ret_def myproc_def split: option.splits)

lemma ret_sleep [ret_intro]: "ret (sleep c l s) Q"
  by (auto simp: ret_def sleep_def bnd_eq_Ret)

lemma ret_sched [ret_intro]: "Q () s \<Longrightarrow> ret (sched s) Q"
  by (auto simp: ret_def sched_def myproc_def bnd_eq_Ret split: option.splits if_splits)

lemma upd_proc_res [simp]:
  "held (upd_proc i f s) = held s" "slset (upd_proc i f s) = slset s" "lg_outstanding (upd_proc i f s) = lg_outstanding s"
  by (simp_all add: upd_proc_def)

lemma ret_wakeup_one: "ret (wakeup_one c i s) (\<lambda>_ s'. keeps s s')"
  unfolding wakeup_one_def by (intro ret_intro) (auto split: if_splits)

lemma ret_wakeup [THEN ret_mono, ret_intro]: "ret (wakeup c s) (\<lambda>_ s'. keeps s s')"
  unfolding wakeup_def by (intro ret_intro ret_wakeup_one) auto

lemma ret_killed [THEN ret_mono, ret_intro]: "ret (killed p s) (\<lambda>_ s'. keeps s s')"
  unfolding killed_def by (intro ret_intro) auto

lemma ret_setkilled [THEN ret_mono, ret_intro]: "ret (setkilled p s) (\<lambda>_ s'. keeps s s')"
  unfolding setkilled_def by (intro ret_intro) auto

lemma ret_kill_from: "ret (kill_from n i pid s) (\<lambda>_ s'. keeps s s')"
proof (induction n arbitrary: i s)
  case (Suc n)
  show ?case unfolding kill_from.simps by (intro ret_intro Suc.IH [THEN ret_mono]) auto
qed (simp add: ret_def)

lemma ret_kill [THEN ret_mono, ret_intro]: "ret (kill pid s) (\<lambda>_ s'. keeps s s')"
  unfolding kill_def by (rule ret_kill_from)

section \<open>Memory\<close>

lemma mem_res [simp]:
  "slset (s\<lparr>mem := m\<rparr>) = slset s" "slset (s\<lparr>freelist := fl\<rparr>) = slset s"
  by (simp_all add: slset_def)

lemma put_mem_res [simp]:
  "held (put_mem m s) = held s" "slset (put_mem m s) = slset s" "lg_outstanding (put_mem m s) = lg_outstanding s"
  by (simp_all add: put_mem_def)

lemma ret_kfree [THEN ret_mono, ret_intro]: "ret (kfree pa s) (\<lambda>_ s'. keeps s s')"
  unfolding kfree_def by (intro ret_intro) auto

lemma ret_kalloc [THEN ret_mono, ret_intro]: "ret (kalloc s) (\<lambda>_ s'. keeps s s')"
  unfolding kalloc_def by (intro ret_intro) (auto split: if_splits)

lemma fold_consputc_res [simp]:
  "held (fold (\<lambda>c. consputc (of_char c)) t s) = held s" "slset (fold (\<lambda>c. consputc (of_char c)) t s) = slset s"
  "lg_outstanding (fold (\<lambda>c. consputc (of_char c)) t s) = lg_outstanding s" "wt (fold (\<lambda>c. consputc (of_char c)) t s) = wt s"
  by (simp_all add: consputc_text)

lemma ret_printf [THEN ret_mono, ret_intro]: "ret (printf fmt ap s) (\<lambda>_ s'. keeps s s')"
  unfolding printf_def by (intro ret_intro) auto

lemma ret_walk_loop: "ret (walk_loop l pt va al s) (\<lambda>_ s'. keeps s s')"
proof (induction l arbitrary: pt s)
  case (Suc l)
  show ?case unfolding walk_loop.simps by (intro ret_intro Suc.IH [THEN ret_mono]) auto
qed (simp add: ret_def)

lemma ret_walk [THEN ret_mono, ret_intro]: "ret (walk pt va al s) (\<lambda>_ s'. keeps s s')"
  unfolding walk_def by (intro ret_intro ret_walk_loop)

lemma ret_walkaddr [THEN ret_mono, ret_intro]: "ret (walkaddr pt va s) (\<lambda>_ s'. keeps s s')"
  unfolding walkaddr_def by (intro ret_intro) auto

lemma ret_mappages_loop: "ret (mappages_loop pt as pa perm s) (\<lambda>_ s'. keeps s s')"
proof (induction as arbitrary: pa s)
  case (Cons a as)
  show ?case unfolding mappages_loop.simps by (intro ret_intro Cons.IH [THEN ret_mono]) auto
qed (simp add: ret_def)

lemma ret_mappages [THEN ret_mono, ret_intro]: "ret (mappages pt va sz pa perm s) (\<lambda>_ s'. keeps s s')"
  unfolding mappages_def by (intro ret_intro ret_mappages_loop)

lemma ret_uvmunmap_one: "ret (uvmunmap_one pt fr a s) (\<lambda>_ s'. keeps s s')"
  unfolding uvmunmap_one_def by (intro ret_intro) auto

lemma ret_uvmunmap [THEN ret_mono, ret_intro]: "ret (uvmunmap pt va n fr s) (\<lambda>_ s'. keeps s s')"
  unfolding uvmunmap_def by (intro ret_intro ret_uvmunmap_one) auto

lemma ret_uvmcreate [THEN ret_mono, ret_intro]: "ret (uvmcreate s) (\<lambda>_ s'. keeps s s')"
  unfolding uvmcreate_def by (intro ret_intro) auto

lemma ret_uvmdealloc [THEN ret_mono, ret_intro]: "ret (uvmdealloc pt o' n s) (\<lambda>_ s'. keeps s s')"
  unfolding uvmdealloc_def by (intro ret_intro) auto

lemma ret_uvmalloc_loop: "ret (uvmalloc_loop pt o' n x as s) (\<lambda>_ s'. keeps s s')"
proof (induction as arbitrary: s)
  case (Cons a as)
  show ?case unfolding uvmalloc_loop.simps by (intro ret_intro Cons.IH [THEN ret_mono]) auto
qed (simp add: ret_def)

lemma ret_uvmalloc [THEN ret_mono, ret_intro]: "ret (uvmalloc pt o' n x s) (\<lambda>_ s'. keeps s s')"
  unfolding uvmalloc_def by (intro ret_intro ret_uvmalloc_loop) auto

lemma ret_freewalk: "ret (freewalk lv pt s) (\<lambda>_ s'. keeps s s')"
proof (induction lv arbitrary: pt s)
  case (Suc lv)
  show ?case unfolding freewalk.simps by (intro ret_intro Suc.IH [THEN ret_mono]) auto
qed (simp add: ret_def)

lemma ret_uvmfree [THEN ret_mono, ret_intro]: "ret (uvmfree pt sz s) (\<lambda>_ s'. keeps s s')"
  unfolding uvmfree_def by (intro ret_intro ret_freewalk [THEN ret_mono]) auto

lemma ret_uvmcopy_loop: "ret (uvmcopy_loop old new is s) (\<lambda>_ s'. keeps s s')"
proof (induction "is" arbitrary: s)
  case (Cons a as)
  show ?case unfolding uvmcopy_loop.simps by (intro ret_intro Cons.IH [THEN ret_mono]) auto
qed (simp add: ret_def)

lemma ret_uvmcopy [THEN ret_mono, ret_intro]: "ret (uvmcopy old new sz s) (\<lambda>_ s'. keeps s s')"
  unfolding uvmcopy_def by (rule ret_uvmcopy_loop)

lemma ret_uvmclear [THEN ret_mono, ret_intro]: "ret (uvmclear pt va s) (\<lambda>_ s'. keeps s s')"
  unfolding uvmclear_def by (intro ret_intro) auto

lemma ret_copyout [THEN ret_mono, ret_intro]: "ret (copyout pt va src s) (\<lambda>_ s'. keeps s s')"
proof (induction "length src" arbitrary: va src s rule: less_induct)
  case less
  show ?case by (subst copyout.simps) (intro ret_intro less [THEN ret_mono]; auto simp: chunk_pos)
qed

lemma ret_copyin [THEN ret_mono, ret_intro]: "ret (copyin pt va len s) (\<lambda>r s'. keeps s s' \<and> length (snd r) \<le> len)"
proof (induction len arbitrary: va s rule: less_induct)
  case (less len)
  show ?case
    by (subst copyin.simps) (intro ret_intro less [THEN ret_mono]; use chunk_le(1) [of va len] in \<open>auto simp: chunk_pos\<close>)
qed

lemma ret_copyinstr [THEN ret_mono, ret_intro]: "ret (copyinstr pt va mx s) (\<lambda>_ s'. keeps s s')"
proof (induction mx arbitrary: va s rule: less_induct)
  case (less len)
  show ?case by (subst copyinstr.simps) (intro ret_intro less [THEN ret_mono]; auto simp: chunk_pos)
qed

section \<open>Sleep locks, buffers, log\<close>

lemma slock_res [simp]:
  "held (upd_slock l f s) = held s" "lg_outstanding (upd_slock l f s) = lg_outstanding s"
  "slset (upd_slock l f s) = (if sl_locked (f (slocks s l)) then insert l (slset s) else slset s - {l})"
  by (auto simp: upd_slock_def slset_def)

lemma buf_res [simp]:
  "held (upd_buf i f s) = held s" "slset (upd_buf i f s) = slset s" "lg_outstanding (upd_buf i f s) = lg_outstanding s"
  "slset (s\<lparr>dwrites := dw\<rparr>) = slset s" "slset (s\<lparr>bprev := bp\<rparr>) = slset s" "slset (s\<lparr>bnext := bn\<rparr>) = slset s"
  by (simp_all add: upd_buf_def slset_def)

lemma to_front_res [simp]:
  "held (to_front i s) = held s" "slset (to_front i s) = slset s" "lg_outstanding (to_front i s) = lg_outstanding s"
  by (simp_all add: to_front_def Let_def)

lemma log_res [simp]:
  "slset (s\<lparr>lg_start := a\<rparr>) = slset s" "slset (s\<lparr>lg_size := b\<rparr>) = slset s" "slset (s\<lparr>lg_outstanding := c\<rparr>) = slset s"
  "slset (s\<lparr>lg_committing := d\<rparr>) = slset s" "slset (s\<lparr>lg_dev := e\<rparr>) = slset s" "slset (s\<lparr>lg_n := n\<rparr>) = slset s"
  "slset (s\<lparr>lg_block := bl\<rparr>) = slset s"
  by (simp_all add: slset_def)

lemma not_locked: "\<not> sl_locked (slocks s l) \<longleftrightarrow> l \<notin> slset s"
  by (simp add: slset_def)

text \<open>\<open>takes l s s'\<close>: the call took sleep lock \<open>l\<close>; \<open>drops l s s'\<close>: it released it.\<close>

abbreviation takes :: "slid \<Rightarrow> 'z fs_state_scheme \<Rightarrow> 'y fs_state_scheme \<Rightarrow> bool" where
  "takes l s s' \<equiv> l \<notin> slset s \<and> held s' = held s \<and> slset s' = insert l (slset s) \<and> lg_outstanding s' = lg_outstanding s \<and> (wt s \<longrightarrow> wt s')"

abbreviation drops :: "slid \<Rightarrow> 'z fs_state_scheme \<Rightarrow> 'y fs_state_scheme \<Rightarrow> bool" where
  "drops l s s' \<equiv> held s' = held s \<and> slset s' = slset s - {l} \<and> lg_outstanding s' = lg_outstanding s \<and> (wt s \<longrightarrow> wt s')"

lemma ret_acquiresleep [THEN ret_mono, ret_intro]: "ret (acquiresleep l s) (\<lambda>_ s'. takes l s s')"
  unfolding acquiresleep_def acquiresleep_loop_def by (intro ret_intro) (auto simp: not_locked)

lemma ret_releasesleep [THEN ret_mono, ret_intro]: "ret (releasesleep l s) (\<lambda>_ s'. drops l s s')"
  unfolding releasesleep_def by (intro ret_intro) auto

lemma ret_holdingsleep [THEN ret_mono, ret_intro]: "ret (holdingsleep l s) (\<lambda>_ s'. keeps s s')"
  unfolding holdingsleep_def by (intro ret_intro) auto

lemma ret_bget [THEN ret_mono, ret_intro]: "ret (bget dev bno s) (\<lambda>i s'. takes (SL_buf i) s s')"
  unfolding bget_def by (intro ret_intro) auto

lemma ret_virtio_disk_rw [THEN ret_mono, ret_intro]: "ret (virtio_disk_rw i w s) (\<lambda>_ s'. keeps s s')"
  unfolding virtio_disk_rw_def by (intro ret_intro) (auto split: if_splits)

lemma ret_bread [THEN ret_mono, ret_intro]: "ret (bread dev bno s) (\<lambda>i s'. takes (SL_buf i) s s')"
  unfolding bread_def by (intro ret_intro) auto

lemma ret_bwrite [THEN ret_mono, ret_intro]: "ret (bwrite i s) (\<lambda>_ s'. keeps s s')"
  unfolding bwrite_def by (intro ret_intro) auto

lemma ret_brelse [THEN ret_mono, ret_intro]: "ret (brelse i s) (\<lambda>_ s'. drops (SL_buf i) s s')"
  unfolding brelse_def by (intro ret_intro) auto

lemma ret_bpin [THEN ret_mono, ret_intro]: "ret (bpin i s) (\<lambda>_ s'. keeps s s' \<and> lg_n s' = lg_n s)"
proof (rule ret_conj)
  show "ret (bpin i s) (\<lambda>_ s'. keeps s s')" unfolding bpin_def by (intro ret_intro) auto
  show "ret (bpin i s) (\<lambda>_ s'. lg_n s' = lg_n s)"
    by (auto simp: ret_def bpin_def acq_def rel_def upd_buf_def bnd_eq_Ret split: if_splits)
qed

lemma ret_bunpin [THEN ret_mono, ret_intro]: "ret (bunpin i s) (\<lambda>_ s'. keeps s s')"
  unfolding bunpin_def by (intro ret_intro) auto

lemma ret_install_one: "ret (install_one r t s) (\<lambda>_ s'. keeps s s')"
  unfolding install_one_def by (intro ret_intro) auto

lemma ret_install_trans [THEN ret_mono, ret_intro]: "ret (install_trans r s) (\<lambda>_ s'. keeps s s')"
  unfolding install_trans_def by (intro ret_intro ret_install_one) auto

lemma length_put_head [simp]:
  assumes "length h = BSIZE" "n \<le> int LOGSIZE"
  shows "length (put_head n blk h) = BSIZE"
proof -
  have "nat n \<le> 254" using assms(2) by (simp add: LOGSIZE_def MAXOPBLOCKS_def)
  then show ?thesis using put_blocks(1) [of "wr32 h 0 (of_int n)" "nat n"] assms(1) by (simp add: put_head_def BSIZE_def)
qed

lemma ret_write_head [THEN ret_mono, ret_intro]: "ret (write_head s) (\<lambda>_ s'. keeps s s')"
  unfolding write_head_def by (intro ret_intro) auto

lemma ret_begin_op [THEN ret_mono, ret_intro]:
  "ret (begin_op s) (\<lambda>_ s'. held s' = held s \<and> slset s' = slset s \<and> lg_outstanding s' = lg_outstanding s + 1 \<and> (wt s \<longrightarrow> wt s'))"
  unfolding begin_op_def begin_op_loop_def by (intro ret_intro) auto

lemma ret_write_log_one: "ret (write_log_one t s) (\<lambda>_ s'. keeps s s')"
  unfolding write_log_one_def by (intro ret_intro) auto

lemma ret_commit [THEN ret_mono, ret_intro]: "ret (commit s) (\<lambda>_ s'. keeps s s')"
  unfolding commit_def write_log_def by (intro ret_intro ret_write_log_one) auto

lemma ret_end_op [THEN ret_mono, ret_intro]:
  "ret (end_op s) (\<lambda>_ s'. held s' = held s \<and> slset s' = slset s \<and> lg_outstanding s' = lg_outstanding s - 1 \<and> (wt s \<longrightarrow> wt s'))"
  unfolding end_op_def by (intro ret_intro) auto

lemma ret_log_write [THEN ret_mono, ret_intro]: "ret (log_write b s) (\<lambda>_ s'. keeps s s')"
  unfolding log_write_def by (intro ret_intro) auto

section \<open>The file system\<close>

lemma fs_res [simp]:
  "held (upd_inode ip f s) = held s" "slset (upd_inode ip f s) = slset s" "lg_outstanding (upd_inode ip f s) = lg_outstanding s"
  "slset (s\<lparr>sb := sblk\<rparr>) = slset s"
  by (simp_all add: upd_inode_def slset_def)

lemma data_res [simp]:
  "held (upd_data b g s) = held s" "slset (upd_data b g s) = slset s" "lg_outstanding (upd_data b g s) = lg_outstanding s"
  by (simp_all add: upd_data_def)

lemma length_bits [simp]: "length (bit_set bi d) = length d" "length (bit_clear bi d) = length d"
  by (simp_all add: bit_set_def bit_clear_def)

lemma length_stores [simp]:
  "length d = BSIZE \<Longrightarrow> length (wr16 (splice d (dinode_off i) (replicate 64 0)) (dinode_off i) ty) = BSIZE"
  "length d = BSIZE \<Longrightarrow> bn < NINDIRECT \<Longrightarrow> length (wr32 d (4 * bn) a) = BSIZE"
  "length d = BSIZE \<Longrightarrow> length bs \<le> BSIZE - off mod BSIZE \<Longrightarrow> length (splice d (off mod BSIZE) bs) = BSIZE"
  using dinode_off_le [of i] by (simp_all add: BSIZE_def NINDIRECT_def)

lemma ret_either_copyout [THEN ret_mono, ret_intro]: "ret (either_copyout d bs s) (\<lambda>_ s'. keeps s s')"
  unfolding either_copyout_def by (cases d) (auto intro!: ret_intro)

lemma ret_either_copyin [THEN ret_mono, ret_intro]: "ret (either_copyin d n s) (\<lambda>r s'. keeps s s' \<and> length (snd r) \<le> n)"
  unfolding either_copyin_def by (cases d) (auto intro!: ret_intro)

lemma ret_bzero [THEN ret_mono, ret_intro]: "ret (bzero dev b s) (\<lambda>_ s'. keeps s s')"
  unfolding bzero_def by (intro ret_intro) auto

lemma ret_balloc_loop: "ret (balloc_loop dev bs s) (\<lambda>_ s'. keeps s s')"
proof (induction bs arbitrary: s)
  case Nil
  show ?case unfolding balloc_loop.simps by (intro ret_intro) auto
next
  case (Cons b bs)
  show ?case unfolding balloc_loop.simps by (intro ret_intro Cons.IH [THEN ret_mono]) auto
qed

lemma ret_balloc [THEN ret_mono, ret_intro]: "ret (balloc dev s) (\<lambda>_ s'. keeps s s')"
  unfolding balloc_def by (rule ret_balloc_loop)

lemma ret_bfree [THEN ret_mono, ret_intro]: "ret (bfree dev b s) (\<lambda>_ s'. keeps s s')"
  unfolding bfree_def by (intro ret_intro) auto

lemma ret_iupdate [THEN ret_mono, ret_intro]: "ret (iupdate ip s) (\<lambda>_ s'. keeps s s')"
  unfolding iupdate_def by (intro ret_intro) auto

lemma ret_iget [THEN ret_mono, ret_intro]: "ret (iget dev inum s) (\<lambda>_ s'. keeps s s')"
  unfolding iget_def by (intro ret_intro) auto

lemma ret_ialloc_loop: "ret (ialloc_loop dev ty is s) (\<lambda>_ s'. keeps s s')"
proof (induction "is" arbitrary: s)
  case Nil
  show ?case unfolding ialloc_loop.simps by (intro ret_intro) auto
next
  case (Cons b bs)
  show ?case unfolding ialloc_loop.simps by (intro ret_intro Cons.IH [THEN ret_mono]) auto
qed

lemma ret_ialloc [THEN ret_mono, ret_intro]: "ret (ialloc dev ty s) (\<lambda>_ s'. keeps s s')"
  unfolding ialloc_def by (rule ret_ialloc_loop)

lemma ret_idup [THEN ret_mono, ret_intro]: "ret (idup ip s) (\<lambda>_ s'. keeps s s')"
  unfolding idup_def by (intro ret_intro) auto

lemma ret_ilock [THEN ret_mono, ret_intro]: "ret (ilock ip s) (\<lambda>_ s'. takes (SL_inode ip) s s')"
  unfolding ilock_def by (intro ret_intro) auto

lemma ret_iunlock [THEN ret_mono, ret_intro]: "ret (iunlock ip s) (\<lambda>_ s'. drops (SL_inode ip) s s')"
  unfolding iunlock_def by (intro ret_intro) auto

lemma ret_bmap [THEN ret_mono, ret_intro]: "ret (bmap ip bn s) (\<lambda>_ s'. keeps s s')"
  unfolding bmap_def by (intro ret_intro) auto

lemma ret_itrunc_direct: "ret (itrunc_direct ip i s) (\<lambda>_ s'. keeps s s')"
  unfolding itrunc_direct_def by (intro ret_intro) auto

lemma ret_itrunc [THEN ret_mono, ret_intro]: "ret (itrunc ip s) (\<lambda>_ s'. keeps s s')"
  unfolding itrunc_def by (intro ret_intro ret_itrunc_direct) auto

lemma ret_iput [THEN ret_mono, ret_intro]: "ret (iput ip s) (\<lambda>_ s'. keeps s s')"
  unfolding iput_def by (intro ret_intro) auto

lemma ret_iunlockput [THEN ret_mono, ret_intro]: "ret (iunlockput ip s) (\<lambda>_ s'. drops (SL_inode ip) s s')"
  unfolding iunlockput_def by (intro ret_intro) auto

lemma ret_readi_loop: "ret (readi_loop ip d off tot n acc s) (\<lambda>_ s'. keeps s s')"
proof (induction "n - tot" arbitrary: d off tot acc s rule: less_induct)
  case less
  show ?case by (subst readi_loop.simps) (intro ret_intro less [THEN ret_mono]; auto simp: block_step)
qed

lemma ret_readi [THEN ret_mono, ret_intro]: "ret (readi ip d off n s) (\<lambda>_ s'. keeps s s')"
  unfolding readi_def by (intro ret_intro ret_readi_loop [THEN ret_mono]) auto

lemma ret_writei_loop: "ret (writei_loop ip d off tot n s) (\<lambda>_ s'. keeps s s')"
proof (induction "n - tot" arbitrary: d off tot s rule: less_induct)
  case less
  show ?case by (subst writei_loop.simps) (intro ret_intro less [THEN ret_mono]; auto simp: block_step)
qed

lemma ret_writei [THEN ret_mono, ret_intro]: "ret (writei ip d off n s) (\<lambda>_ s'. keeps s s')"
  unfolding writei_def by (intro ret_intro ret_writei_loop [THEN ret_mono]) auto

lemma ret_dirlookup_loop: "ret (dirlookup_loop dp name offs s) (\<lambda>_ s'. keeps s s')"
proof (induction offs arbitrary: s)
  case (Cons b bs)
  show ?case unfolding dirlookup_loop.simps by (intro ret_intro Cons.IH [THEN ret_mono]) auto
qed (simp add: ret_def)

lemma ret_dirlookup [THEN ret_mono, ret_intro]: "ret (dirlookup dp name s) (\<lambda>_ s'. keeps s s')"
  unfolding dirlookup_def by (intro ret_intro ret_dirlookup_loop)

lemma ret_dirlink_scan [THEN ret_mono, ret_intro]: "ret (dirlink_scan dp offs lo s) (\<lambda>_ s'. keeps s s')"
proof (induction offs arbitrary: lo s)
  case (Cons b bs)
  show ?case unfolding dirlink_scan.simps by (intro ret_intro Cons.IH [THEN ret_mono]) auto
qed (simp add: ret_def)

lemma ret_dirlink [THEN ret_mono, ret_intro]: "ret (dirlink dp name inum s) (\<lambda>_ s'. keeps s s')"
  unfolding dirlink_def by (intro ret_intro) auto

lemma ret_namex_loop: "ret (namex_loop ip path np name s) (\<lambda>_ s'. keeps s s')"
proof (induction "length path" arbitrary: ip path name s rule: less_induct)
  case less
  show ?case
    by (subst namex_loop.simps) (intro ret_intro less [THEN ret_mono]; auto dest: skipelem_shorter)
qed

lemma ret_namex [THEN ret_mono, ret_intro]: "ret (namex path np s) (\<lambda>_ s'. keeps s s')"
  unfolding namex_def by (intro ret_intro ret_namex_loop [THEN ret_mono]) auto

lemma ret_namei [THEN ret_mono, ret_intro]: "ret (namei path s) (\<lambda>_ s'. keeps s s')"
  unfolding namei_def by (intro ret_intro) auto

lemma ret_nameiparent [THEN ret_mono, ret_intro]: "ret (nameiparent path s) (\<lambda>_ s'. keeps s s')"
  unfolding nameiparent_def by (intro ret_intro) auto

section \<open>Console, pipes, files\<close>

lemma con_res [simp]:
  "slset (s\<lparr>uart_tx_r := a\<rparr>) = slset s" "slset (s\<lparr>uart_tx_w := a\<rparr>) = slset s" "slset (s\<lparr>uart_tx_buf := b\<rparr>) = slset s"
  "slset (s\<lparr>tx_room := c\<rparr>) = slset s" "slset (s\<lparr>rx_line := d\<rparr>) = slset s" "slset (s\<lparr>cons_r := e\<rparr>) = slset s"
  "slset (s\<lparr>cons_w := e\<rparr>) = slset s" "slset (s\<lparr>cons_e := e\<rparr>) = slset s" "slset (s\<lparr>cons_buf := f\<rparr>) = slset s"
  by (simp_all add: slset_def)

lemma wt_con [simp]:
  "wt (s\<lparr>uart_tx_r := x0\<rparr>) = wt s"
  "wt (s\<lparr>uart_tx_w := x1\<rparr>) = wt s"
  "wt (s\<lparr>uart_tx_buf := x2\<rparr>) = wt s"
  "wt (s\<lparr>tx_room := x3\<rparr>) = wt s"
  "wt (s\<lparr>rx_line := x4\<rparr>) = wt s"
  "wt (s\<lparr>cons_r := x5\<rparr>) = wt s"
  "wt (s\<lparr>cons_w := x6\<rparr>) = wt s"
  "wt (s\<lparr>cons_e := x7\<rparr>) = wt s"
  "wt (s\<lparr>cons_buf := x8\<rparr>) = wt s"
  by (rule wt_cong; simp)+

lemma uart_out_res [simp]:
  "held (uart_out c s) = held s" "slset (uart_out c s) = slset s" "lg_outstanding (uart_out c s) = lg_outstanding s"
  "slset (consputc c' s) = slset s" "lg_outstanding (consputc c' s) = lg_outstanding s"
  by (simp_all add: uart_out_def consputc_def slset_def)

lemma wt_uart_out [simp]: "wt (uart_out c s) = wt s" "wt (consputc c' s) = wt s"
  by (simp_all add: uart_out_def consputc_def)

lemma ret_uartstart_loop: "ret (uartstart_loop k s) (\<lambda>_ s'. keeps s s')"
proof (induction k arbitrary: s)
  case (Suc k)
  show ?case unfolding uartstart_loop.simps by (intro ret_intro Suc.IH [THEN ret_mono]) auto
qed (simp add: ret_def)

lemma ret_uartstart [THEN ret_mono, ret_intro]: "ret (uartstart s) (\<lambda>_ s'. keeps s s')"
  unfolding uartstart_def by (rule ret_uartstart_loop)

lemma ret_uartputc [THEN ret_mono, ret_intro]: "ret (uartputc c s) (\<lambda>_ s'. keeps s s')"
  unfolding uartputc_def uartputc_body_def by (intro ret_intro) auto

lemma ret_consolewrite_loop: "ret (consolewrite_loop d k i s) (\<lambda>_ s'. keeps s s')"
proof (induction k arbitrary: i s)
  case (Suc k)
  show ?case unfolding consolewrite_loop.simps by (intro ret_intro Suc.IH [THEN ret_mono]) auto
qed (simp add: ret_def)

lemma ret_consolewrite [THEN ret_mono, ret_intro]: "ret (consolewrite d n s) (\<lambda>_ s'. keeps s s')"
  unfolding consolewrite_def by (rule ret_consolewrite_loop)

lemma ret_consoleread_loop:
  "ret (consoleread_loop tg n d s)
     (\<lambda>r s'. slset s' = slset s \<and> lg_outstanding s' = lg_outstanding s \<and> (wt s \<longrightarrow> wt s') \<and>
             held s' = (case r of None \<Rightarrow> held s - {L_cons} | Some _ \<Rightarrow> held s))"
proof (induction n arbitrary: d s)
  case (Suc n)
  show ?case unfolding consoleread_loop.simps by (intro ret_intro Suc.IH [THEN ret_mono]) (auto split: option.splits if_splits)
qed (simp add: ret_def)

lemma ret_consoleread [THEN ret_mono, ret_intro]: "ret (consoleread d n s) (\<lambda>_ s'. keeps s s')"
  unfolding consoleread_def consoleread_body_def
  by (intro ret_intro ret_consoleread_loop [THEN ret_mono]) auto

lemma ret_procdump [THEN ret_mono, ret_intro]: "ret (procdump s) (\<lambda>_ s'. keeps s s')"
  unfolding procdump_def by (intro ret_intro) auto

lemma kill_line_res [simp]:
  "held (kill_line s) = held s \<and> slset (kill_line s) = slset s \<and> lg_outstanding (kill_line s) = lg_outstanding s \<and> wt (kill_line s) = wt s"
proof (induction s rule: kill_line.induct)
  case (1 s)
  then show ?case by (subst (1 2 3 4) kill_line.simps) auto
qed

lemma ret_consoleintr [THEN ret_mono, ret_intro]: "ret (consoleintr c s) (\<lambda>_ s'. keeps s s')"
  unfolding consoleintr_def by (intro ret_intro) auto

lemma ret_uartintr_loop: "ret (uartintr_loop k s) (\<lambda>_ s'. keeps s s')"
proof (induction k arbitrary: s)
  case (Suc k)
  show ?case
  proof (cases "rx_line s")
    case Nil
    then show ?thesis by (simp add: uartgetc_def ret_def)
  next
    case (Cons c cs)
    then have "uartintr_loop (Suc k) s = bnd (consoleintr c (s\<lparr>rx_line := cs\<rparr>)) (\<lambda>_ s. uartintr_loop k s)"
      by (simp add: uartgetc_def)
    then show ?thesis by (simp only:) (intro ret_intro Suc.IH [THEN ret_mono]; auto)
  qed
qed (simp add: ret_def)

lemma ret_uartintr [THEN ret_mono, ret_intro]: "ret (uartintr s) (\<lambda>_ s'. keeps s s')"
  unfolding uartintr_def by (intro ret_intro ret_uartintr_loop [THEN ret_mono]) auto

lemma pipe_res [simp]:
  "held (upd_pipe a f s) = held s" "slset (upd_pipe a f s) = slset s" "lg_outstanding (upd_pipe a f s) = lg_outstanding s"
  by (simp_all add: upd_pipe_def slset_def)

lemma wt_upd_pipe [simp]: "wt (upd_pipe a f s) = wt s"
  unfolding upd_pipe_def by (rule wt_cong) simp_all

lemma ret_pipeclose [THEN ret_mono, ret_intro]: "ret (pipeclose a w s) (\<lambda>_ s'. keeps s s')"
  unfolding pipeclose_def by (intro ret_intro) auto

lemma ret_pipewrite_loop:
  "ret (pipewrite_loop pr a addr k i s)
     (\<lambda>_ s'. slset s' = slset s \<and> lg_outstanding s' = lg_outstanding s \<and> (wt s \<longrightarrow> wt s') \<and> held s' = held s - {L_pipe a})"
proof (induction k arbitrary: i s)
  case 0
  show ?case unfolding pipewrite_loop.simps by (intro ret_intro) auto
next
  case (Suc k)
  show ?case unfolding pipewrite_loop.simps by (intro ret_intro Suc.IH [THEN ret_mono]) auto
qed

lemma ret_pipewrite [THEN ret_mono, ret_intro]: "ret (pipewrite a addr n s) (\<lambda>_ s'. keeps s s')"
  unfolding pipewrite_def by (intro ret_intro ret_pipewrite_loop [THEN ret_mono]) auto

lemma ret_piperead_copy: "ret (piperead_copy pr a addr k i s) (\<lambda>_ s'. keeps s s')"
proof (induction k arbitrary: i s)
  case (Suc k)
  show ?case unfolding piperead_copy.simps by (intro ret_intro Suc.IH [THEN ret_mono]) auto
qed (simp add: ret_def)

lemma ret_piperead [THEN ret_mono, ret_intro]: "ret (piperead a addr n s) (\<lambda>_ s'. keeps s s')"
  unfolding piperead_def piperead_body_def by (intro ret_intro ret_piperead_copy [THEN ret_mono]) auto

lemma file_res [simp]:
  "held (upd_file a f s) = held s" "slset (upd_file a f s) = slset s" "lg_outstanding (upd_file a f s) = lg_outstanding s"
  by (simp_all add: upd_file_def slset_def)

lemma wt_upd_file [simp]: "wt (upd_file a f s) = wt s"
  unfolding upd_file_def by (rule wt_cong) simp_all

lemma ret_filealloc [THEN ret_mono, ret_intro]: "ret (filealloc s) (\<lambda>_ s'. keeps s s')"
  unfolding filealloc_def by (intro ret_intro) auto

lemma ret_filedup [THEN ret_mono, ret_intro]: "ret (filedup f s) (\<lambda>_ s'. keeps s s')"
  unfolding filedup_def by (intro ret_intro) auto

lemma ret_fileclose [THEN ret_mono, ret_intro]: "ret (fileclose f s) (\<lambda>_ s'. keeps s s')"
  unfolding fileclose_def by (intro ret_intro) auto

lemma ret_pipealloc [THEN ret_mono, ret_intro]: "ret (pipealloc s) (\<lambda>_ s'. keeps s s')"
  unfolding pipealloc_def by (intro ret_intro) auto

lemma ret_filestat [THEN ret_mono, ret_intro]: "ret (filestat pad f addr s) (\<lambda>_ s'. keeps s s')"
  unfolding filestat_def by (intro ret_intro) auto

lemma ret_fileread [THEN ret_mono, ret_intro]: "ret (fileread f addr n s) (\<lambda>_ s'. keeps s s')"
  unfolding fileread_def
  by (cases "f_type (ftable s f)") (auto split: option.splits dev_read.splits if_splits intro!: ret_intro)

lemma ret_filewrite_loop: "ret (filewrite_loop f ip addr i n s) (\<lambda>_ s'. keeps s s')"
proof (induction "n - i" arbitrary: i s rule: less_induct)
  case less
  show ?case
    by (subst filewrite_loop.simps) (intro ret_intro less [THEN ret_mono]; use write_max_pos in \<open>auto split: if_splits\<close>)
qed

lemma ret_filewrite [THEN ret_mono, ret_intro]: "ret (filewrite f addr n s) (\<lambda>_ s'. keeps s s')"
  unfolding filewrite_def
  by (cases "f_type (ftable s f)")
    (auto split: option.splits dev_write.splits intro!: ret_intro ret_filewrite_loop [THEN ret_mono])

section \<open>Processes\<close>

lemma proc_state_res [simp]:
  "slset (s\<lparr>nextpid := a\<rparr>) = slset s" "slset (s\<lparr>initproc := b\<rparr>) = slset s" "slset (s\<lparr>ticks := c\<rparr>) = slset s"
  by (simp_all add: slset_def)

lemma wt_proc_state [simp]:
  "wt (s\<lparr>nextpid := x0\<rparr>) = wt s"
  "wt (s\<lparr>initproc := x1\<rparr>) = wt s"
  "wt (s\<lparr>ticks := x2\<rparr>) = wt s"
  by (rule wt_cong; simp)+

lemma ret_allocpid [THEN ret_mono, ret_intro]: "ret (allocpid s) (\<lambda>_ s'. keeps s s')"
  unfolding allocpid_def by (intro ret_intro) auto

lemma ret_proc_pagetable [THEN ret_mono, ret_intro]: "ret (proc_pagetable p s) (\<lambda>_ s'. keeps s s')"
  unfolding proc_pagetable_def by (intro ret_intro) auto

lemma ret_proc_freepagetable [THEN ret_mono, ret_intro]: "ret (proc_freepagetable pt sz s) (\<lambda>_ s'. keeps s s')"
  unfolding proc_freepagetable_def by (intro ret_intro) auto

lemma ret_freeproc [THEN ret_mono, ret_intro]: "ret (freeproc p s) (\<lambda>_ s'. keeps s s')"
  unfolding freeproc_def by (intro ret_intro) auto

text \<open>\<open>locked_by r s s'\<close>: the call returned with the lock of the process \<open>r\<close> held, if it returned one.\<close>

abbreviation locked_by :: "nat option \<Rightarrow> 'z fs_state_scheme \<Rightarrow> 'y fs_state_scheme \<Rightarrow> bool" where
  "locked_by r s s' \<equiv> slset s' = slset s \<and> lg_outstanding s' = lg_outstanding s \<and> (wt s \<longrightarrow> wt s') \<and>
     (case r of None \<Rightarrow> held s' = held s | Some p \<Rightarrow> L_proc p \<notin> held s \<and> held s' = insert (L_proc p) (held s))"

lemma ret_allocproc_scan [THEN ret_mono, ret_intro]: "ret (allocproc_scan ps s) (\<lambda>r s'. locked_by r s s')"
proof (induction ps arbitrary: s)
  case (Cons p ps)
  show ?case unfolding allocproc_scan.simps by (intro ret_intro Cons.IH [THEN ret_mono]) (auto split: option.splits)
qed (simp add: ret_def)

lemma ret_allocproc [THEN ret_mono, ret_intro]: "ret (allocproc s) (\<lambda>r s'. locked_by r s s')"
  unfolding allocproc_def by (intro ret_intro) auto

lemma ret_growproc [THEN ret_mono, ret_intro]: "ret (growproc n s) (\<lambda>_ s'. keeps s s')"
  unfolding growproc_def by (intro ret_intro) auto

lemma length_safestrcpy: "length (safestrcpy u n) \<le> n"
proof -
  have "length (safestrcpy_loop u k) \<le> k" for k by (induction u k rule: safestrcpy_loop.induct) (auto simp: comp_def)
  from this [of "n - 1"] show ?thesis by (cases n) (simp_all add: safestrcpy_def)
qed

lemma length_set_name [simp]: "length (p_name q) = 16 \<Longrightarrow> length (p_name (set_name bs q)) = 16"
  using length_safestrcpy [of "lview bs" 16] by (simp add: set_name_def)

lemma ret_fork_file: "ret (fork_file p np i s) (\<lambda>_ s'. keeps s s')"
  unfolding fork_file_def by (intro ret_intro) auto

lemma ret_fork [THEN ret_mono, ret_intro]: "ret (fork s) (\<lambda>_ s'. keeps s s')"
  unfolding fork_def by (intro ret_intro ret_fork_file) auto

lemma ret_any: "(\<And>a s. Q a s) \<Longrightarrow> ret m Q"
  by (simp add: ret_def)

lemma ret_exit [ret_intro]: "(\<And>s'. Q () s') \<Longrightarrow> ret (exit st s) Q"
  by (rule ret_any) simp

lemma ret_wait_scan [THEN ret_mono, ret_intro]:
  "ret (wait_scan p addr ps hk s)
     (\<lambda>r s'. slset s' = slset s \<and> lg_outstanding s' = lg_outstanding s \<and> (wt s \<longrightarrow> wt s') \<and>
             held s' = (case r of Inl _ \<Rightarrow> held s - {L_wait} | Inr _ \<Rightarrow> held s))"
proof (induction ps arbitrary: hk s)
  case (Cons p ps)
  show ?case unfolding wait_scan.simps
    by (intro ret_intro Cons.IH [THEN ret_mono]) (auto split: sum.splits)
qed (simp add: ret_def)

lemma ret_wait [THEN ret_mono, ret_intro]: "ret (wait addr s) (\<lambda>_ s'. keeps s s')"
  unfolding wait_def wait_body_def by (intro ret_intro) (auto split: sum.splits)

section \<open>exec\<close>

lemma ret_print_pagetable: "ret (print_pagetable lv pt level s) (\<lambda>_ s'. keeps s s')"
proof (induction lv arbitrary: pt level s)
  case (Suc lv)
  show ?case unfolding print_pagetable.simps print_leaf_def by (intro ret_intro Suc.IH [THEN ret_mono]) auto
qed (simp add: ret_def)

lemma ret_vmprint [THEN ret_mono, ret_intro]: "ret (vmprint pt s) (\<lambda>_ s'. keeps s s')"
  unfolding vmprint_def by (intro ret_intro ret_print_pagetable [THEN ret_mono]) auto

lemma ret_loadseg [THEN ret_mono, ret_intro]: "ret (loadseg pt va ip off sz s) (\<lambda>_ s'. keeps s s')"
proof -
  have "ret (loadseg_loop pt va ip off n is s) (\<lambda>_ s'. keeps s s')" for n "is"
  proof (induction "is" arbitrary: s)
    case (Cons i "is")
    show ?case unfolding loadseg_loop.simps by (intro ret_intro Cons.IH [THEN ret_mono]) auto
  qed (simp add: ret_def)
  then show ?thesis unfolding loadseg_def .
qed

lemma ret_exec_segs [THEN ret_mono, ret_intro]: "ret (exec_segs pt ip k off sz s) (\<lambda>_ s'. keeps s s')"
proof (induction k arbitrary: off sz s)
  case (Suc k)
  show ?case unfolding exec_segs.simps by (intro ret_intro Suc.IH [THEN ret_mono]) auto
qed (simp add: ret_def)

lemma ret_exec_load [THEN ret_mono, ret_intro]: "ret (exec_load p ip s) (\<lambda>_ s'. keeps s s')"
  unfolding exec_load_def by (intro ret_intro) auto

lemma ret_exec_push [THEN ret_mono, ret_intro]: "ret (exec_push pt sb' argv sp us s) (\<lambda>_ s'. keeps s s')"
proof (induction argv arbitrary: sp us s)
  case (Cons a argv)
  show ?case unfolding exec_push.simps by (intro ret_intro Cons.IH [THEN ret_mono]) auto
qed (simp add: ret_def)

lemma ret_exec_stack [THEN ret_mono, ret_intro]: "ret (exec_stack pt sz argv s) (\<lambda>_ s'. keeps s s')"
  unfolding exec_stack_def by (intro ret_intro) auto

lemma ret_exec_commit [THEN ret_mono, ret_intro]: "ret (exec_commit p path pt sz e sp s) (\<lambda>_ s'. keeps s s')"
  unfolding exec_commit_def by (intro ret_intro) auto

lemma ret_exec [THEN ret_mono, ret_intro]: "ret (exec path argv s) (\<lambda>_ s'. keeps s s')"
  unfolding exec_def exec_bad_def by (intro ret_intro) auto

section \<open>System calls\<close>

lemma ret_fetchaddr [THEN ret_mono, ret_intro]: "ret (fetchaddr addr s) (\<lambda>_ s'. keeps s s')"
  unfolding fetchaddr_def by (intro ret_intro) auto

lemma ret_fetchstr [THEN ret_mono, ret_intro]: "ret (fetchstr addr mx s) (\<lambda>_ s'. keeps s s')"
  unfolding fetchstr_def by (intro ret_intro) auto

lemma ret_argraw: "ret (argraw n s) (\<lambda>_ s'. keeps s s')"
  unfolding argraw_def by (intro ret_intro) auto

lemma ret_argint [THEN ret_mono, ret_intro]: "ret (argint n s) (\<lambda>_ s'. keeps s s')"
  unfolding argint_def by (intro ret_intro ret_argraw [THEN ret_mono]) auto

lemma ret_argaddr [THEN ret_mono, ret_intro]: "ret (argaddr n s) (\<lambda>_ s'. keeps s s')"
  unfolding argaddr_def by (rule ret_argraw)

lemma ret_argstr [THEN ret_mono, ret_intro]: "ret (argstr n mx s) (\<lambda>_ s'. keeps s s')"
  unfolding argstr_def by (intro ret_intro) auto

lemma ret_argfd [THEN ret_mono, ret_intro]: "ret (argfd n s) (\<lambda>_ s'. keeps s s')"
  unfolding argfd_def by (intro ret_intro) auto

lemma ret_fdalloc [THEN ret_mono, ret_intro]: "ret (fdalloc f s) (\<lambda>_ s'. keeps s s')"
  unfolding fdalloc_def set_ofile_def by (intro ret_intro) auto

lemma set_ofile_res [simp]:
  "held (set_ofile p fd f s) = held s" "slset (set_ofile p fd f s) = slset s" "lg_outstanding (set_ofile p fd f s) = lg_outstanding s"
  by (simp_all add: set_ofile_def)

lemma wt_set_ofile [simp]: "wt s \<Longrightarrow> wt (set_ofile p fd f s)"
  by (simp add: set_ofile_def)

lemma add_nlink_res [simp]:
  "held (add_nlink ip d s) = held s" "slset (add_nlink ip d s) = slset s" "lg_outstanding (add_nlink ip d s) = lg_outstanding s"
  by (simp_all add: add_nlink_def)

lemma wt_add_nlink [simp]: "wt s \<Longrightarrow> wt (add_nlink ip d s)"
  by (simp add: add_nlink_def)

lemma ret_sys_proc:
  "ret (sys_getpid s) (\<lambda>_ s'. keeps s s')" "ret (sys_fork s) (\<lambda>_ s'. keeps s s')" "ret (sys_wait s) (\<lambda>_ s'. keeps s s')"
  "ret (sys_sbrk s) (\<lambda>_ s'. keeps s s')" "ret (sys_sleep s) (\<lambda>_ s'. keeps s s')" "ret (sys_kill s) (\<lambda>_ s'. keeps s s')"
  "ret (sys_uptime s) (\<lambda>_ s'. keeps s s')"
  unfolding sys_getpid_def sys_fork_def sys_wait_def sys_sbrk_def sys_sleep_def sys_sleep_body_def sys_kill_def sys_uptime_def
  by (intro ret_intro; auto)+

lemma ret_sys_fd:
  "ret (sys_dup s) (\<lambda>_ s'. keeps s s')" "ret (sys_read s) (\<lambda>_ s'. keeps s s')" "ret (sys_write s) (\<lambda>_ s'. keeps s s')"
  "ret (sys_close s) (\<lambda>_ s'. keeps s s')" "ret (sys_fstat pad s) (\<lambda>_ s'. keeps s s')"
  unfolding sys_dup_def sys_read_def sys_write_def sys_close_def sys_fstat_def
  by (intro ret_intro; auto)+

lemma ret_op_fails [THEN ret_mono, ret_intro]:
  "ret (op_fails s) (\<lambda>_ s'. held s' = held s \<and> slset s' = slset s \<and> lg_outstanding s' = lg_outstanding s - 1 \<and> (wt s \<longrightarrow> wt s'))"
  unfolding op_fails_def by (intro ret_intro) auto

lemma ret_sys_link: "ret (sys_link s) (\<lambda>_ s'. keeps s s')"
  unfolding sys_link_def sys_link_bad_def by (intro ret_intro) auto

lemma ret_isdirempty [THEN ret_mono, ret_intro]: "ret (isdirempty dp s) (\<lambda>_ s'. keeps s s')"
proof -
  have "ret (isdirempty_loop dp offs s) (\<lambda>_ s'. keeps s s')" for offs
  proof (induction offs arbitrary: s)
    case (Cons o' offs)
    show ?case unfolding isdirempty_loop.simps by (intro ret_intro Cons.IH [THEN ret_mono]) auto
  qed (simp add: ret_def)
  then show ?thesis unfolding isdirempty_def .
qed

lemma ret_sys_unlink: "ret (sys_unlink s) (\<lambda>_ s'. keeps s s')"
  unfolding sys_unlink_def by (intro ret_intro) auto

text \<open>\<open>inode_locked r s s'\<close>: the call returned with the inode \<open>r\<close> locked, if it returned one.\<close>

abbreviation inode_locked :: "nat option \<Rightarrow> 'z fs_state_scheme \<Rightarrow> 'y fs_state_scheme \<Rightarrow> bool" where
  "inode_locked r s s' \<equiv> held s' = held s \<and> lg_outstanding s' = lg_outstanding s \<and> (wt s \<longrightarrow> wt s') \<and>
     (case r of None \<Rightarrow> slset s' = slset s | Some ip \<Rightarrow> SL_inode ip \<notin> slset s \<and> slset s' = insert (SL_inode ip) (slset s))"

lemma ret_create [THEN ret_mono, ret_intro]: "ret (create path ty ma mi s) (\<lambda>r s'. inode_locked r s s')"
  unfolding create_def create_fail_def by (intro ret_intro) auto

lemma ret_open_inode [THEN ret_mono, ret_intro]: "ret (open_inode path om s) (\<lambda>r s'. inode_locked r s s')"
  unfolding open_inode_def by (intro ret_intro) auto

lemma ret_sys_open: "ret (sys_open s) (\<lambda>_ s'. keeps s s')"
  unfolding sys_open_def by (intro ret_intro) auto

lemma ret_sys_dir:
  "ret (sys_mkdir s) (\<lambda>_ s'. keeps s s')" "ret (sys_mknod s) (\<lambda>_ s'. keeps s s')" "ret (sys_chdir s) (\<lambda>_ s'. keeps s s')"
  unfolding sys_mkdir_def sys_mknod_def sys_chdir_def
  by (intro ret_intro; auto)+

lemma ret_sys_exec_args [THEN ret_mono, ret_intro]: "ret (sys_exec_args k ua i argv s) (\<lambda>_ s'. keeps s s')"
proof (induction k arbitrary: i argv s)
  case (Suc k)
  show ?case unfolding sys_exec_args.simps by (intro ret_intro Suc.IH [THEN ret_mono]) auto
qed (simp add: ret_def)

lemma ret_sys_exec: "ret (sys_exec s) (\<lambda>_ s'. keeps s s')"
  unfolding sys_exec_def by (intro ret_intro) auto

lemma ret_sys_pipe: "ret (sys_pipe s) (\<lambda>_ s'. keeps s s')"
  unfolding sys_pipe_def close_both_def by (intro ret_intro) auto

lemma ret_sys_nanotime: "ret (sys_nanotime s) (\<lambda>_ s'. keeps s s')"
  unfolding sys_nanotime_def by (intro ret_intro) auto

lemmas ret_sys = ret_sys_proc ret_sys_fd ret_sys_link ret_sys_unlink ret_sys_open ret_sys_dir ret_sys_exec ret_sys_pipe
  ret_sys_nanotime

lemma ret_returning:
  assumes "\<And>s. ret (g s) (\<lambda>_ s'. keeps s s')" "returning g = Some f"
  shows "ret (f s) (\<lambda>r s'. r \<noteq> None \<longrightarrow> keeps s s')"
proof -
  have "f = (\<lambda>s. bnd (g s) (\<lambda>v s. Ret (Some v) s))" using assms(2) by (simp add: returning_def)
  then show ?thesis by (simp only:) (intro ret_intro assms(1) [THEN ret_mono]; simp)
qed

lemma if_SomeE: "(if c then a else b) = Some f \<Longrightarrow> (a = Some f \<Longrightarrow> P) \<Longrightarrow> (b = Some f \<Longrightarrow> P) \<Longrightarrow> P"
  by (auto split: if_splits)

lemma ret_sys_exit: "Some (\<lambda>s. bnd (sys_exit s) (\<lambda>_ s. Ret None s)) = Some f \<Longrightarrow> ret (f s) (\<lambda>r s'. r \<noteq> None \<longrightarrow> keeps s s')"
  by (auto simp: ret_def bnd_eq_Ret)

lemma ret_syscalls: "syscalls pad num = Some f \<Longrightarrow> ret (f s) (\<lambda>r s'. r \<noteq> None \<longrightarrow> keeps s s')"
  unfolding syscalls_def
  by (elim if_SomeE) ((erule ret_returning [rotated], rule ret_sys) | erule ret_sys_exit | simp)+

lemma set_a0_res [simp]:
  "held (set_a0 p v s) = held s" "slset (set_a0 p v s) = slset s" "lg_outstanding (set_a0 p v s) = lg_outstanding s"
  by (simp_all add: set_a0_def)

lemma wt_set_a0 [simp]: "wt s \<Longrightarrow> wt (set_a0 p v s)"
  by (simp add: set_a0_def)

lemma ret_syscall [THEN ret_mono, ret_intro]: "ret (syscall pad s) (\<lambda>r s'. r \<longrightarrow> keeps s s')"
proof -
  have step: "ret (f s) (\<lambda>r s. ret (case r of Some v \<Rightarrow> Ret True (set_a0 p v s) | None \<Rightarrow> Ret False s) (\<lambda>r s'. r \<longrightarrow> keeps s0 s'))"
    if "(if sint num > 0 then syscalls pad (sint num) else None) = Some f" "keeps s0 s" for f p s s0 and num :: cint
    using that ret_syscalls [of pad "sint num" f s]
    by (auto simp: ret_def split: option.splits if_splits)
  show ?thesis unfolding syscall_def by (intro ret_intro) ((erule step, simp) | simp)+
qed

section \<open>Traps\<close>

lemma trap_res [simp]:
  "slset (s\<lparr>sstatus := a\<rparr>) = slset s" "slset (s\<lparr>sepc := a\<rparr>) = slset s" "slset (s\<lparr>stvec := a\<rparr>) = slset s"
  "slset (s\<lparr>sip := a\<rparr>) = slset s" "slset (s\<lparr>plic_irqs := b\<rparr>) = slset s" "slset (s\<lparr>plic_regs := c\<rparr>) = slset s"
  by (simp_all add: slset_def)

lemma wt_trap [simp]:
  "wt (s\<lparr>sstatus := x0\<rparr>) = wt s"
  "wt (s\<lparr>sepc := x1\<rparr>) = wt s"
  "wt (s\<lparr>stvec := x2\<rparr>) = wt s"
  "wt (s\<lparr>sip := x3\<rparr>) = wt s"
  "wt (s\<lparr>plic_irqs := x4\<rparr>) = wt s"
  "wt (s\<lparr>plic_regs := x5\<rparr>) = wt s"
  by (rule wt_cong; simp)+

lemma vdisk_res [simp]:
  "slset (s\<lparr>vd_regs := d\<rparr>) = slset s" "slset (s\<lparr>vd_used_idx := e\<rparr>) = slset s"
  by (simp_all add: slset_def)

lemma wt_vdisk [simp]:
  "wt (s\<lparr>vd_regs := x0\<rparr>) = wt s"
  "wt (s\<lparr>vd_used_idx := x1\<rparr>) = wt s"
  by (rule wt_cong; simp)+

lemma ret_clockintr [THEN ret_mono, ret_intro]: "ret (clockintr s) (\<lambda>_ s'. keeps s s')"
  unfolding clockintr_def by (intro ret_intro) auto

lemma ret_vd_intr_loop [THEN ret_mono, ret_intro]: "ret (vd_intr_loop n s) (\<lambda>_ s'. keeps s s')"
proof (induction n arbitrary: s)
  case (Suc n)
  show ?case unfolding vd_intr_loop.simps by (intro ret_intro Suc.IH [THEN ret_mono]) auto
qed (simp add: ret_def)

lemma ret_virtio_disk_intr [THEN ret_mono, ret_intro]: "ret (virtio_disk_intr v s) (\<lambda>_ s'. keeps s s')"
  unfolding virtio_disk_intr_def by (intro ret_intro) auto

lemma plic_claim_res: "plic_claim s = (irq, s1) \<Longrightarrow> keeps s s1"
  by (auto simp: plic_claim_def split: list.splits)

lemma plic_complete_res [simp]:
  "held (plic_complete irq s) = held s" "slset (plic_complete irq s) = slset s" "lg_outstanding (plic_complete irq s) = lg_outstanding s"
  by (simp_all add: plic_complete_def plic_write_def)

lemma wt_plic_complete [simp]: "wt (plic_complete irq s) = wt s"
  by (simp add: plic_complete_def plic_write_def)

lemma ret_devintr [THEN ret_mono, ret_intro]: "ret (devintr s) (\<lambda>_ s'. keeps s s')"
  unfolding devintr_def by (intro ret_intro) (auto dest!: plic_claim_res)

lemma ret_yield_out [ret_intro]: "(\<And>s'. Q () s') \<Longrightarrow> ret (yield_out s) Q"
  by (rule ret_any) simp

text \<open>The state in which \<^verbatim>\<open>usertrapret\<close> jumps to user space.\<close>

abbreviation user_ready :: "'z trap_state_scheme \<Rightarrow> bool" where
  "user_ready s \<equiv> sstatus s AND SSTATUS_SPP = 0 \<and> sstatus s AND SSTATUS_SIE = 0 \<and> sstatus s AND SSTATUS_SPIE \<noteq> 0 \<and>
     stvec s = TRAMPOLINE + (uservec_pc s - trampoline_pa s)"

lemma sstatus_bit:
  "bit SSTATUS_SPP n \<longleftrightarrow> n = 8" "bit SSTATUS_SIE n \<longleftrightarrow> n = 1" "bit SSTATUS_SPIE n \<longleftrightarrow> n = 5"
  unfolding SSTATUS_SPP_def SSTATUS_SIE_def SSTATUS_SPIE_def bit_push_bit_iff by (auto simp: bit_1_iff)

lemma SPIE_ne: "SSTATUS_SPIE \<noteq> 0"
  by (simp add: SSTATUS_SPIE_def)

lemma sret_bits:
  "((x AND NOT SSTATUS_SIE) AND NOT SSTATUS_SPP OR SSTATUS_SPIE) AND SSTATUS_SPP = 0"
  "((x AND NOT SSTATUS_SIE) AND NOT SSTATUS_SPP OR SSTATUS_SPIE) AND SSTATUS_SIE = 0"
  "((x AND NOT SSTATUS_SIE) AND NOT SSTATUS_SPP OR SSTATUS_SPIE) AND SSTATUS_SPIE \<noteq> 0"
proof -
  show "((x AND NOT SSTATUS_SIE) AND NOT SSTATUS_SPP OR SSTATUS_SPIE) AND SSTATUS_SPP = 0"
    "((x AND NOT SSTATUS_SIE) AND NOT SSTATUS_SPP OR SSTATUS_SPIE) AND SSTATUS_SIE = 0"
    by (rule bit_word_eqI; auto simp: bit_and_iff bit_or_iff bit_not_iff sstatus_bit)+
  have "bit (((x AND NOT SSTATUS_SIE) AND NOT SSTATUS_SPP OR SSTATUS_SPIE) AND SSTATUS_SPIE) 5"
    by (simp add: bit_and_iff bit_or_iff sstatus_bit)
  then show "((x AND NOT SSTATUS_SIE) AND NOT SSTATUS_SPP OR SSTATUS_SPIE) AND SSTATUS_SPIE \<noteq> 0" by fastforce
qed

lemma ret_usertrapret [THEN ret_mono, ret_intro]:
  "ret (usertrapret s) (\<lambda>r s'. keeps s s' \<and> user_ready s' \<and>
     (\<exists>p. curproc s = Some p \<and> r = To_user (MAKE_SATP (p_pagetable (procs s p))) \<and> sepc s' = tf_epc (p_tf (procs s p))))"
  unfolding usertrapret_def by (intro ret_intro) (auto simp: sret_bits upd_proc_def SPIE_ne)

lemma ret_usertrap_body [THEN ret_mono, ret_intro]: "ret (usertrap_body pad p s) (\<lambda>r s'. fst r \<longrightarrow> keeps s s')"
  unfolding usertrap_body_def by (intro ret_intro) auto

text \<open>C3. When a system call returns to the trap handler it has released every spin lock and every sleep lock it took and
  ended every file system operation it began, on every path through the kernel on which the process does not have to sleep, error paths
  included.\<close>

theorem syscall_releases_all:
  assumes "syscall pad s = Ret True s'"
  shows "held s' = held s \<and> slset s' = slset s \<and> lg_outstanding s' = lg_outstanding s"
proof -
  have "ret (syscall pad s) (\<lambda>r s'. r \<longrightarrow> keeps s s')" by (intro ret_intro)
  from retD [OF this assms] show ?thesis by simp
qed



end
