(* ===== verification/Example.thy ===== *)
theory Example
  imports Discipline
begin

text \<open>
  A concrete machine, on which the properties of the whole kernel and those that need user memory are shown to apply: a three-level page
  table that maps one user page, one running process, an empty block cache, an empty pipe and an idle console.
\<close>

section \<open>A user page\<close>

text \<open>Root 0x80001000, middle 0x80002000, last level 0x80003000; address 0x1000 is the page 0x80004000, which starts with ``hi''.\<close>

definition user_tables :: memory where
  "user_tables =
     st64 (st64 (st64 (\<lambda>_. 0) (ent 0x80001000 0) (PA2PTE 0x80002000 OR PTE_V)) (ent 0x80002000 0) (PA2PTE 0x80003000 OR PTE_V))
       (ent 0x80003000 1) (PA2PTE 0x80004000 OR (PTE_R OR PTE_W OR PTE_U) OR PTE_V)"

definition user_mem :: memory where
  "user_mem = user_tables(0x80004000 := 104, 0x80004001 := 105)"

lemma user_entries:
  assumes "i < 512"
  shows "ld64 user_mem (ent 0x80001000 i) = (if i = 0 then PA2PTE 0x80002000 OR PTE_V else 0)"
    "ld64 user_mem (ent 0x80002000 i) = (if i = 0 then PA2PTE 0x80003000 OR PTE_V else 0)"
    "ld64 user_mem (ent 0x80003000 i) = (if i = 1 then PA2PTE 0x80004000 OR (PTE_R OR PTE_W OR PTE_U) OR PTE_V else 0)"
proof -
  have pg: "PGROUNDDOWN 0x80001000 = 0x80001000" "PGROUNDDOWN 0x80002000 = 0x80002000" "PGROUNDDOWN 0x80003000 = 0x80003000"
    "PGROUNDDOWN 0x80004000 = 0x80004000" "PGROUNDDOWN 0x80004001 = 0x80004000" by (simp_all add: PGROUNDDOWN_def)
  have mem: "user_mem a = user_tables a" if "PGROUNDDOWN a \<noteq> 0x80004000" for a using that pg by (auto simp: user_mem_def)
  have zero: "ld64 (\<lambda>_. 0) (ent p i) = 0" if "PGROUNDDOWN p = p" for p by (rule zero_page [OF that assms]) simp
  have tab: "ld64 user_mem (ent p i) = ld64 user_tables (ent p i)" if "PGROUNDDOWN p = p" "p \<noteq> 0x80004000" for p
    using that mem by (intro ld64_page [OF that(1) assms]) auto
  note st = ld64_st64_ent [OF _ _ _ assms]
  show "ld64 user_mem (ent 0x80001000 i) = (if i = 0 then PA2PTE 0x80002000 OR PTE_V else 0)"
    "ld64 user_mem (ent 0x80002000 i) = (if i = 0 then PA2PTE 0x80003000 OR PTE_V else 0)"
    "ld64 user_mem (ent 0x80003000 i) = (if i = 1 then PA2PTE 0x80004000 OR (PTE_R OR PTE_W OR PTE_U) OR PTE_V else 0)"
    by (auto simp: tab pg st zero user_tables_def)
qed

lemma user_pte: "PTE2PA (PA2PTE 0x80002000 OR PTE_V) = 0x80002000" "PTE2PA (PA2PTE 0x80003000 OR PTE_V) = 0x80003000"
  "PTE2PA (PA2PTE 0x80004000 OR (PTE_R OR PTE_W OR PTE_U) OR PTE_V) = 0x80004000"
  "(PA2PTE 0x80004000 OR (PTE_R OR PTE_W OR PTE_U) OR PTE_V) AND PTE_U \<noteq> 0"
  by (simp_all add: PTE2PA_def PA2PTE_def PTE_V_def PTE_R_def PTE_W_def PTE_U_def)

lemma user_leaf:
  "lookup 2 user_mem 0x80001000 va = (if pxi 2 va = 0 \<and> pxi 1 va = 0 \<and> pxi 0 va = 1
     then Some (PA2PTE 0x80004000 OR (PTE_R OR PTE_W OR PTE_U) OR PTE_V) else None)"
  by (simp add: lookup_def numeral_2_eq_2 Let_def user_entries user_pte)

lemma user_tree: "ptree 2 user_mem 0x80001000 {0x80001000, 0x80002000, 0x80003000}"
proof -
  have pg: "PGROUNDDOWN 0x80001000 = 0x80001000" "PGROUNDDOWN 0x80002000 = 0x80002000" "PGROUNDDOWN 0x80003000 = 0x80003000"
    by (simp_all add: PGROUNDDOWN_def)
  have U: "(\<Union>i < 512. if i = (0::nat) then A else {}) = A" for A :: "uint64 set" by (auto split: if_splits)
  have 0: "ptree 0 user_mem 0x80003000 {0x80003000}" using pg by simp
  have 1: "ptree 1 user_mem 0x80002000 {0x80002000, 0x80003000}" unfolding One_nat_def
    by (rule ptree_SucI [where T = "\<lambda>i. if i = 0 then {0x80003000} else {}"]) (use 0 pg U in \<open>auto simp: user_entries user_pte\<close>)
  show ?thesis unfolding numeral_2_eq_2
    by (rule ptree_SucI [where T = "\<lambda>i. if i = 0 then {0x80002000, 0x80003000} else {}"])
       (use 1 pg U in \<open>auto simp: user_entries user_pte\<close>)
qed

lemma user_mem_ok:
  assumes "mem s = user_mem" "freelist s = 0" "0 < kend s" "L_kmem \<notin> held s"
  shows "uvm_ok 0x80001000 {0x80001000, 0x80002000, 0x80003000} s"
proof -
  have k: "kfl s []" using assms(2) by (simp add: kfl_def)
  have "pt_ok 0x80001000 {0x80001000, 0x80002000, 0x80003000} s"
    using k assms user_tree by (auto simp: pt_ok_def kmem_inv_def free_pages_kfl [OF k])
  moreover have "PGROUNDDOWN va = PGROUNDDOWN va'" if "upage s 0x80001000 va pa" "upage s 0x80001000 va' pa" for va va' pa
  proof -
    have "same_path 2 va va'" using that unfolding upage_def assms(1) user_leaf same_path_def
      by (auto split: if_splits simp: le_Suc_eq numeral_2_eq_2)
    then show ?thesis using that same_path_page by (auto simp: upage_def)
  qed
  ultimately show ?thesis unfolding uvm_ok_def
    by (auto simp: upage_def assms(1) user_leaf user_pte free_pages_kfl [OF k] split: if_splits)
qed

lemma user_bytes:
  assumes "mem s = user_mem"
  shows "umem s 0x80001000 0x1000 = Some 104" "umem s 0x80001000 0x1001 = Some 105" "umem s 0x80001000 0x2000 = None"
proof -
  have "pxi 2 0x1000 = 0" "pxi 1 0x1000 = 0" "pxi 0 0x1000 = 1" "pxi 2 0x1001 = 0" "pxi 1 0x1001 = 0" "pxi 0 0x1001 = 1" "pxi 0 0x2000 = 2"
    by (simp_all add: pxi_def PX_def PXSHIFT_def)
  then have "uaddr s 0x80001000 0x1000 = Some 0x80004000" "uaddr s 0x80001000 0x1001 = Some 0x80004001" "uaddr s 0x80001000 0x2000 = None"
    by (simp_all add: uaddr_def assms user_leaf user_pte MAXVA_def) (simp_all add: PGROUNDDOWN_def)
  moreover have "user_mem 0x80004000 = 104" "user_mem 0x80004001 = 105" by (simp_all add: user_mem_def)
  ultimately show "umem s 0x80001000 0x1000 = Some 104" "umem s 0x80001000 0x1001 = Some 105" "umem s 0x80001000 0x2000 = None"
    by (simp_all add: umem_def assms)
qed

section \<open>A machine\<close>

text \<open>
  A machine with one running process, an empty block cache and no open file: process 0, pid 1, is about to make system call
  \<open>num\<close>.
\<close>

definition zero_sb :: superblock where
  "zero_sb = \<lparr>sb_magic = 0, sb_size = 0, sb_nblocks = 0, sb_ninodes = 0, sb_nlog = 0, sb_logstart = 0, sb_inodestart = 0, sb_bmapstart = 0\<rparr>"

definition zero_inode :: inode where
  "zero_inode = \<lparr>i_dev = 0, i_inum = 0, i_ref = 0, i_valid = False, i_type = 0, i_major = 0, i_minor = 0, i_nlink = 0, i_size = 0,
     i_addrs = replicate 13 0\<rparr>"

definition zero_file :: struct_file where
  "zero_file = \<lparr>f_type = FD_NONE, f_ref = 0, f_readable = False, f_writable = False, f_pipe = 0, f_ip = 0, f_off = 0, f_major = 0\<rparr>"

definition machine :: "uint64 \<Rightarrow> trap_state" where
  "machine num = \<lparr>
     held = {}, procs = (\<lambda>_. zero_proc)(0 := zero_proc\<lparr>p_state := RUNNING, p_pid := 1, p_pagetable := 0x80001000, p_tf := zero_tf\<lparr>tf_a7 := num\<rparr>\<rparr>),
     curproc = Some 0, consout = [], mem = user_mem, freelist = 0, kend = 0x80006000,
     slocks = (\<lambda>_. \<lparr>sl_locked = False, sl_name = [], sl_pid = 0\<rparr>),
     bufs = (\<lambda>_. \<lparr>b_valid = False, b_disk = False, b_dev = 0, b_blockno = 0, b_refcnt = 0, b_data = replicate 1024 0\<rparr>),
     bprev = (\<lambda>_. Head), bnext = (\<lambda>_. Head), dinit = (\<lambda>_. replicate 1024 0), dsize = 0, dwrites = [],
     lg_start = 0, lg_size = 0, lg_outstanding = 0, lg_committing = False, lg_dev = 0, lg_n = 0, lg_block = (\<lambda>_. 0),
     sb = zero_sb, itable = (\<lambda>_. zero_inode),
     cons_buf = (\<lambda>_. 0), cons_r = 0, cons_w = 0, cons_e = 0, uart_tx_buf = (\<lambda>_. 0), uart_tx_w = 0, uart_tx_r = 0, tx_room = 1,
     rx_line = [], uart_regs = [], devsw = (\<lambda>_. (None, None)),
     pipes = (\<lambda>_. \<lparr>pi_data = (\<lambda>_. 0), pi_nread = 0, pi_nwrite = 0, pi_readopen = False, pi_writeopen = False\<rparr>),
     ftable = (\<lambda>_. zero_file),
     initproc = Some 0, nextpid = 2, ticks = 7, trampoline_pa = 0x80007000, forkret_pc = 0x80001000,
     vd_desc = (\<lambda>_. \<lparr>vq_addr = Dma_null, vq_len = 0, vq_flags = 0, vq_next = 0\<rparr>), vd_avail_ring = (\<lambda>_. 0), vd_avail_idx = 0,
     vd_used_ring = (\<lambda>_. 0), vd_used_dev_idx = 0, vd_free = (\<lambda>_. True), vd_used_idx = 0, vd_info_b = (\<lambda>_. None),
     vd_info_status = (\<lambda>_. 0), vd_ops = (\<lambda>_. \<lparr>rq_type = 0, rq_reserved = 0, rq_sector = 0\<rparr>), vd_regs = [],
     sstatus = 0, sepc = 0x100, scause = 8, stval = 0, stvec = 0, satp = 0, sip = 0, hartid = 0, kernelvec_pc = 0x80005000,
     uservec_pc = 0x80007000, userret_pc = 0x80007090, usertrap_pc = 0x80002000, goldfish = 0, vd_int_status = 0, plic_irqs = [],
     plic_regs = [], fs_first = False, kernel_pagetable = 0\<rparr>"

text \<open>System call 14, \<^verbatim>\<open>uptime\<close>, takes and releases \<^verbatim>\<open>tickslock\<close>.\<close>

lemma machine_uptime: "syscall [] (machine 14) = Ret True (set_a0 0 7 (machine 14))"
  by (simp add: syscall_def syscalls_def returning_def sys_uptime_def machine_def zero_tf_def zero_proc_def set_a0_def upd_proc_def)

theorem syscall_releases_all_witness:
  "syscall [] (machine 14) = Ret True (set_a0 0 7 (machine 14)) \<and> held (set_a0 0 7 (machine 14)) = held (machine 14)"
  using syscall_releases_all [OF machine_uptime] machine_uptime by simp

definition machine' :: trap_state where
  "machine' = (case usertrap [] (machine 14) of Ret _ s \<Rightarrow> s | _ \<Rightarrow> machine 14)"

lemma machine_usertrap: "usertrap [] (machine 14) = Ret (To_user (MAKE_SATP 0x80001000)) machine'"
  by (simp add: machine'_def usertrap_def usertrap_body_def usertrapret_def syscall_def syscalls_def returning_def sys_uptime_def machine_def
      zero_tf_def zero_proc_def set_a0_def upd_proc_def)


lemma machine_wt: "wt (machine n)"
  by (simp add: wt_def machine_def disk_def zero_proc_def zero_inode_def NDIRECT_def BSIZE_def)


section \<open>Pipes and the console\<close>

text \<open>Process 0 holds both ends of an empty pipe at 0x80005000.\<close>

definition piped :: trap_state where
  "piped = (machine 4)\<lparr>pipes := (pipes (machine 4))(0x80005000 := \<lparr>pi_data = (\<lambda>_. 0), pi_nread = 0, pi_nwrite = 0, pi_readopen = True, pi_writeopen = True\<rparr>)\<rparr>"

definition piped2 :: trap_state where
  "piped2 = (machine 4)\<lparr>pipes := (pipes (machine 4))(0x80005000 := \<lparr>pi_data = (\<lambda>_. 0)(511 := 7, 0 := 8), pi_nread = 511, pi_nwrite = 513,
     pi_readopen = True, pi_writeopen = True\<rparr>)\<rparr>"

lemma machine_simps [simp]:
  "curproc (machine n) = Some 0" "held (machine n) = {}" "mem (machine n) = user_mem" "freelist (machine n) = 0" "kend (machine n) = 0x80006000"
  "p_pagetable (procs (machine n) 0) = 0x80001000" "\<not> p_killed (procs (machine n) 0)"
  by (simp_all add: machine_def zero_proc_def)

lemma piped_simps [simp]:
  "curproc piped = Some 0" "held piped = {}" "procs piped = procs (machine 4)" "mem piped = user_mem" "freelist piped = 0" "kend piped = 0x80006000"
  "curproc piped2 = Some 0" "held piped2 = {}" "procs piped2 = procs (machine 4)" "mem piped2 = user_mem" "freelist piped2 = 0" "kend piped2 = 0x80006000"
  by (simp_all add: piped_def piped2_def)

lemma piped_pipe: "pipe_ok (pipes piped 0x80005000)" "pi_readopen (pipes piped 0x80005000)" "pipe_queue (pipes piped 0x80005000) = []"
  "pipe_ok (pipes piped2 0x80005000)" "pipe_queue (pipes piped2 0x80005000) = [7, 8]"
  by (simp_all add: piped_def piped2_def pipe_ok_def pipe_queue_def ring_queue_def PIPESIZE_def upt_rec [of _ 2])

theorem pipewrite_appends_witness:
  "\<exists>t. pipewrite 0x80005000 0x1000 2 piped = Ret 2 t \<and> pipe_queue (pipes t 0x80005000) = [104, 105]"
proof -
  have s: "curproc piped = Some 0" "held piped = {}"
    "uvm_ok (p_pagetable (procs piped 0)) {0x80001000, 0x80002000, 0x80003000} piped" "\<not> p_killed (procs piped 0)"
    using user_mem_ok [of piped] by simp_all
  obtain bs q where b: "pipe_queue q = bs" "length bs \<le> 2"
    "\<forall>j < length bs. umem piped 0x80001000 (0x1000 + of_nat j) = Some (bs ! j)"
    "pipewrite 0x80005000 0x1000 2 piped = Ret (of_nat (length bs)) (pipe_now 0x80005000 q (Ch_pipe_nread 0x80005000) piped)"
    "length bs = 2 \<or> umem piped 0x80001000 (0x1000 + of_nat (length bs)) = None"
    using pipewrite_appends [OF s piped_pipe(1,2), of 2 "0x1000"] by (auto simp: piped_pipe Let_def PIPESIZE_def)
  have l: "length bs = 2" using b(2,5) user_bytes [of piped] by (cases "length bs"; cases "length bs - 1") auto
  moreover have "bs ! 0 = 104" "bs ! 1 = 105" using b(3) [rule_format, of 0] b(3) [rule_format, of 1] l user_bytes [of piped] by auto
  ultimately have "bs = [104, 105]" by (intro nth_equalityI) (auto simp: less_Suc_eq numeral_2_eq_2)
  then show ?thesis using b(1,4) by (intro exI [of _ "pipe_now 0x80005000 q (Ch_pipe_nread 0x80005000) piped"]) (simp add: pipe_now_def)
qed

theorem piperead_takes_witness:
  "(\<exists>t. piperead 0x80005000 0x1000 1 piped2 = Ret 1 t \<and> pipe_queue (pipes t 0x80005000) = [8]) \<and>
   (\<exists>t. piperead 0x80005000 0x2000 1 piped2 = Ret 0 t \<and> pipe_queue (pipes t 0x80005000) = [8])"
proof -
  have s: "curproc piped2 = Some 0" "held piped2 = {}"
    "uvm_ok (p_pagetable (procs piped2 0)) {0x80001000, 0x80002000, 0x80003000} piped2" "\<not> p_killed (procs piped2 0)"
    using user_mem_ok [of piped2] by simp_all
  have r: "\<exists>k t. k \<le> 1 \<and> piperead 0x80005000 addr 1 piped2 = Ret (of_nat k) t \<and> pipe_queue (pipes t 0x80005000) = [8] \<and>
      (if k = 0 then umem piped2 0x80001000 addr = None else umem piped2 0x80001000 addr \<noteq> None)" for addr
  proof -
    obtain k m q where c: "k \<le> nat (sint (1 :: cint))"
      "piperead 0x80005000 addr 1 piped2 = Ret (of_nat k) (put_mem m (pipe_now 0x80005000 q (Ch_pipe_nwrite 0x80005000) piped2))"
      "\<forall>j < k. umem piped2 (p_pagetable (procs piped2 0)) (addr + of_nat j) \<noteq> None"
      "if k < nat (sint (1 :: cint)) \<and> k < length [7, 8 :: byte] then umem piped2 (p_pagetable (procs piped2 0)) (addr + of_nat k) = None \<and>
         pipe_queue q = drop (k + 1) [7, 8] else pipe_queue q = drop k [7, 8]"
      using piperead_takes [OF s piped_pipe(4), unfolded piped_pipe, of addr 1] by auto
    then have "k = 0 \<or> k = 1" by auto
    then show ?thesis using c by (intro exI [of _ k] exI) (auto simp: pipe_now_def put_mem_def)
  qed
  show ?thesis using r [of "0x1000"] r [of "0x2000"] user_bytes [of piped2] by (auto split: if_splits simp: le_Suc_eq)
qed

theorem consolewrite_in_order_witness:
  "\<exists>t. consolewrite (Usrc 0x1000) 2 (machine 16) = Ret 2 t \<and> uart_stream t = ''hi''"
proof -
  have ok: "uart_ok (machine 16)" "uart_stream (machine 16) = []" "uart_queue (machine 16) = []"
    by (simp_all add: uart_ok_def uart_queue_def uart_stream_def machine_def)
  have s: "held (machine 16) = {}" "curproc (machine 16) = Some 0" "uart_ok (machine 16)"
    "uvm_ok (p_pagetable (procs (machine 16) 0)) {0x80001000, 0x80002000, 0x80003000} (machine 16)"
    using user_mem_ok [of "machine 16"] ok by simp_all
  obtain bs t where b: "length bs \<le> 2" "\<forall>j < length bs. umem (machine 16) 0x80001000 (0x1000 + of_nat j) = Some (bs ! j)"
    "uart_stream t = map as_char bs"
    "consolewrite (Usrc 0x1000) 2 (machine 16) = Ret (of_nat (length bs)) t \<and>
       (length bs = 2 \<or> umem (machine 16) 0x80001000 (0x1000 + of_nat (length bs)) = None) \<or>
     consolewrite (Usrc 0x1000) 2 (machine 16) = Sleep Ch_uart_tx_r t \<and> length bs < 2 \<and> length (uart_queue t) = UART_TX_BUF_SIZE"
    using consolewrite_in_order [OF s, of 2 "0x1000"] by (auto simp: ok)
  have "length (uart_stream t) \<le> 2" using b(1,3) by simp
  then have q: "length (uart_queue t) \<noteq> UART_TX_BUF_SIZE" by (auto simp: uart_stream_def UART_TX_BUF_SIZE_def)
  have l: "length bs = 2" using b(1,4) q user_bytes [of "machine 16"] by (cases "length bs"; cases "length bs - 1") auto
  moreover have "bs ! 0 = 104" "bs ! 1 = 105"
    using b(2) [rule_format, of 0] b(2) [rule_format, of 1] l user_bytes [of "machine 16"] by auto
  ultimately have "bs = [104, 105]" by (intro nth_equalityI) (auto simp: less_Suc_eq numeral_2_eq_2)
  then show ?thesis using b(3,4) q by (auto simp: char_of_def bit_Suc_0_iff)
qed

theorem consoleintr_edits_line_witness:
  "\<exists>t. consoleintr 10 (machine 16) = Ret () t \<and> cons_ready t = [10] \<and> cons_edit t = []"
proof -
  have "cons_ok (machine 16)" "L_cons \<notin> held (machine 16)" "L_pr \<notin> held (machine 16)" "may_wake (machine 16)"
    "cons_ready (machine 16) = []" "cons_edit (machine 16) = []"
    by (simp_all add: cons_ok_def cons_edit_def cons_ready_def may_wake_def) (simp_all add: machine_def)
  with consoleintr_edits_line [of "machine 16" 10] show ?thesis by (auto simp: line_edit_def C_def INPUT_BUF_SIZE_def)
qed

end
