(* ===== verification/Asm.thy ===== *)
theory Asm
  imports Ucopy
begin

text \<open>
  The assembly stubs: \<^verbatim>\<open>kernel/swtch.S\<close>, \<^verbatim>\<open>kernel/trampoline.S\<close>, \<^verbatim>\<open>kernel/kernelvec.S\<close>, \<^verbatim>\<open>kernel/entry.S\<close>, and \<^verbatim>\<open>kernel/start.c\<close>, which
  runs in machine mode before the kernel proper. An instruction is a function on the state of a hart: its registers, the
  memory, and the control registers the stubs use. Address translation is the argument \<open>tr\<close>, from the content of \<^verbatim>\<open>satp\<close> and a
  virtual address to a physical one; code that runs under one page table throughout is given the memory as that table shows it.
  Fences have no counterpart.
\<close>

section \<open>Harts and instructions\<close>

datatype reg = RA | SP | GP | TP | T0 | T1 | T2 | S0 | S1 | A0 | A1 | A2 | A3 | A4 | A5 | A6 | A7
  | S2 | S3 | S4 | S5 | S6 | S7 | S8 | S9 | S10 | S11 | T3 | T4 | T5 | T6

datatype mode = User | Supervisor | Machine

record hart =
  xr :: "reg \<Rightarrow> uint64"
  h_mem :: memory
  h_pc :: uint64
  h_mode :: mode
  h_satp :: uint64
  h_sscratch :: uint64
  h_sepc :: uint64
  h_sstatus :: uint64
  h_sie :: uint64
  h_sip :: uint64
  h_mhartid :: uint64
  h_mstatus :: uint64
  h_mepc :: uint64
  h_mscratch :: uint64
  h_mtvec :: uint64
  h_mie :: uint64
  h_medeleg :: uint64
  h_mideleg :: uint64
  h_pmpaddr0 :: uint64
  h_pmpcfg0 :: uint64

type_synonym translation = "uint64 \<Rightarrow> uint64 \<Rightarrow> uint64"

definition wx :: "reg \<Rightarrow> uint64 \<Rightarrow> hart \<Rightarrow> hart" where
  "wx r v c = c\<lparr>xr := (xr c)(r := v)\<rparr>"

definition sd :: "translation \<Rightarrow> reg \<Rightarrow> nat \<Rightarrow> reg \<Rightarrow> hart \<Rightarrow> hart" where
  "sd tr r off b c = c\<lparr>h_mem := st64 (h_mem c) (tr (h_satp c) (xr c b + of_nat off)) (xr c r)\<rparr>"

definition ld :: "translation \<Rightarrow> reg \<Rightarrow> nat \<Rightarrow> reg \<Rightarrow> hart \<Rightarrow> hart" where
  "ld tr r off b c = wx r (ld64 (h_mem c) (tr (h_satp c) (xr c b + of_nat off))) c"

definition sds :: "translation \<Rightarrow> (reg \<times> nat) list \<Rightarrow> reg \<Rightarrow> hart \<Rightarrow> hart" where
  "sds tr L b c = fold (\<lambda>(r, off). sd tr r off b) L c"

definition lds :: "translation \<Rightarrow> (reg \<times> nat) list \<Rightarrow> reg \<Rightarrow> hart \<Rightarrow> hart" where
  "lds tr L b c = fold (\<lambda>(r, off). ld tr r off b) L c"

definition jr :: "reg \<Rightarrow> hart \<Rightarrow> hart" where
  "jr r c = c\<lparr>h_pc := xr c r\<rparr>"

text \<open>\<^verbatim>\<open>sret\<close> goes to \<^verbatim>\<open>sepc\<close> in the mode \<^verbatim>\<open>SPP\<close> (bit 8) names, \<^verbatim>\<open>mret\<close> to \<^verbatim>\<open>mepc\<close> in the mode \<^verbatim>\<open>MPP\<close> (bits 11 and 12) names.\<close>

definition sret :: "hart \<Rightarrow> hart" where
  "sret c = c\<lparr>h_pc := h_sepc c, h_mode := (if bit (h_sstatus c) 8 then Supervisor else User)\<rparr>"

definition mret :: "hart \<Rightarrow> hart" where
  "mret c = c\<lparr>h_pc := h_mepc c, h_mode := (if bit (h_mstatus c) 12 then Machine else if bit (h_mstatus c) 11 then Supervisor else User)\<rparr>"

text \<open>No translation, or memory as the page table in force shows it.\<close>

definition direct :: translation where
  "direct = (\<lambda>_ a. a)"

section \<open>swtch\<close>

text \<open>The order and the offsets in which \<^verbatim>\<open>swtch\<close> saves and loads registers.\<close>

definition swtch_regs :: "(reg \<times> nat) list" where
  "swtch_regs = [(RA, 0), (SP, 8), (S0, 16), (S1, 24), (S2, 32), (S3, 40), (S4, 48), (S5, 56), (S6, 64), (S7, 72), (S8, 80), (S9, 88),
     (S10, 96), (S11, 104)]"

definition swtch :: "hart \<Rightarrow> hart" where
  "swtch c =
     (let c = sds direct swtch_regs A0 c;
          c = lds direct swtch_regs A1 c
      in jr RA c)"

section \<open>The trampoline\<close>

definition trap_regs :: "(reg \<times> nat) list" where
  "trap_regs = [(RA, 40), (SP, 48), (GP, 56), (TP, 64), (T0, 72), (T1, 80), (T2, 88), (S0, 96), (S1, 104), (A1, 120), (A2, 128), (A3, 136),
     (A4, 144), (A5, 152), (A6, 160), (A7, 168), (S2, 176), (S3, 184), (S4, 192), (S5, 200), (S6, 208), (S7, 216), (S8, 224), (S9, 232),
     (S10, 240), (S11, 248), (T3, 256), (T4, 264), (T5, 272), (T6, 280)]"

definition uservec :: "translation \<Rightarrow> hart \<Rightarrow> hart" where
  "uservec tr c =
     (let c = c\<lparr>h_sscratch := xr c A0\<rparr>;
          c = wx A0 TRAPFRAME c;
          c = sds tr trap_regs A0 c;
          c = wx T0 (h_sscratch c) c;
          c = sd tr T0 112 A0 c;
          c = ld tr SP 8 A0 c;
          c = ld tr TP 32 A0 c;
          c = ld tr T0 16 A0 c;
          c = ld tr T1 0 A0 c;
          c = c\<lparr>h_satp := xr c T1\<rparr>
      in jr T0 c)"

definition userret :: "translation \<Rightarrow> hart \<Rightarrow> hart" where
  "userret tr c =
     (let c = c\<lparr>h_satp := xr c A0\<rparr>;
          c = wx A0 TRAPFRAME c;
          c = lds tr trap_regs A0 c;
          c = ld tr A0 112 A0 c
      in sret c)"

section \<open>kernelvec and timervec\<close>

definition kernelvec_regs :: "(reg \<times> nat) list" where
  "kernelvec_regs = [(RA, 0), (SP, 8), (GP, 16), (TP, 24), (T0, 32), (T1, 40), (T2, 48), (S0, 56), (S1, 64), (A0, 72), (A1, 80), (A2, 88),
     (A3, 96), (A4, 104), (A5, 112), (A6, 120), (A7, 128), (S2, 136), (S3, 144), (S4, 152), (S5, 160), (S6, 168), (S7, 176), (S8, 184),
     (S9, 192), (S10, 200), (S11, 208), (T3, 216), (T4, 224), (T5, 232), (T6, 240)]"

text \<open>\<^verbatim>\<open>kerneltrap\<close> is the compiled C function; \<^verbatim>\<open>tp\<close> is not restored.\<close>

definition kernelvec :: "(hart \<Rightarrow> hart) \<Rightarrow> hart \<Rightarrow> hart" where
  "kernelvec kerneltrap c =
     (let c = wx SP (xr c SP - 256) c;
          c = sds direct kernelvec_regs SP c;
          c = kerneltrap c;
          c = lds direct (filter (\<lambda>(r, _). r \<noteq> TP) kernelvec_regs) SP c;
          c = wx SP (xr c SP + 256) c
      in sret c)"

definition csrrw_mscratch :: "hart \<Rightarrow> hart" where
  "csrrw_mscratch c = wx A0 (h_mscratch c) (c\<lparr>h_mscratch := xr c A0\<rparr>)"

definition timervec :: "hart \<Rightarrow> hart" where
  "timervec c =
     (let c = csrrw_mscratch c;
          c = sds direct [(A1, 0), (A2, 8), (A3, 16)] A0 c;
          c = ld direct A1 24 A0 c;
          c = ld direct A2 32 A0 c;
          c = ld direct A3 0 A1 c;
          c = wx A3 (xr c A3 + xr c A2) c;
          c = sd direct A3 0 A1 c;
          c = wx A1 2 c;
          c = c\<lparr>h_sip := xr c A1\<rparr>;
          c = lds direct [(A3, 16), (A2, 8), (A1, 0)] A0 c;
          c = csrrw_mscratch c
      in mret c)"

section \<open>entry and start\<close>

text \<open>\<open>stack0\<close> is the address the linker gives to the boot stacks, \<open>start_pc\<close> that of \<^verbatim>\<open>start\<close>.\<close>

definition entry :: "uint64 \<Rightarrow> uint64 \<Rightarrow> hart \<Rightarrow> hart" where
  "entry stack0 start_pc c =
     (let c = wx SP stack0 c;
          c = wx A0 (1024 * 4) c;
          c = wx A1 (h_mhartid c) c;
          c = wx A1 (xr c A1 + 1) c;
          c = wx A0 (xr c A0 * xr c A1) c;
          c = wx SP (xr c SP + xr c A0) c
      in c\<lparr>h_pc := start_pc\<rparr>)"

definition MSTATUS_MPP_MASK :: uint64 where "MSTATUS_MPP_MASK = push_bit 11 3"
definition MSTATUS_MPP_S :: uint64 where "MSTATUS_MPP_S = push_bit 11 1"
definition MSTATUS_MIE :: uint64 where "MSTATUS_MIE = push_bit 3 1"
definition SIE_SEIE :: uint64 where "SIE_SEIE = push_bit 9 1"
definition SIE_STIE :: uint64 where "SIE_STIE = push_bit 5 1"
definition SIE_SSIE :: uint64 where "SIE_SSIE = push_bit 1 1"
definition MIE_MTIE :: uint64 where "MIE_MTIE = push_bit 7 1"
definition CLINT :: uint64 where "CLINT = 0x2000000"
definition CLINT_MTIMECMP :: "uint64 \<Rightarrow> uint64" where "CLINT_MTIMECMP hartid = CLINT + 0x4000 + 8 * hartid"
definition CLINT_MTIME :: uint64 where "CLINT_MTIME = CLINT + 0xBFF8"

text \<open>\<open>timer_scratch\<close> is the address of the array of that name, five words per hart; \<open>timervec_pc\<close> and \<open>main_pc\<close> are linker addresses.\<close>

definition timerinit :: "uint64 \<Rightarrow> uint64 \<Rightarrow> hart \<Rightarrow> hart" where
  "timerinit timer_scratch timervec_pc c =
     (let hartid = h_mhartid c;
          interval = 1000000;
          c = c\<lparr>h_mem := st64 (h_mem c) (CLINT_MTIMECMP hartid) (ld64 (h_mem c) CLINT_MTIME + interval)\<rparr>;
          scratch = timer_scratch + 40 * hartid;
          c = c\<lparr>h_mem := st64 (h_mem c) (scratch + 24) (CLINT_MTIMECMP hartid)\<rparr>;
          c = c\<lparr>h_mem := st64 (h_mem c) (scratch + 32) interval\<rparr>;
          c = c\<lparr>h_mscratch := scratch\<rparr>;
          c = c\<lparr>h_mtvec := timervec_pc\<rparr>;
          c = c\<lparr>h_mstatus := h_mstatus c OR MSTATUS_MIE\<rparr>
      in c\<lparr>h_mie := h_mie c OR MIE_MTIE\<rparr>)"

definition start :: "uint64 \<Rightarrow> uint64 \<Rightarrow> uint64 \<Rightarrow> hart \<Rightarrow> hart" where
  "start timer_scratch timervec_pc main_pc c =
     (let y = h_mstatus c;
          y = y AND NOT MSTATUS_MPP_MASK;
          y = y OR MSTATUS_MPP_S;
          c = c\<lparr>h_mstatus := y\<rparr>;
          c = c\<lparr>h_mepc := main_pc\<rparr>;
          c = c\<lparr>h_satp := 0\<rparr>;
          c = c\<lparr>h_medeleg := 0xffff\<rparr>;
          c = c\<lparr>h_mideleg := 0xffff\<rparr>;
          c = c\<lparr>h_sie := h_sie c OR SIE_SEIE OR SIE_STIE OR SIE_SSIE\<rparr>;
          c = c\<lparr>h_pmpaddr0 := 0x3fffffffffffff\<rparr>;
          c = c\<lparr>h_pmpcfg0 := 0xf\<rparr>;
          c = timerinit timer_scratch timervec_pc c;
          c = wx TP (h_mhartid c) c
      in mret c)"

section \<open>The structures in memory\<close>

text \<open>\<^verbatim>\<open>struct trapframe\<close> and \<^verbatim>\<open>struct context\<close> at address \<open>a\<close>.\<close>

definition get_trapframe :: "memory \<Rightarrow> uint64 \<Rightarrow> trapframe" where
  "get_trapframe m a =
     \<lparr>tf_kernel_satp = ld64 m (a + 0), tf_kernel_sp = ld64 m (a + 8), tf_kernel_trap = ld64 m (a + 16), tf_epc = ld64 m (a + 24),
      tf_kernel_hartid = ld64 m (a + 32), tf_ra = ld64 m (a + 40), tf_sp = ld64 m (a + 48), tf_gp = ld64 m (a + 56), tf_tp = ld64 m (a + 64),
      tf_t0 = ld64 m (a + 72), tf_t1 = ld64 m (a + 80), tf_t2 = ld64 m (a + 88), tf_s0 = ld64 m (a + 96), tf_s1 = ld64 m (a + 104),
      tf_a0 = ld64 m (a + 112), tf_a1 = ld64 m (a + 120), tf_a2 = ld64 m (a + 128), tf_a3 = ld64 m (a + 136), tf_a4 = ld64 m (a + 144),
      tf_a5 = ld64 m (a + 152), tf_a6 = ld64 m (a + 160), tf_a7 = ld64 m (a + 168), tf_s2 = ld64 m (a + 176), tf_s3 = ld64 m (a + 184),
      tf_s4 = ld64 m (a + 192), tf_s5 = ld64 m (a + 200), tf_s6 = ld64 m (a + 208), tf_s7 = ld64 m (a + 216), tf_s8 = ld64 m (a + 224),
      tf_s9 = ld64 m (a + 232), tf_s10 = ld64 m (a + 240), tf_s11 = ld64 m (a + 248), tf_t3 = ld64 m (a + 256), tf_t4 = ld64 m (a + 264),
      tf_t5 = ld64 m (a + 272), tf_t6 = ld64 m (a + 280)\<rparr>"

definition get_context :: "memory \<Rightarrow> uint64 \<Rightarrow> struct_context" where
  "get_context m a =
     \<lparr>c_ra = ld64 m (a + 0), c_sp = ld64 m (a + 8), c_s0 = ld64 m (a + 16), c_s1 = ld64 m (a + 24), c_s2 = ld64 m (a + 32),
      c_s3 = ld64 m (a + 40), c_s4 = ld64 m (a + 48), c_s5 = ld64 m (a + 56), c_s6 = ld64 m (a + 64), c_s7 = ld64 m (a + 72),
      c_s8 = ld64 m (a + 80), c_s9 = ld64 m (a + 88), c_s10 = ld64 m (a + 96), c_s11 = ld64 m (a + 104)\<rparr>"

text \<open>The registers a trapframe holds, and those \<^verbatim>\<open>swtch\<close> switches.\<close>

definition regs_of :: "trapframe \<Rightarrow> reg \<Rightarrow> uint64" where
  "regs_of f r = (case r of
     RA \<Rightarrow> tf_ra f | SP \<Rightarrow> tf_sp f | GP \<Rightarrow> tf_gp f | TP \<Rightarrow> tf_tp f | T0 \<Rightarrow> tf_t0 f |
     T1 \<Rightarrow> tf_t1 f | T2 \<Rightarrow> tf_t2 f | S0 \<Rightarrow> tf_s0 f | S1 \<Rightarrow> tf_s1 f | A0 \<Rightarrow> tf_a0 f |
     A1 \<Rightarrow> tf_a1 f | A2 \<Rightarrow> tf_a2 f | A3 \<Rightarrow> tf_a3 f | A4 \<Rightarrow> tf_a4 f | A5 \<Rightarrow> tf_a5 f |
     A6 \<Rightarrow> tf_a6 f | A7 \<Rightarrow> tf_a7 f | S2 \<Rightarrow> tf_s2 f | S3 \<Rightarrow> tf_s3 f | S4 \<Rightarrow> tf_s4 f |
     S5 \<Rightarrow> tf_s5 f | S6 \<Rightarrow> tf_s6 f | S7 \<Rightarrow> tf_s7 f | S8 \<Rightarrow> tf_s8 f | S9 \<Rightarrow> tf_s9 f |
     S10 \<Rightarrow> tf_s10 f | S11 \<Rightarrow> tf_s11 f | T3 \<Rightarrow> tf_t3 f | T4 \<Rightarrow> tf_t4 f |
     T5 \<Rightarrow> tf_t5 f | T6 \<Rightarrow> tf_t6 f)"

definition context_of :: "(reg \<Rightarrow> uint64) \<Rightarrow> struct_context" where
  "context_of rs =
     \<lparr>c_ra = rs RA, c_sp = rs SP, c_s0 = rs S0, c_s1 = rs S1, c_s2 = rs S2, c_s3 = rs S3, c_s4 = rs S4, c_s5 = rs S5, c_s6 = rs S6,
      c_s7 = rs S7, c_s8 = rs S8, c_s9 = rs S9, c_s10 = rs S10, c_s11 = rs S11\<rparr>"

section \<open>Saving and loading\<close>

lemma slot_apart:
  assumes "in_area (p + of_nat i) 8 a" "in_area (p + of_nat j) 8 a" "i mod 8 = 0" "j mod 8 = 0" "i < 4096" "j < 4096"
  shows "i = j"
proof -
  define k l where "k = unat (a - (p + of_nat i))" and "l = unat (a - (p + of_nat j))"
  have kl: "k < 8" "l < 8" using assms(1,2) by (simp_all add: in_area_def k_def l_def)
  have "a = p + of_nat (i + k)" "a = p + of_nat (j + l)" by (simp_all add: k_def l_def)
  then have "of_nat (i + k) = (of_nat (j + l) :: uint64)" by (metis add_left_cancel)
  then have "i + k = j + l" using kl assms(5,6) of_nat_inj64 [of "i + k" "j + l"] by simp
  then show ?thesis using kl assms(3,4) by presburger
qed

lemma ld64_slot:
  assumes "i mod 8 = 0" "j mod 8 = 0" "i < 4096" "j < 4096"
  shows "ld64 (st64 m (p + of_nat i) v) (p + of_nat j) = (if j = i then v else ld64 m (p + of_nat j))"
proof (cases "j = i")
  case False
  have "\<not> in_area (p + of_nat i) 8 a" if "in_area (p + of_nat j) 8 a" for a
    using slot_apart [OF _ that assms] False by metis
  then have "ld64 (st64 m (p + of_nat i) v) (p + of_nat j) = ld64 m (p + of_nat j)" by (intro ld64_cong st64_outside)
  then show ?thesis using False by (simp only: if_False)
qed (simp only: ld64_st64_same if_True simp_thms)

definition slots :: "(reg \<times> nat) list \<Rightarrow> bool" where
  "slots L \<longleftrightarrow> distinct (map snd L) \<and> (\<forall>(r, off) \<in> set L. off mod 8 = 0 \<and> off < 4096)"

text \<open>A run of stores leaves each register in its slot and every other slot and byte alone.\<close>

lemma sds_ok:
  assumes "\<forall>off \<in> snd ` set L. tr (h_satp c) (xr c b + of_nat off) = pa + of_nat off" "slots L"
  shows "\<exists>m. sds tr L b c = c\<lparr>h_mem := m\<rparr> \<and>
    (\<forall>off. off mod 8 = 0 \<longrightarrow> off < 4096 \<longrightarrow>
       ld64 m (pa + of_nat off) = (case map_of (map (\<lambda>(r, off). (off, r)) L) off of Some r \<Rightarrow> xr c r | None \<Rightarrow> ld64 (h_mem c) (pa + of_nat off))) \<and>
    (\<forall>a. (\<forall>off \<in> snd ` set L. \<not> in_area (pa + of_nat off) 8 a) \<longrightarrow> m a = h_mem c a)"
  using assms
proof (induction L arbitrary: c)
  case Nil
  then show ?case by (intro exI [of _ "h_mem c"]) (simp add: sds_def)
next
  case (Cons ro L)
  obtain r off where ro: "ro = (r, off)" by (cases ro)
  let ?m = "st64 (h_mem c) (pa + of_nat off) (xr c r)" and ?c = "c\<lparr>h_mem := st64 (h_mem c) (pa + of_nat off) (xr c r)\<rparr>"
  have sl: "slots L" "off \<notin> snd ` set L" "off mod 8 = 0" "off < 4096" using Cons.prems(2) by (auto simp: ro slots_def)
  have pre: "\<forall>off \<in> snd ` set L. tr (h_satp ?c) (xr ?c b + of_nat off) = pa + of_nat off" using Cons.prems(1) by simp
  have keep: "h_mem ?c = ?m" "xr ?c = xr c" by simp_all
  obtain m where m: "sds tr L b ?c = ?c\<lparr>h_mem := m\<rparr>"
    "\<forall>off. off mod 8 = 0 \<longrightarrow> off < 4096 \<longrightarrow>
       ld64 m (pa + of_nat off) = (case map_of (map (\<lambda>(r, off). (off, r)) L) off of Some r \<Rightarrow> xr c r | None \<Rightarrow> ld64 ?m (pa + of_nat off))"
    "\<forall>a. (\<forall>off \<in> snd ` set L. \<not> in_area (pa + of_nat off) 8 a) \<longrightarrow> m a = ?m a"
    using Cons.IH [OF pre sl(1), unfolded keep] by blast
  have "sds tr (ro # L) b c = c\<lparr>h_mem := m\<rparr>" using m(1) Cons.prems(1) by (simp add: sds_def ro sd_def)
  moreover have "ld64 ?m (pa + of_nat k) = (if k = off then xr c r else ld64 (h_mem c) (pa + of_nat k))" if "k mod 8 = 0" "k < 4096" for k
    by (rule ld64_slot [OF sl(3) that(1) sl(4) that(2)])
  moreover have "map_of (map (\<lambda>(r, off). (off, r)) L) off = None" using sl(2) by (force simp: map_of_eq_None_iff)
  ultimately show ?case using m(2,3) by (intro exI [of _ m]) (auto simp: ro split: option.splits)
qed

text \<open>A run of loads fills the registers from their slots; the base may be among them if it keeps its value.\<close>

lemma lds_ok:
  assumes "\<forall>off \<in> snd ` set L. tr (h_satp c) (xr c b + of_nat off) = pa + of_nat off" "distinct (map fst L)"
    "\<forall>off. map_of L b = Some off \<longrightarrow> ld64 (h_mem c) (pa + of_nat off) = xr c b"
  shows "lds tr L b c = c\<lparr>xr := \<lambda>r. case map_of L r of None \<Rightarrow> xr c r | Some off \<Rightarrow> ld64 (h_mem c) (pa + of_nat off)\<rparr>"
  using assms
proof (induction L arbitrary: c)
  case Nil
  then show ?case by (simp add: lds_def)
next
  case (Cons ro L)
  obtain r off where ro: "ro = (r, off)" by (cases ro)
  let ?c = "wx r (ld64 (h_mem c) (pa + of_nat off)) c"
  have nr: "map_of L r = None" using Cons.prems(2) by (simp add: ro map_of_eq_None_iff)
  have b: "xr ?c b = xr c b" using Cons.prems(3) by (auto simp: ro wx_def)
  have keep: "h_mem ?c = h_mem c" "h_satp ?c = h_satp c" by (simp_all add: wx_def)
  have "lds tr L b ?c = ?c\<lparr>xr := \<lambda>q. case map_of L q of None \<Rightarrow> xr ?c q | Some off \<Rightarrow> ld64 (h_mem ?c) (pa + of_nat off)\<rparr>"
    using Cons.prems b nr by (intro Cons.IH) (auto simp: ro keep split: if_splits)
  moreover note nr
  moreover have "lds tr (ro # L) b c = lds tr L b ?c" using Cons.prems(1) by (simp add: lds_def ro ld_def)
  ultimately show ?case by (auto simp: ro wx_def fun_eq_iff split: option.splits)
qed

section \<open>Traps from user space\<close>

definition maps_trapframe :: "translation \<Rightarrow> uint64 \<Rightarrow> uint64 \<Rightarrow> bool" where
  "maps_trapframe tr satp pa \<longleftrightarrow> (\<forall>off < 4096. tr satp (TRAPFRAME + of_nat off) = pa + of_nat off)"

lemma regs_frame: "regs_of (get_trapframe m a) r = ld64 m (a + of_nat (the (map_of ((A0, 112) # trap_regs) r)))"
  by (cases r) (simp_all add: regs_of_def get_trapframe_def trap_regs_def)

lemma trap_slots: "slots trap_regs" "distinct (map fst trap_regs)" "map_of trap_regs A0 = None" "112 \<notin> snd ` set trap_regs"
  "\<forall>off \<in> snd ` set trap_regs. off < 288"
  by (simp_all add: slots_def trap_regs_def)

lemma slot_in:
  assumes "in_area (p + of_nat i) 8 a" "i + 8 \<le> n" "n \<le> 2 ^ 64"
  shows "in_area p n a"
proof -
  define k where "k = unat (a - (p + of_nat i))"
  have "k < 8" using assms(1) by (simp add: in_area_def k_def)
  moreover have "a = p + of_nat (i + k)" by (simp add: k_def)
  ultimately show ?thesis using in_area_inside [of "i + k" n p] assms(2,3) by simp
qed

lemma map_of_swap:
  assumes "distinct (map snd L)" "(r, off) \<in> set L"
  shows "map_of (map (\<lambda>(r, off). (off, r)) L) off = Some r"
  using assms by (intro map_of_is_SomeI) (auto simp: comp_def case_prod_beta intro: rev_image_eqI)

lemma uservec_mem:
  assumes "maps_trapframe tr (h_satp c) pa"
  obtains m where "\<And>r. ld64 m (pa + of_nat (the (map_of ((A0, 112) # trap_regs) r))) = xr c r"
    "\<And>off. off mod 8 = 0 \<Longrightarrow> off < 40 \<Longrightarrow> ld64 m (pa + of_nat off) = ld64 (h_mem c) (pa + of_nat off)"
    "\<And>a. \<not> in_area pa 288 a \<Longrightarrow> m a = h_mem c a"
    "h_mem (uservec tr c) = m" "xr (uservec tr c) SP = ld64 m (pa + 8)" "xr (uservec tr c) TP = ld64 m (pa + 32)"
    "h_pc (uservec tr c) = ld64 m (pa + 16)" "h_satp (uservec tr c) = ld64 m pa"
proof -
  let ?c = "wx A0 TRAPFRAME (c\<lparr>h_sscratch := xr c A0\<rparr>)"
  have at: "tr (h_satp c) (TRAPFRAME + of_nat off) = pa + of_nat off" if "off < 4096" for off using assms that by (simp add: maps_trapframe_def)
  have "\<forall>off \<in> snd ` set trap_regs. tr (h_satp ?c) (xr ?c A0 + of_nat off) = pa + of_nat off"
    using trap_slots(5) at by (auto simp: wx_def)
  from sds_ok [where tr = tr and c = ?c and b = A0 and pa = pa, OF this trap_slots(1)] obtain m where m: "sds tr trap_regs A0 ?c = ?c\<lparr>h_mem := m\<rparr>"
    "\<forall>off. off mod 8 = 0 \<longrightarrow> off < 4096 \<longrightarrow> ld64 m (pa + of_nat off) =
       (case map_of (map (\<lambda>(r, off). (off, r)) trap_regs) off of Some r \<Rightarrow> xr ?c r | None \<Rightarrow> ld64 (h_mem ?c) (pa + of_nat off))"
    "\<forall>a. (\<forall>off \<in> snd ` set trap_regs. \<not> in_area (pa + of_nat off) 8 a) \<longrightarrow> m a = h_mem ?c a" by blast
  let ?m = "st64 m (pa + of_nat 112) (xr c A0)"
  have run: "uservec tr c = jr T0 (let k = ?c\<lparr>h_mem := ?m, xr := (xr ?c)(T0 := xr c A0, SP := ld64 ?m (pa + 8), TP := ld64 ?m (pa + 32),
      T0 := ld64 ?m (pa + 16), T1 := ld64 ?m pa)\<rparr> in k\<lparr>h_satp := xr k T1\<rparr>)"
    unfolding uservec_def Let_def m(1) using at [of 112] at [of 8] at [of 32] at [of 16] at [of 0]
    by (simp add: wx_def sd_def ld_def)
  show thesis
  proof (rule that [of ?m])
    show "ld64 ?m (pa + of_nat (the (map_of ((A0, 112) # trap_regs) r))) = xr c r" for r
    proof (cases "r = A0")
      case False
      then obtain off where off: "map_of trap_regs r = Some off" by (cases r) (simp_all add: trap_regs_def)
      then have set: "(r, off) \<in> set trap_regs" by (rule map_of_SomeD)
      then have o: "off mod 8 = 0" "off < 4096" "off \<noteq> 112" using trap_slots(1,4) by (auto simp: slots_def intro: rev_image_eqI)
      have "ld64 m (pa + of_nat off) = xr ?c r" using m(2) o map_of_swap [OF _ set] trap_slots(1) by (simp add: slots_def)
      then show ?thesis using False off ld64_slot [of 112 off m pa "xr c A0"] o by (simp add: wx_def)
    qed simp
    show "ld64 ?m (pa + of_nat off) = ld64 (h_mem c) (pa + of_nat off)" if "off mod 8 = 0" "off < 40" for off
    proof -
      have "map_of (map (\<lambda>(r, off). (off, r)) trap_regs) off = None"
        using that(2) by (simp add: trap_regs_def)
      then show ?thesis using that m(2) ld64_slot [of 112 off m pa "xr c A0"] by (simp add: wx_def)
    qed
    show "?m a = h_mem c a" if "\<not> in_area pa 288 a" for a
    proof -
      have n: "\<not> in_area (pa + of_nat off) 8 a" if "off + 8 \<le> 288" for off using slot_in [OF _ that] \<open>\<not> in_area pa 288 a\<close> by fastforce
      have "\<forall>off \<in> snd ` set trap_regs. off + 8 \<le> 288" by (simp add: trap_regs_def)
      then have "m a = h_mem ?c a" using m(3) n by simp
      then show ?thesis using n [of 112] by (simp add: wx_def)
    qed
  qed (simp_all add: run jr_def Let_def)
qed

lemma userret_regs:
  assumes "maps_trapframe tr (xr d A0) pa"
  shows "xr (userret tr d) = regs_of (get_trapframe (h_mem d) pa)" "h_satp (userret tr d) = xr d A0" "h_pc (userret tr d) = h_sepc d"
proof -
  let ?d = "wx A0 TRAPFRAME (d\<lparr>h_satp := xr d A0\<rparr>)"
  have at: "tr (xr d A0) (TRAPFRAME + of_nat off) = pa + of_nat off" if "off < 4096" for off using assms that by (simp add: maps_trapframe_def)
  have "\<forall>off \<in> snd ` set trap_regs. tr (h_satp ?d) (xr ?d A0 + of_nat off) = pa + of_nat off"
    using trap_slots(5) at by (auto simp: wx_def)
  from lds_ok [where tr = tr and c = ?d and b = A0 and pa = pa, OF this trap_slots(2)]
  have L: "lds tr trap_regs A0 ?d = ?d\<lparr>xr := \<lambda>r. case map_of trap_regs r of None \<Rightarrow> xr ?d r | Some off \<Rightarrow> ld64 (h_mem ?d) (pa + of_nat off)\<rparr>"
    using trap_slots(3) by simp
  have U: "userret tr d = sret (ld tr A0 112 A0 (lds tr trap_regs A0 ?d))" by (simp add: userret_def Let_def)
  have "xr (userret tr d) r = regs_of (get_trapframe (h_mem d) pa) r" for r
  proof (cases "r = A0")
    case True
    then show ?thesis using at [of 112] trap_slots(3) unfolding U L regs_frame by (simp add: sret_def ld_def wx_def)
  next
    case False
    then obtain off where "map_of trap_regs r = Some off" by (cases r) (simp_all add: trap_regs_def)
    then show ?thesis using False unfolding U L regs_frame by (simp add: sret_def ld_def wx_def)
  qed
  then show "xr (userret tr d) = regs_of (get_trapframe (h_mem d) pa)" by (simp add: fun_eq_iff)
  show "h_satp (userret tr d) = xr d A0" "h_pc (userret tr d) = h_sepc d" unfolding U L by (simp_all add: sret_def ld_def wx_def)
qed

text \<open>C8. A trap from user space and back: \<^verbatim>\<open>uservec\<close> saves all 31 registers of the user in the trapframe, at the offsets of
  \<^verbatim>\<open>struct trapframe\<close>, writes nothing else, and enters the kernel at the address, with the stack, hart number and page table the trapframe
  names. \<^verbatim>\<open>userret\<close> gives the user page table and every register back as the trapframe holds it: if the kernel has changed
  none of them but \<^verbatim>\<open>a0\<close>, the user's registers are what they were but for \<^verbatim>\<open>a0\<close>.\<close>

theorem trap_round_trip:
  assumes "maps_trapframe tr (h_satp c) pa"
  shows "let k = uservec tr c; f = get_trapframe (h_mem c) pa in
    regs_of (get_trapframe (h_mem k) pa) = xr c \<and> tf_epc (get_trapframe (h_mem k) pa) = tf_epc f \<and>
    (\<forall>a. \<not> in_area pa 288 a \<longrightarrow> h_mem k a = h_mem c a) \<and>
    h_pc k = tf_kernel_trap f \<and> xr k SP = tf_kernel_sp f \<and> xr k TP = tf_kernel_hartid f \<and> h_satp k = tf_kernel_satp f \<and>
    (\<forall>d v. xr d A0 = h_satp c \<and> regs_of (get_trapframe (h_mem d) pa) = (xr c)(A0 := v) \<longrightarrow>
       xr (userret tr d) = (xr c)(A0 := v) \<and> h_satp (userret tr d) = h_satp c \<and> h_pc (userret tr d) = h_sepc d)"
proof -
  obtain m where m: "\<And>r. ld64 m (pa + of_nat (the (map_of ((A0, 112) # trap_regs) r))) = xr c r"
    "\<And>off. off mod 8 = 0 \<Longrightarrow> off < 40 \<Longrightarrow> ld64 m (pa + of_nat off) = ld64 (h_mem c) (pa + of_nat off)"
    "\<And>a. \<not> in_area pa 288 a \<Longrightarrow> m a = h_mem c a"
    "h_mem (uservec tr c) = m" "xr (uservec tr c) SP = ld64 m (pa + 8)" "xr (uservec tr c) TP = ld64 m (pa + 32)"
    "h_pc (uservec tr c) = ld64 m (pa + 16)" "h_satp (uservec tr c) = ld64 m pa"
    by (rule uservec_mem [OF assms]) blast
  have "regs_of (get_trapframe m pa) = xr c" using m(1) by (simp add: fun_eq_iff regs_frame)
  moreover have "ld64 m pa = ld64 (h_mem c) pa" "ld64 m (pa + 8) = ld64 (h_mem c) (pa + 8)" "ld64 m (pa + 16) = ld64 (h_mem c) (pa + 16)"
    "ld64 m (pa + 24) = ld64 (h_mem c) (pa + 24)" "ld64 m (pa + 32) = ld64 (h_mem c) (pa + 32)"
    using m(2) [of 0] m(2) [of 8] m(2) [of 16] m(2) [of 24] m(2) [of 32] by simp_all
  moreover have "xr (userret tr d) = (xr c)(A0 := v) \<and> h_satp (userret tr d) = h_satp c \<and> h_pc (userret tr d) = h_sepc d"
    if "xr d A0 = h_satp c" "regs_of (get_trapframe (h_mem d) pa) = (xr c)(A0 := v)" for d v
    using userret_regs [of tr d pa] that assms by simp
  ultimately show ?thesis using m(3-8) by (simp add: Let_def get_trapframe_def)
qed

section \<open>Context switches and traps in the kernel\<close>

definition apart :: "uint64 \<Rightarrow> nat \<Rightarrow> uint64 \<Rightarrow> nat \<Rightarrow> bool" where
  "apart p m q n \<longleftrightarrow> (\<forall>a. \<not> (in_area p m a \<and> in_area q n a))"

lemma swtch_slots: "slots swtch_regs" "distinct (map fst swtch_regs)" "map_of swtch_regs A1 = None" "\<forall>off \<in> snd ` set swtch_regs. off + 8 \<le> 112"
  by (simp_all add: slots_def swtch_regs_def)

lemma context_slots: "context_of (\<lambda>r. ld64 m (a + of_nat (the (map_of swtch_regs r)))) = get_context m a"
  by (simp add: context_of_def get_context_def swtch_regs_def)

lemma context_cong: "(\<And>r off. map_of swtch_regs r = Some off \<Longrightarrow> f r = g r) \<Longrightarrow> context_of f = context_of g"
  by (simp add: context_of_def swtch_regs_def)

lemma ld64_area:
  assumes "\<And>a. in_area p n a \<Longrightarrow> m a = m' a" "off + 8 \<le> n" "n \<le> 2 ^ 64"
  shows "ld64 m (p + of_nat off) = ld64 m' (p + of_nat off)"
  using slot_in [OF _ assms(2,3)] assms(1) by (intro ld64_cong) blast

lemma get_context_cong: "(\<And>a. in_area p 112 a \<Longrightarrow> m a = m' a) \<Longrightarrow> get_context m p = get_context m' p"
proof -
  assume eq: "\<And>a. in_area p 112 a \<Longrightarrow> m a = m' a"
  have "ld64 m (p + of_nat off) = ld64 m' (p + of_nat off)" if "map_of swtch_regs r = Some off" for r off
    using ld64_area [of p 112 m m' off] eq swtch_slots(4) map_of_SomeD [OF that] by (auto intro: rev_image_eqI)
  then show ?thesis unfolding context_slots [symmetric] by (intro context_cong) simp
qed

lemma swtch_effect:
  assumes "apart (xr c A0) 112 (xr c A1) 112"
  shows "get_context (h_mem (swtch c)) (xr c A0) = context_of (xr c)" "context_of (xr (swtch c)) = get_context (h_mem c) (xr c A1)"
    "h_pc (swtch c) = c_ra (get_context (h_mem c) (xr c A1))" "r \<notin> fst ` set swtch_regs \<Longrightarrow> xr (swtch c) r = xr c r"
    "\<not> in_area (xr c A0) 112 a \<Longrightarrow> h_mem (swtch c) a = h_mem c a"
proof -
  have "\<forall>off \<in> snd ` set swtch_regs. direct (h_satp c) (xr c A0 + of_nat off) = xr c A0 + of_nat off" by (simp add: direct_def)
  from sds_ok [where tr = direct and c = c and b = A0 and pa = "xr c A0", OF this swtch_slots(1)]
  obtain m where m: "sds direct swtch_regs A0 c = c\<lparr>h_mem := m\<rparr>"
    "\<forall>off. off mod 8 = 0 \<longrightarrow> off < 4096 \<longrightarrow> ld64 m (xr c A0 + of_nat off) =
       (case map_of (map (\<lambda>(r, off). (off, r)) swtch_regs) off of Some r \<Rightarrow> xr c r | None \<Rightarrow> ld64 (h_mem c) (xr c A0 + of_nat off))"
    "\<forall>a. (\<forall>off \<in> snd ` set swtch_regs. \<not> in_area (xr c A0 + of_nat off) 8 a) \<longrightarrow> m a = h_mem c a" by blast
  let ?d = "c\<lparr>h_mem := m\<rparr>"
  have "\<forall>off \<in> snd ` set swtch_regs. direct (h_satp ?d) (xr ?d A1 + of_nat off) = xr c A1 + of_nat off" by (simp add: direct_def)
  from lds_ok [where tr = direct and c = ?d and b = A1 and pa = "xr c A1", OF this swtch_slots(2)]
  have L: "lds direct swtch_regs A1 ?d = ?d\<lparr>xr := \<lambda>r. case map_of swtch_regs r of None \<Rightarrow> xr ?d r | Some off \<Rightarrow> ld64 (h_mem ?d) (xr c A1 + of_nat off)\<rparr>"
    using swtch_slots(3) by simp
  have S: "swtch c = jr RA (lds direct swtch_regs A1 ?d)" by (simp add: swtch_def m(1))
  have out: "m a = h_mem c a" if "\<not> in_area (xr c A0) 112 a" for a
    using m(3) slot_in [of "xr c A0" _ a 112] that swtch_slots(4) by fastforce
  have saved: "ld64 m (xr c A0 + of_nat off) = xr c r" if "map_of swtch_regs r = Some off" for r off
  proof -
    have s: "(r, off) \<in> set swtch_regs" by (rule map_of_SomeD [OF that])
    then have "off mod 8 = 0" "off < 4096" using swtch_slots(1) by (auto simp: slots_def)
    then show ?thesis using m(2) map_of_swap [OF _ s] swtch_slots(1) by (simp add: slots_def)
  qed
  have new: "get_context m (xr c A1) = get_context (h_mem c) (xr c A1)"
    using out assms by (intro get_context_cong) (auto simp: apart_def)
  show "get_context (h_mem (swtch c)) (xr c A0) = context_of (xr c)"
    unfolding S L context_slots [symmetric] using saved by (intro context_cong) (simp add: jr_def)
  have "context_of (xr (swtch c)) = get_context m (xr c A1)"
    unfolding S L context_slots [symmetric] by (intro context_cong) (simp add: jr_def)
  then show "context_of (xr (swtch c)) = get_context (h_mem c) (xr c A1)" unfolding new .
  show "h_pc (swtch c) = c_ra (get_context (h_mem c) (xr c A1))"
    unfolding S L new [symmetric] by (simp add: jr_def get_context_def swtch_regs_def)
  show "xr (swtch c) r = xr c r" if "r \<notin> fst ` set swtch_regs"
    using that unfolding S L map_of_eq_None_iff [symmetric] by (simp add: jr_def)
  show "h_mem (swtch c) a = h_mem c a" if "\<not> in_area (xr c A0) 112 a"
    unfolding S L using out [OF that] by (simp add: jr_def)
qed

text \<open>C9. \<^verbatim>\<open>swtch(old, new)\<close> saves the return address, the stack pointer and the callee-saved registers in \<^verbatim>\<open>old\<close>, takes those of \<^verbatim>\<open>new\<close> and
  returns where \<^verbatim>\<open>new\<close> was saved; it changes no other register and no other memory. A later switch back to \<^verbatim>\<open>old\<close>, with the saved context
  untouched in between, continues after this call with the same stack and callee-saved registers.\<close>

theorem swtch_resumes:
  assumes "apart (xr c A0) 112 (xr c A1) 112"
  shows "let k = swtch c in
    get_context (h_mem k) (xr c A0) = context_of (xr c) \<and> context_of (xr k) = get_context (h_mem c) (xr c A1) \<and>
    h_pc k = c_ra (get_context (h_mem c) (xr c A1)) \<and> (\<forall>r. r \<notin> fst ` set swtch_regs \<longrightarrow> xr k r = xr c r) \<and>
    (\<forall>a. \<not> in_area (xr c A0) 112 a \<longrightarrow> h_mem k a = h_mem c a) \<and>
    (\<forall>d. xr d A1 = xr c A0 \<and> apart (xr d A0) 112 (xr d A1) 112 \<and> (\<forall>a. in_area (xr c A0) 112 a \<longrightarrow> h_mem d a = h_mem k a) \<longrightarrow>
       context_of (xr (swtch d)) = context_of (xr c) \<and> h_pc (swtch d) = xr c RA)"
proof -
  note e = swtch_effect [OF assms]
  have "context_of (xr (swtch d)) = context_of (xr c) \<and> h_pc (swtch d) = xr c RA"
    if "xr d A1 = xr c A0" "apart (xr d A0) 112 (xr d A1) 112" "\<forall>a. in_area (xr c A0) 112 a \<longrightarrow> h_mem d a = h_mem (swtch c) a" for d
  proof -
    have "get_context (h_mem d) (xr c A0) = context_of (xr c)" using get_context_cong [of "xr c A0" "h_mem d" "h_mem (swtch c)"] that(3) e(1) by simp
    then show ?thesis using swtch_effect(2,3) [OF that(2)] that(1) by (simp add: context_of_def)
  qed
  then show ?thesis unfolding Let_def using e by blast
qed

lemma kernelvec_slots: "slots kernelvec_regs" "distinct (map fst kernelvec_regs)" "\<forall>off \<in> snd ` set kernelvec_regs. off + 8 \<le> 256"
  by (simp_all add: slots_def kernelvec_regs_def)

text \<open>C10. An interrupt or exception in the kernel is invisible to the code it interrupts: if the C handler, as compiled code does, returns with the
  stack pointer it was called with and does not write into the 256 bytes \<^verbatim>\<open>kernelvec\<close> has pushed, every register but \<^verbatim>\<open>tp\<close> is
  restored, the stack pointer included although it is reloaded from the stack it points to. \<^verbatim>\<open>tp\<close> keeps the handler's value, the hart the
  process then runs on, and execution goes on at \<^verbatim>\<open>sepc\<close>.\<close>

theorem kernelvec_restores:
  assumes "\<And>e. xr (kerneltrap e) SP = xr e SP" "\<And>e a. in_area (xr e SP) 256 a \<Longrightarrow> h_mem (kerneltrap e) a = h_mem e a"
  shows "\<exists>e. xr e SP = xr c SP - 256 \<and> kernelvec kerneltrap c = (kerneltrap e)\<lparr>xr := (xr c)(TP := xr (kerneltrap e) TP),
      h_pc := h_sepc (kerneltrap e), h_mode := h_mode (sret (kerneltrap e))\<rparr>"
proof -
  let ?c = "wx SP (xr c SP - 256) c" and ?sp = "xr c SP - 256"
  have "\<forall>off \<in> snd ` set kernelvec_regs. direct (h_satp ?c) (xr ?c SP + of_nat off) = ?sp + of_nat off" by (simp add: direct_def wx_def)
  from sds_ok [where tr = direct and c = ?c and b = SP and pa = ?sp, OF this kernelvec_slots(1)]
  obtain m where m: "sds direct kernelvec_regs SP ?c = ?c\<lparr>h_mem := m\<rparr>"
    "\<forall>off. off mod 8 = 0 \<longrightarrow> off < 4096 \<longrightarrow> ld64 m (?sp + of_nat off) =
       (case map_of (map (\<lambda>(r, off). (off, r)) kernelvec_regs) off of Some r \<Rightarrow> xr ?c r | None \<Rightarrow> ld64 (h_mem ?c) (?sp + of_nat off))"
    by blast
  define e where "e = ?c\<lparr>h_mem := m\<rparr>"
  let ?L = "filter (\<lambda>(r, _). r \<noteq> TP) kernelvec_regs"
  have sp: "xr e SP = ?sp" "h_mem e = m" by (simp_all add: wx_def e_def)
  have saved: "ld64 (h_mem (kerneltrap e)) (?sp + of_nat off) = xr ?c r" if "(r, off) \<in> set kernelvec_regs" for r off
  proof -
    have "off mod 8 = 0" "off < 4096" "off + 8 \<le> 256"
      using kernelvec_slots(1,3) that by (auto simp: slots_def intro: rev_image_eqI)
    then have "ld64 m (?sp + of_nat off) = xr ?c r" using m(2) map_of_swap [OF _ that] kernelvec_slots(1) by (simp add: slots_def)
    moreover have "ld64 (h_mem (kerneltrap e)) (?sp + of_nat off) = ld64 m (?sp + of_nat off)"
      using ld64_area [of ?sp 256 "h_mem (kerneltrap e)" m off] assms(2) [of e] \<open>off + 8 \<le> 256\<close> sp by simp
    ultimately show ?thesis by simp
  qed
  have L: "lds direct ?L SP (kerneltrap e) = (kerneltrap e)\<lparr>xr := \<lambda>r. case map_of ?L r of None \<Rightarrow> xr (kerneltrap e) r
      | Some off \<Rightarrow> ld64 (h_mem (kerneltrap e)) (?sp + of_nat off)\<rparr>"
  proof (rule lds_ok)
    show "\<forall>off \<in> snd ` set ?L. direct (h_satp (kerneltrap e)) (xr (kerneltrap e) SP + of_nat off) = ?sp + of_nat off"
      using assms(1) [of e] sp(1) by (simp add: direct_def)
    show "distinct (map fst ?L)" by (simp add: kernelvec_regs_def)
    show "\<forall>off. map_of ?L SP = Some off \<longrightarrow> ld64 (h_mem (kerneltrap e)) (?sp + of_nat off) = xr (kerneltrap e) SP"
      using saved [of SP 8] assms(1) [of e] sp(1) by (simp add: kernelvec_regs_def wx_def)
  qed
  have K: "kernelvec kerneltrap c = (let k = lds direct ?L SP (kerneltrap e) in sret (wx SP (xr k SP + 256) k))"
    by (simp add: kernelvec_def Let_def m(1) e_def)
  have all: "\<exists>off. map_of ?L r = Some off \<and> (r, off) \<in> set kernelvec_regs" if "r \<noteq> TP" for r
    using that by (cases r) (simp_all add: kernelvec_regs_def)
  have "xr (kernelvec kerneltrap c) r = ((xr c)(TP := xr (kerneltrap e) TP)) r" for r
  proof (cases "r = TP")
    case True
    then show ?thesis unfolding K L by (simp add: Let_def wx_def sret_def kernelvec_regs_def)
  next
    case False
    then obtain off where "map_of ?L r = Some off" "ld64 (h_mem (kerneltrap e)) (?sp + of_nat off) = xr ?c r" using all saved by blast
    then show ?thesis using False unfolding K L by (cases "r = SP") (simp_all add: Let_def wx_def sret_def)
  qed
  then have "xr (kernelvec kerneltrap c) = (xr c)(TP := xr (kerneltrap e) TP)" by (rule ext)
  moreover have "kernelvec kerneltrap c = (kerneltrap e)\<lparr>xr := xr (kernelvec kerneltrap c), h_pc := h_sepc (kerneltrap e),
      h_mode := h_mode (sret (kerneltrap e))\<rparr>"
    unfolding K L by (simp add: Let_def wx_def sret_def)
  ultimately show ?thesis using sp(1) by (intro exI [of _ e]) simp
qed

text \<open>C34. The machine-mode timer interrupt is invisible to whatever runs: with the scratch area \<^verbatim>\<open>timerinit\<close> prepares, \<^verbatim>\<open>timervec\<close> preserves every
  register, moves the compare register on by the interval, raises a supervisor software interrupt, and returns to where the hart was.\<close>

theorem timervec_transparent:
  assumes "apart (h_mscratch c) 40 (ld64 (h_mem c) (h_mscratch c + 24)) 8"
  shows "let k = timervec c; cmp = ld64 (h_mem c) (h_mscratch c + 24) in
    xr k = xr c \<and> h_mscratch k = h_mscratch c \<and> h_sip k = 2 \<and> h_pc k = h_mepc c \<and>
    ld64 (h_mem k) cmp = ld64 (h_mem c) cmp + ld64 (h_mem c) (h_mscratch c + 32)"
proof -
  let ?p = "h_mscratch c" and ?cmp = "ld64 (h_mem c) (h_mscratch c + 24)"
  define m where "m = st64 (st64 (st64 (h_mem c) (?p + of_nat 0) (xr c A1)) (?p + of_nat 8) (xr c A2)) (?p + of_nat 16) (xr c A3)"
  have slot: "ld64 (st64 m' (?p + of_nat i) v) (?p + of_nat j) = (if j = i then v else ld64 m' (?p + of_nat j))"
    if "i mod 8 = 0" "j mod 8 = 0" "i < 4096" "j < 4096" for i j m' v by (rule ld64_slot [OF that])
  have m: "ld64 m ?p = xr c A1" "ld64 m (?p + 8) = xr c A2" "ld64 m (?p + 16) = xr c A3"
    "ld64 m (?p + 24) = ld64 (h_mem c) (?p + 24)" "ld64 m (?p + 32) = ld64 (h_mem c) (?p + 32)"
    unfolding m_def using slot [of 8 0, simplified] slot [of 16 0, simplified] slot [of 16 8, simplified] slot [of 0 24, simplified]
      slot [of 8 24, simplified] slot [of 16 24, simplified] slot [of 0 32, simplified] slot [of 8 32, simplified] slot [of 16 32, simplified]
    by simp_all
  have cmp: "\<not> in_area (?p + of_nat off) 8 a" if "in_area ?cmp 8 a" "off + 8 \<le> 40" for off a
    using assms slot_in [OF _ that(2), of ?p a] that(1) by (auto simp: apart_def)
  have old: "ld64 m ?cmp = ld64 (h_mem c) ?cmp"
    unfolding m_def using cmp [of _ 0] cmp [of _ 8] cmp [of _ 16] by (intro ld64_cong) (simp del: of_nat_numeral of_nat_0)
  have new: "ld64 (st64 m ?cmp v) (?p + of_nat off) = ld64 m (?p + of_nat off)" if "off + 8 \<le> 40" for off v
    using cmp [OF _ that] by (intro ld64_cong st64_outside) blast
  have "m = st64 (st64 (st64 (h_mem c) ?p (xr c A1)) (?p + 8) (xr c A2)) (?p + 16) (xr c A3)" by (simp add: m_def)
  moreover note m old new [of 0, simplified] new [of 8, simplified] new [of 16, simplified]
  ultimately show ?thesis
    by (simp add: timervec_def csrrw_mscratch_def sds_def lds_def sd_def ld_def wx_def mret_def direct_def Let_def)
qed


section \<open>A hart\<close>

definition hart0 :: hart where
  "hart0 = \<lparr>xr = (\<lambda>_. 0)(A0 := 0x1000, A1 := 0x2000, SP := 0x9000, S3 := 5), h_mem = (\<lambda>_. 0), h_pc = 0, h_mode = Supervisor, h_satp = 1,
     h_sscratch = 0, h_sepc = 0x80, h_sstatus = 0, h_sie = 0, h_sip = 0, h_mhartid = 0, h_mstatus = 0, h_mepc = 0x90, h_mscratch = 0x3000,
     h_mtvec = 0, h_mie = 0, h_medeleg = 0, h_mideleg = 0, h_pmpaddr0 = 0, h_pmpcfg0 = 0\<rparr>"

lemma apart_far:
  assumes "unat p + m \<le> unat q" "unat q + n \<le> 2 ^ 64"
  shows "apart p m q n"
proof -
  have False if "in_area p m a" "in_area q n a" for a
  proof -
    have "unat a = unat p + unat (a - p)" "unat a = unat q + unat (a - q)"
      using that assms by (auto simp: in_area_def unat_plus_if' unat_sub_if_size word_size split: if_splits)
    then show False using that assms(1) by (simp add: in_area_def)
  qed
  then show ?thesis by (auto simp: apart_def)
qed

lemma ld64_zero: "ld64 (\<lambda>_. 0) a = 0"
  by (simp add: ld64_def load_bytes_def numeral_eq_Suc)

theorem trap_round_trip_witness:
  "let tr = (\<lambda>_ a. 0x5000 + (a - TRAPFRAME)) in
   maps_trapframe tr (h_satp hart0) 0x5000 \<and> regs_of (get_trapframe (h_mem (uservec tr hart0)) 0x5000) = xr hart0"
proof -
  have "maps_trapframe (\<lambda>_ a. 0x5000 + (a - TRAPFRAME)) (h_satp hart0) 0x5000" by (simp add: maps_trapframe_def)
  with trap_round_trip [OF this] show ?thesis by (simp add: Let_def)
qed

theorem swtch_resumes_witness:
  "apart (xr hart0 A0) 112 (xr hart0 A1) 112 \<and> c_s3 (get_context (h_mem (swtch hart0)) 0x1000) = 5"
proof -
  have "apart (xr hart0 A0) 112 (xr hart0 A1) 112" by (rule apart_far) (simp_all add: hart0_def)
  with swtch_resumes [OF this] show ?thesis by (simp add: Let_def) (simp add: hart0_def context_of_def)
qed

theorem kernelvec_restores_witness: "xr (kernelvec (\<lambda>e. wx TP 3 (wx T0 7 e)) hart0) = (xr hart0)(TP := 3)"
proof -
  have "xr (wx TP 3 (wx T0 7 e)) SP = xr e SP" "in_area (xr e SP) 256 a \<Longrightarrow> h_mem (wx TP 3 (wx T0 7 e)) a = h_mem e a" for e a
    by (simp_all add: wx_def)
  with kernelvec_restores [of "\<lambda>e. wx TP 3 (wx T0 7 e)" hart0] show ?thesis by (auto simp: wx_def)
qed

theorem timervec_transparent_witness: "xr (timervec hart0) = xr hart0 \<and> h_sip (timervec hart0) = 2"
proof -
  have "apart 0 8 (h_mscratch hart0) 40" by (rule apart_far) (simp_all add: hart0_def)
  then have "apart (h_mscratch hart0) 40 (ld64 (h_mem hart0) (h_mscratch hart0 + 24)) 8" by (auto simp: apart_def hart0_def ld64_zero)
  with timervec_transparent [OF this] show ?thesis by (simp add: Let_def)
qed

end
