(* ===== verification/Grep.thy ===== *)
theory Grep
  imports Prelude
begin

text \<open>
  \<^verbatim>\<open>user/grep.c\<close>: the pattern matcher, the loop that cuts the input into lines, and \<^verbatim>\<open>main\<close>. Patterns and lines are byte lists without the
  terminating zero. \<^verbatim>\<open>read\<close> and \<^verbatim>\<open>open\<close> are arguments; \<open>rd n f\<close> is what reading at most \<open>n\<close> bytes from the file \<open>f\<close> gives, and the file
  afterwards.
\<close>

section \<open>The matcher\<close>

abbreviation caret :: byte where "caret \<equiv> 94"
abbreviation dot :: byte where "dot \<equiv> 46"
abbreviation star :: byte where "star \<equiv> 42"
abbreviation dollar :: byte where "dollar \<equiv> 36"

function matchhere :: "byte list \<Rightarrow> byte list \<Rightarrow> bool" and matchstar :: "byte \<Rightarrow> byte list \<Rightarrow> byte list \<Rightarrow> bool" where
  "matchhere re tx =
     (case re of
        [] \<Rightarrow> True
      | c # re1 \<Rightarrow>
          if re1 \<noteq> [] \<and> hd re1 = star then matchstar c (tl re1) tx
          else if c = dollar \<and> re1 = [] then tx = []
          else if tx \<noteq> [] \<and> (c = dot \<or> c = hd tx) then matchhere re1 (tl tx)
          else False)"
| "matchstar c re tx =
     (if matchhere re tx then True
      else if tx \<noteq> [] \<and> (hd tx = c \<or> c = dot) then matchstar c re (tl tx)
      else False)"
  by pat_completeness auto
termination
  by (relation "measures [\<lambda>x. case x of Inl (re, _) \<Rightarrow> length re | Inr (_, re, _) \<Rightarrow> length re,
        \<lambda>x. case x of Inl (_, tx) \<Rightarrow> length tx | Inr (_, _, tx) \<Rightarrow> length tx,
        \<lambda>x. case x of Inl _ \<Rightarrow> 0 | Inr _ \<Rightarrow> 1]") auto

declare matchhere.simps [simp del] matchstar.simps [simp del]

fun match_from :: "byte list \<Rightarrow> byte list \<Rightarrow> bool" where
  "match_from re [] = matchhere re []"
| "match_from re (c # tx) = (if matchhere re (c # tx) then True else match_from re tx)"

definition match :: "byte list \<Rightarrow> byte list \<Rightarrow> bool" where
  "match re tx = (if re \<noteq> [] \<and> hd re = caret then matchhere (tl re) tx else match_from re tx)"

section \<open>Lines\<close>

text \<open>
  The inner loop on the bytes \<open>p\<close> of the buffer from \<^verbatim>\<open>p\<close> to its end: what it writes, and the bytes after the last newline.
  \<^verbatim>\<open>strchr\<close> stops at a zero.
\<close>

function scan :: "byte list \<Rightarrow> byte list \<Rightarrow> byte list \<times> byte list" where
  "scan pattern p =
     (if 10 \<in> set (takeWhile (\<lambda>b. b \<noteq> 0) p) then
        let line = takeWhile (\<lambda>b. b \<noteq> 10) p;
            (out, rest) = scan pattern (drop (length line + 1) p)
        in ((if match pattern line then line @ [10] else []) @ out, rest)
      else ([], p))"
  by auto
termination
proof (relation "measure (\<lambda>(_, p). length p)")
  fix pattern p line
  assume "10 \<in> set (takeWhile (\<lambda>b. b \<noteq> 0) p)" "line = takeWhile (\<lambda>b. b \<noteq> (10 :: byte)) p"
  then have "p \<noteq> []" by auto
  then show "((pattern, drop (length line + 1) p), (pattern, p)) \<in> measure (\<lambda>(_, p). length p)" by (cases p) auto
qed simp

declare scan.simps [simp del]

text \<open>The loop of \<^verbatim>\<open>grep\<close>: \<open>b\<close> are the bytes in the buffer, \<open>out\<close> what has been written.\<close>

partial_function (option) grep_loop ::
  "(nat \<Rightarrow> 'f \<Rightarrow> byte list \<times> 'f) \<Rightarrow> byte list \<Rightarrow> byte list \<Rightarrow> byte list \<Rightarrow> 'f \<Rightarrow> (byte list \<times> 'f) option" where
  "grep_loop rd pattern b out f =
     (let (bs, f) = rd (1024 - length b - 1) f in
      if bs = [] then Some (out, f)
      else let (o1, rest) = scan pattern (b @ bs) in grep_loop rd pattern rest (out @ o1) f)"

definition grep :: "(nat \<Rightarrow> 'f \<Rightarrow> byte list \<times> 'f) \<Rightarrow> byte list \<Rightarrow> 'f \<Rightarrow> (byte list \<times> 'f) option" where
  "grep rd pattern f = grep_loop rd pattern [] [] f"

text \<open>\<^verbatim>\<open>main\<close>: what is written on the two output descriptors, in order, and the exit status.\<close>

definition bytes :: "string \<Rightarrow> byte list" where
  "bytes t = map (\<lambda>c. of_nat (of_char c)) t"

fun grep_files ::
  "(byte list \<Rightarrow> 'f option) \<Rightarrow> (nat \<Rightarrow> 'f \<Rightarrow> byte list \<times> 'f) \<Rightarrow> byte list \<Rightarrow> byte list list \<Rightarrow> (byte list \<times> nat) option" where
  "grep_files opn rd pattern [] = Some ([], 0)"
| "grep_files opn rd pattern (a # as) =
     (case opn a of
        None \<Rightarrow> Some (bytes ''grep: cannot open '' @ a @ [10], 1)
      | Some f \<Rightarrow>
          (case grep rd pattern f of
             None \<Rightarrow> None
           | Some (out, _) \<Rightarrow> map_option (\<lambda>(out', st). (out @ out', st)) (grep_files opn rd pattern as)))"

definition grep_main ::
  "(byte list \<Rightarrow> 'f option) \<Rightarrow> (nat \<Rightarrow> 'f \<Rightarrow> byte list \<times> 'f) \<Rightarrow> 'f \<Rightarrow> byte list list \<Rightarrow> (byte list \<times> nat) option" where
  "grep_main opn rd stdin argv =
     (if length argv \<le> 1 then Some (bytes ''usage: grep pattern [file ...]'' @ [10], 1)
      else if length argv \<le> 2 then map_option (\<lambda>(out, _). (out, 0)) (grep rd (argv ! 1) stdin)
      else grep_files opn rd (argv ! 1) (drop 2 argv))"

section \<open>What a pattern means\<close>

datatype item = One byte | Star byte | End

fun parse :: "byte list \<Rightarrow> item list" where
  "parse [] = []"
| "parse [c] = (if c = dollar then [End] else [One c])"
| "parse (c # d # re) = (if d = star then Star c # parse re else One c # parse (d # re))"

abbreviation fits :: "byte \<Rightarrow> byte \<Rightarrow> bool" where
  "fits c b \<equiv> c = dot \<or> c = b"

text \<open>\<open>sem is w r\<close>: the items match \<open>w\<close> where \<open>r\<close> is the rest of the line.\<close>

inductive sem :: "item list \<Rightarrow> byte list \<Rightarrow> byte list \<Rightarrow> bool" where
  sem_Nil: "sem [] [] r"
| sem_One: "fits c b \<Longrightarrow> sem is w r \<Longrightarrow> sem (One c # is) (b # w) r"
| sem_Star: "(\<And>b. b \<in> set u \<Longrightarrow> fits c b) \<Longrightarrow> sem is w r \<Longrightarrow> sem (Star c # is) (u @ w) r"
| sem_End: "sem [End] [] []"

inductive_cases sem_NilE: "sem [] w r"
inductive_cases sem_OneE: "sem (One c # is) w r"
inductive_cases sem_StarE: "sem (Star c # is) w r"
inductive_cases sem_EndE: "sem [End] w r"

definition here :: "item list \<Rightarrow> byte list \<Rightarrow> bool" where
  "here is tx \<longleftrightarrow> (\<exists>w r. tx = w @ r \<and> sem is w r)"

lemma here_Nil: "here [] tx"
  unfolding here_def by (intro exI [of _ "[]"] exI [of _ tx]) (simp add: sem_Nil)

lemma here_End: "here [End] tx \<longleftrightarrow> tx = []"
  unfolding here_def by (auto elim: sem_EndE intro: sem_End)

lemma here_One: "here (One c # is) tx \<longleftrightarrow> tx \<noteq> [] \<and> fits c (hd tx) \<and> here is (tl tx)"
proof
  assume "here (One c # is) tx"
  then show "tx \<noteq> [] \<and> fits c (hd tx) \<and> here is (tl tx)" unfolding here_def by (fastforce elim: sem_OneE)
next
  assume a: "tx \<noteq> [] \<and> fits c (hd tx) \<and> here is (tl tx)"
  then obtain w r where "tl tx = w @ r" "sem is w r" unfolding here_def by blast
  then have "tx = (hd tx # w) @ r" "sem (One c # is) (hd tx # w) r" using a by (simp_all add: sem_One) (metis list.collapse)
  then show "here (One c # is) tx" unfolding here_def by blast
qed

lemma here_Star: "here (Star c # is) tx \<longleftrightarrow> here is tx \<or> tx \<noteq> [] \<and> fits c (hd tx) \<and> here (Star c # is) (tl tx)"
proof
  assume "here (Star c # is) tx"
  then obtain w r where t: "tx = w @ r" and s: "sem (Star c # is) w r" unfolding here_def by blast
  from s obtain u w' where 1: "w = u @ w'" "\<And>b. b \<in> set u \<Longrightarrow> fits c b" "sem is w' r" by (auto elim: sem_StarE)
  show "here is tx \<or> tx \<noteq> [] \<and> fits c (hd tx) \<and> here (Star c # is) (tl tx)"
  proof (cases u)
    case Nil
    then show ?thesis using 1 t unfolding here_def by auto
  next
    case (Cons b u')
    then have "sem (Star c # is) (u' @ w') r" using 1 by (intro sem_Star) auto
    moreover have "fits c b" using 1(2) [of b] Cons by simp
    ultimately show ?thesis using 1(1) t Cons unfolding here_def by auto
  qed
next
  assume "here is tx \<or> tx \<noteq> [] \<and> fits c (hd tx) \<and> here (Star c # is) (tl tx)"
  then show "here (Star c # is) tx"
  proof
    assume "here is tx"
    then show ?thesis unfolding here_def using sem_Star [of "[]" c "is"] by fastforce
  next
    assume a: "tx \<noteq> [] \<and> fits c (hd tx) \<and> here (Star c # is) (tl tx)"
    then obtain w r where w: "tl tx = w @ r" "sem (Star c # is) w r" unfolding here_def by blast
    from w(2) obtain u w' where u: "w = u @ w'" "\<And>b. b \<in> set u \<Longrightarrow> fits c b" "sem is w' r" by (auto elim: sem_StarE)
    have "sem (Star c # is) ((hd tx # u) @ w') r" using u a by (intro sem_Star) auto
    moreover have "tx = ((hd tx # u) @ w') @ r" using w(1) u(1) a by (metis append_Cons append_assoc list.collapse)
    ultimately show ?thesis unfolding here_def by blast
  qed
qed

lemma matchstar_here:
  assumes "\<And>t. matchhere re t = here is t"
  shows "matchstar c re tx = here (Star c # is) tx"
proof (induction tx)
  case Nil
  show ?case by (subst matchstar.simps, subst here_Star) (simp add: assms)
next
  case (Cons b tx)
  then show ?case by (subst matchstar.simps, subst here_Star) (auto simp: assms)
qed

lemma matchhere_here: "matchhere re tx = here (parse re) tx"
proof (induction re arbitrary: tx rule: parse.induct)
  case 1
  show ?case by (subst matchhere.simps) (simp add: here_Nil)
next
  case (2 c)
  show ?case by (subst matchhere.simps) (auto simp: here_End here_One here_Nil matchhere.simps [of "[]"])
next
  case (3 c d re)
  show ?case
  proof (cases "d = star")
    case True
    then show ?thesis using matchstar_here [OF 3(1)] by (subst matchhere.simps) simp
  next
    case False
    then show ?thesis using 3(2) by (subst matchhere.simps) (simp add: here_One)
  qed
qed

text \<open>C36. The matcher decides what the pattern language says: \<^verbatim>\<open>^\<close> at the start ties the match to the start of the line, \<^verbatim>\<open>$\<close> at the end to
  its end, \<^verbatim>\<open>.\<close> stands for any character, \<^verbatim>\<open>c*\<close> for any number of \<^verbatim>\<open>c\<close>s, and any other character for itself; without \<^verbatim>\<open>^\<close> the match
  may start anywhere. The recursion ends on every pattern and line.\<close>

theorem match_decides:
  "match re tx \<longleftrightarrow>
   (if re \<noteq> [] \<and> hd re = caret then \<exists>w r. tx = w @ r \<and> sem (parse (tl re)) w r
    else \<exists>u w r. tx = u @ w @ r \<and> sem (parse re) w r)"
proof -
  have "match_from re tx \<longleftrightarrow> (\<exists>u v. tx = u @ v \<and> here (parse re) v)"
  proof (induction tx)
    case (Cons b tx)
    have "(\<exists>u v. b # tx = u @ v \<and> here (parse re) v) \<longleftrightarrow> here (parse re) (b # tx) \<or> (\<exists>u v. tx = u @ v \<and> here (parse re) v)"
      by (auto simp: Cons_eq_append_conv)
    then show ?case using Cons by (simp add: matchhere_here)
  qed (simp add: matchhere_here)
  then have "match_from re tx \<longleftrightarrow> (\<exists>u w r. tx = u @ w @ r \<and> sem (parse re) w r)" unfolding here_def by blast
  then show ?thesis unfolding match_def matchhere_here here_def
    by (cases "re \<noteq> [] \<and> hd re = caret") (simp_all only: if_True if_False)
qed

section \<open>What grep prints\<close>

text \<open>The complete lines of a text, and what follows the last newline.\<close>

fun cut_lines :: "byte list \<Rightarrow> byte list list \<times> byte list" where
  "cut_lines [] = ([], [])"
| "cut_lines (b # bs) =
     (let (ls, r) = cut_lines bs in
      if b = 10 then ([] # ls, r) else (case ls of [] \<Rightarrow> ([], b # r) | l # ls \<Rightarrow> ((b # l) # ls, r)))"

definition printed :: "byte list \<Rightarrow> byte list list \<Rightarrow> byte list" where
  "printed pattern ls = concat (map (\<lambda>l. l @ [10]) (filter (match pattern) ls))"

lemma printed_append: "printed pattern (ls @ ms) = printed pattern ls @ printed pattern ms"
  by (simp add: printed_def)

lemma cut_no_newline: "10 \<notin> set p \<Longrightarrow> cut_lines p = ([], p)"
  by (induction p) auto

lemma cut_newline: "10 \<notin> set l \<Longrightarrow> cut_lines (l @ 10 # p) = (l # fst (cut_lines p), snd (cut_lines p))"
  by (induction l) (auto simp: split_beta)

lemma cut_append: "cut_lines (a @ b) = (fst (cut_lines a) @ fst (cut_lines (snd (cut_lines a) @ b)), snd (cut_lines (snd (cut_lines a) @ b)))"
proof (induction a)
  case (Cons x a)
  then show ?case by (auto simp: split_beta split: list.splits)
qed simp

lemma cut_prefix:
  "10 \<notin> set b \<Longrightarrow> cut_lines (b @ p) = (case fst (cut_lines p) of [] \<Rightarrow> ([], b @ snd (cut_lines p)) | l # ls \<Rightarrow> ((b @ l) # ls, snd (cut_lines p)))"
  by (induction b) (auto simp: split_beta prod_eq_iff split: list.splits)

lemma cut_rest: "10 \<notin> set (snd (cut_lines p))" "set (snd (cut_lines p)) \<subseteq> set p"
  by (induction p) (auto simp: split_beta split: list.splits)

lemma scan_cut: "0 \<notin> set p \<Longrightarrow> scan pattern p = (printed pattern (fst (cut_lines p)), snd (cut_lines p))"
proof (induction "length p" arbitrary: p rule: less_induct)
  case less
  have z: "takeWhile (\<lambda>b. b \<noteq> 0) p = p" using less.prems by (auto simp: takeWhile_eq_all_conv)
  show ?case
  proof (cases "10 \<in> set p")
    case False
    then show ?thesis by (subst scan.simps) (simp add: z cut_no_newline printed_def)
  next
    case True
    then obtain l q where p: "p = l @ 10 # q" "10 \<notin> set l" by (meson split_list_first)
    then have "takeWhile (\<lambda>b. b \<noteq> 10) p = l" by (auto simp: takeWhile_append)
    moreover have "scan pattern q = (printed pattern (fst (cut_lines q)), snd (cut_lines q))" using p less.prems by (intro less.hyps) auto
    ultimately show ?thesis using True p by (subst scan.simps) (simp add: z [unfolded p(1)] cut_newline printed_def)
  qed
qed

text \<open>\<open>left f\<close> is what is still to be read: a read takes some of it off the front, and nothing only at the end.\<close>

definition reader_ok :: "(nat \<Rightarrow> 'f \<Rightarrow> byte list \<times> 'f) \<Rightarrow> ('f \<Rightarrow> byte list) \<Rightarrow> bool" where
  "reader_ok rd left \<longleftrightarrow> (\<forall>n f. left f = fst (rd n f) @ left (snd (rd n f)) \<and> length (fst (rd n f)) \<le> n \<and>
     (fst (rd n f) = [] \<longrightarrow> n = 0 \<or> left f = []))"

definition short_lines :: "byte list \<Rightarrow> bool" where
  "short_lines p \<longleftrightarrow> (\<forall>l \<in> set (fst (cut_lines p)) \<union> {snd (cut_lines p)}. length l < 1023)"

lemma grep_loop_ok:
  assumes "reader_ok rd left" "0 \<notin> set (b @ left f)" "short_lines (b @ left f)" "10 \<notin> set b"
  shows "\<exists>f'. grep_loop rd pattern b out f = Some (out @ printed pattern (fst (cut_lines (b @ left f))), f')"
  using assms(2-4)
proof (induction "length (left f)" arbitrary: b out f rule: less_induct)
  case less
  obtain bs f1 where rd: "rd (1024 - length b - 1) f = (bs, f1)" by (cases "rd (1024 - length b - 1) f")
  have r: "left f = bs @ left f1" "bs = [] \<Longrightarrow> 1024 - length b - 1 = 0 \<or> left f = []"
    using assms(1) rd unfolding reader_ok_def by (metis fst_conv snd_conv)+
  show ?case
  proof (cases "bs = []")
    case True
    have "length b < 1023" using less.prems(2,3) cut_prefix [of b "left f"] by (auto simp: short_lines_def split: list.splits)
    then have "left f = []" using r(2) True by simp
    then show ?thesis using True rd less.prems(3) by (subst grep_loop.simps) (simp add: cut_no_newline printed_def)
  next
    case False
    let ?rest = "snd (cut_lines (b @ bs))"
    have sc: "scan pattern (b @ bs) = (printed pattern (fst (cut_lines (b @ bs))), ?rest)" using less.prems(1) r(1) by (intro scan_cut) auto
    have c: "cut_lines (b @ left f) = (fst (cut_lines (b @ bs)) @ fst (cut_lines (?rest @ left f1)), snd (cut_lines (?rest @ left f1)))"
      using cut_append [of "b @ bs" "left f1"] r(1) by simp
    have "length (left f1) < length (left f)" using r(1) False by simp
    moreover have "0 \<notin> set (?rest @ left f1)" using less.prems(1) r(1) cut_rest(2) [of "b @ bs"] by auto
    moreover have "short_lines (?rest @ left f1)" using less.prems(2) c by (auto simp: short_lines_def)
    moreover have "10 \<notin> set ?rest" by (rule cut_rest(1))
    ultimately obtain f' where "grep_loop rd pattern ?rest (out @ printed pattern (fst (cut_lines (b @ bs)))) f1 =
        Some ((out @ printed pattern (fst (cut_lines (b @ bs)))) @ printed pattern (fst (cut_lines (?rest @ left f1))), f')"
      using less.hyps by blast
    then show ?thesis using False rd sc c by (subst grep_loop.simps) (simp add: printed_append)
  qed
qed

text \<open>C37. \<^verbatim>\<open>grep\<close> ends on every input that ends, and writes exactly the lines that match, in order and with their newlines, however the
  input arrives in pieces, if no line is too long for its buffer and there are no zero bytes. What follows the last newline is not looked at.\<close>

theorem grep_prints_matching:
  assumes "reader_ok rd left" "0 \<notin> set (left f)" "short_lines (left f)"
  shows "\<exists>f'. grep rd pattern f = Some (concat (map (\<lambda>l. l @ [10]) (filter (match pattern) (fst (cut_lines (left f))))), f')"
  using grep_loop_ok [OF assms(1), of "[]" f pattern "[]"] assms(2,3) by (simp add: grep_def printed_def)

definition file_rd :: "nat \<Rightarrow> byte list \<Rightarrow> byte list \<times> byte list" where
  "file_rd n f = (take n f, drop n f)"

theorem grep_prints_matching_witness:
  "\<exists>f'. grep file_rd [97, 42, 98] [97, 98, 10, 99, 10, 98] = Some ([97, 98, 10], f')"
proof -
  have "reader_ok file_rd (\<lambda>f. f)" by (auto simp: reader_ok_def file_rd_def)
  moreover have "(0 :: byte) \<notin> set [97, 98, 10, 99, 10, 98]" "short_lines [97, 98, 10, 99, 10, 98]" by (simp_all add: short_lines_def)
  moreover have "match [97, 42, 98] [97, 98]" "\<not> match [97, 42, 98] [99]"
    by (simp_all add: match_def matchhere.simps matchstar.simps)
  ultimately show ?thesis using grep_prints_matching [of file_rd "\<lambda>f. f" "[97, 98, 10, 99, 10, 98]" "[97, 42, 98]"] by simp
qed

end
