(* ===== verification/Fsprops.thy ===== *)
theory Fsprops
  imports Fs
begin

text \<open>
  Properties of the parts of \<^verbatim>\<open>kernel/fs.c\<close> below whole files: the table of inodes counts references, the bitmap is a set of
  blocks, an inode written to its block is the inode read back, and path names split into their elements.
\<close>

section \<open>The inode table\<close>

abbreviation entry_for :: "uint32 \<Rightarrow> uint32 \<Rightarrow> inode \<Rightarrow> bool" where
  "entry_for dev inum n \<equiv> i_ref n > 0 \<and> i_dev n = dev \<and> i_inum n = inum"

text \<open>At most one entry in use for an inode, and no negative count.\<close>

definition itable_ok :: "'z fs_state_scheme \<Rightarrow> bool" where
  "itable_ok s \<longleftrightarrow> (\<forall>i. i < NINODE \<longrightarrow> i_ref (itable s i) \<ge> 0) \<and>
     (\<forall>i j dev inum. i < NINODE \<and> j < NINODE \<and> entry_for dev inum (itable s i) \<and> entry_for dev inum (itable s j) \<longrightarrow> i = j)"

text \<open>The references to inode \<open>inum\<close> of device \<open>dev\<close>.\<close>

definition ref_for :: "uint32 \<Rightarrow> uint32 \<Rightarrow> inode \<Rightarrow> int" where
  "ref_for dev inum n = (if entry_for dev inum n then i_ref n else 0)"

definition inode_refs :: "'z fs_state_scheme \<Rightarrow> uint32 \<times> uint32 \<Rightarrow> int" where
  "inode_refs s = (\<lambda>(dev, inum). \<Sum>i<NINODE. ref_for dev inum (itable s i))"

lemma iget_scan_fst: "fst (iget_scan ips dev inum emp tb) = find (\<lambda>i. entry_for dev inum (tb i)) ips"
  by (induction ips arbitrary: emp) auto

lemma iget_scan_snd:
  "fst (iget_scan ips dev inum emp tb) = None \<Longrightarrow>
   snd (iget_scan ips dev inum emp tb) = (case emp of Some e \<Rightarrow> Some e | None \<Rightarrow> find (\<lambda>i. i_ref (tb i) = 0) ips)"
  by (induction ips arbitrary: emp) (auto split: if_splits option.splits)

lemma find_upt:
  "find P [0..<n] = Some i \<Longrightarrow> i < n \<and> P i" "find P [0..<n] = None \<Longrightarrow> i < n \<Longrightarrow> \<not> P i"
  by (auto simp: find_Some_iff find_None_iff)

lemma inode_refs_upd:
  assumes "ip < NINODE"
  shows "inode_refs (s\<lparr>itable := (itable s)(ip := n)\<rparr>) (dev, inum) =
    inode_refs s (dev, inum) + ref_for dev inum n - ref_for dev inum (itable s ip)"
proof -
  have ip: "ip \<in> {..<NINODE}" "finite {..<NINODE}" using assms by auto
  let ?g = "\<lambda>i. ref_for dev inum (((itable s)(ip := n)) i)" and ?h = "\<lambda>i. ref_for dev inum (itable s i)"
  have "sum ?g ({..<NINODE} - {ip}) = sum ?h ({..<NINODE} - {ip})" by (rule sum.cong) auto
  moreover have "sum ?g {..<NINODE} = ?g ip + sum ?g ({..<NINODE} - {ip})" by (rule sum.remove [OF ip(2,1)])
  moreover have "sum ?h {..<NINODE} = ?h ip + sum ?h ({..<NINODE} - {ip})" by (rule sum.remove [OF ip(2,1)])
  ultimately show ?thesis unfolding inode_refs_def by simp
qed

lemma iget_cases:
  assumes "itable_ok s" "L_itable \<notin> held s"
  shows "(\<exists>ip n. iget dev inum s = Ret ip (s\<lparr>itable := (itable s)(ip := n)\<rparr>) \<and> ip < NINODE \<and> entry_for dev inum n \<and>
      (if entry_for dev inum (itable s ip) then n = (itable s ip)\<lparr>i_ref := i_ref (itable s ip) + 1\<rparr>
       else i_ref (itable s ip) = 0 \<and> i_ref n = 1 \<and> \<not> i_valid n \<and> (\<forall>j. j < NINODE \<longrightarrow> \<not> entry_for dev inum (itable s j)))) \<or>
    iget dev inum s = Panic ''iget: no inodes'' \<and> (\<forall>j. j < NINODE \<longrightarrow> \<not> entry_for dev inum (itable s j) \<and> i_ref (itable s j) > 0)"
proof -
  obtain f e where sc: "iget_scan [0..<NINODE] dev inum None (itable s) = (f, e)" by fastforce
  have f: "f = find (\<lambda>i. entry_for dev inum (itable s i)) [0..<NINODE]" using iget_scan_fst [of "[0..<NINODE]" dev inum None "itable s"] sc by simp
  have h: "insert L_itable (held s) - {L_itable} = held s" using assms(2) by auto
  show ?thesis
  proof (cases f)
    case (Some ip)
    then have ip: "ip < NINODE" "entry_for dev inum (itable s ip)" using find_upt(1) [OF trans [OF f [symmetric] Some]] by auto
    let ?n = "(itable s ip)\<lparr>i_ref := i_ref (itable s ip) + 1\<rparr>"
    have "iget dev inum s = Ret ip (s\<lparr>itable := (itable s)(ip := ?n)\<rparr>)"
      using sc Some assms(2) h by (simp add: iget_def upd_inode_def)
    then show ?thesis using ip by (intro disjI1 exI [of _ ip] exI [of _ ?n]) simp
  next
    case None
    then have none: "\<not> entry_for dev inum (itable s j)" if "j < NINODE" for j using find_upt(2) [OF trans [OF f [symmetric] None] that] by auto
    have e: "e = find (\<lambda>i. i_ref (itable s i) = 0) [0..<NINODE]"
      using iget_scan_snd [of "[0..<NINODE]" dev inum None "itable s"] sc None by simp
    show ?thesis
    proof (cases e)
      case (Some ip)
      then have ip: "ip < NINODE" "i_ref (itable s ip) = 0" using find_upt(1) [OF trans [OF e [symmetric] Some]] by auto
      let ?n = "(itable s ip)\<lparr>i_dev := dev, i_inum := inum, i_ref := 1, i_valid := False\<rparr>"
      have "iget dev inum s = Ret ip (s\<lparr>itable := (itable s)(ip := ?n)\<rparr>)"
        using sc Some \<open>f = None\<close> assms(2) h by (simp add: iget_def upd_inode_def)
      then show ?thesis using ip none by (intro disjI1 exI [of _ ip] exI [of _ ?n]) simp
    next
      case None
      then have "i_ref (itable s j) \<noteq> 0" if "j < NINODE" for j using find_upt(2) [OF trans [OF e [symmetric] None] that] by auto
      moreover have "iget dev inum s = Panic ''iget: no inodes''" using sc None \<open>f = None\<close> assms(2) by (simp add: iget_def)
      ultimately show ?thesis using none assms(1) unfolding itable_ok_def by (intro disjI2) (auto simp: le_less)
    qed
  qed
qed

text \<open>Giving entry \<open>ip\<close> a new content for the inode it already had, or a free entry one that no other entry has.\<close>

lemma itable_unique:
  "itable_ok s \<Longrightarrow> i < NINODE \<Longrightarrow> j < NINODE \<Longrightarrow> entry_for dev inum (itable s i) \<Longrightarrow> entry_for dev inum (itable s j) \<Longrightarrow> i = j"
  unfolding itable_ok_def by blast

lemma itable_ok_upd:
  assumes "itable_ok s" "ip < NINODE" "i_ref n \<ge> 0"
    and "\<And>j. j < NINODE \<Longrightarrow> j \<noteq> ip \<Longrightarrow> i_ref n > 0 \<Longrightarrow> \<not> entry_for (i_dev n) (i_inum n) (itable s j)"
  shows "itable_ok (s\<lparr>itable := (itable s)(ip := n)\<rparr>)"
  using assms unfolding itable_ok_def by (auto; metis)

lemma inode_refs_same:
  assumes "ip < NINODE" "i_ref (itable s ip) > 0" "i_dev n = i_dev (itable s ip)" "i_inum n = i_inum (itable s ip)" "i_ref n \<ge> 0"
  shows "inode_refs (s\<lparr>itable := (itable s)(ip := n)\<rparr>) =
    (inode_refs s)((i_dev n, i_inum n) := inode_refs s (i_dev n, i_inum n) + i_ref n - i_ref (itable s ip))"
proof (rule ext, clarify)
  fix dev inum
  show "inode_refs (s\<lparr>itable := (itable s)(ip := n)\<rparr>) (dev, inum) =
      ((inode_refs s)((i_dev n, i_inum n) := inode_refs s (i_dev n, i_inum n) + i_ref n - i_ref (itable s ip))) (dev, inum)"
    unfolding inode_refs_upd [OF assms(1)] using assms by (auto simp: ref_for_def)
qed

lemma inode_refs_fresh:
  assumes "ip < NINODE" "i_ref (itable s ip) = 0" "i_ref n > 0"
  shows "inode_refs (s\<lparr>itable := (itable s)(ip := n)\<rparr>) = (inode_refs s)((i_dev n, i_inum n) := inode_refs s (i_dev n, i_inum n) + i_ref n)"
proof (rule ext, clarify)
  fix dev inum
  show "inode_refs (s\<lparr>itable := (itable s)(ip := n)\<rparr>) (dev, inum) =
      ((inode_refs s)((i_dev n, i_inum n) := inode_refs s (i_dev n, i_inum n) + i_ref n)) (dev, inum)"
    unfolding inode_refs_upd [OF assms(1)] using assms by (auto simp: ref_for_def)
qed

lemma iget_counts:
  assumes "itable_ok s" "L_itable \<notin> held s"
  shows "(\<exists>ip t. iget dev inum s = Ret ip t \<and> ip < NINODE \<and> entry_for dev inum (itable t ip) \<and> itable_ok t \<and>
       inode_refs t = (inode_refs s)((dev, inum) := inode_refs s (dev, inum) + 1)) \<or>
     iget dev inum s = Panic ''iget: no inodes'' \<and> inode_refs s (dev, inum) = 0 \<and> (\<forall>j. j < NINODE \<longrightarrow> i_ref (itable s j) > 0)"
  using iget_cases [OF assms, of dev inum]
proof (elim disjE exE conjE)
  fix ip n
  assume r: "iget dev inum s = Ret ip (s\<lparr>itable := (itable s)(ip := n)\<rparr>)" and ip: "ip < NINODE" and n: "0 < i_ref n" "i_dev n = dev" "i_inum n = inum"
    and c: "if entry_for dev inum (itable s ip) then n = (itable s ip)\<lparr>i_ref := i_ref (itable s ip) + 1\<rparr>
       else i_ref (itable s ip) = 0 \<and> i_ref n = 1 \<and> \<not> i_valid n \<and> (\<forall>j. j < NINODE \<longrightarrow> \<not> entry_for dev inum (itable s j))"
  have "\<not> entry_for dev inum (itable s j)" if "j < NINODE" "j \<noteq> ip" for j
    using c that itable_unique [OF assms(1) that(1) ip, of dev inum] by (auto split: if_splits)
  then have "itable_ok (s\<lparr>itable := (itable s)(ip := n)\<rparr>)" using n by (intro itable_ok_upd [OF assms(1) ip]) auto
  moreover have "inode_refs (s\<lparr>itable := (itable s)(ip := n)\<rparr>) = (inode_refs s)((dev, inum) := inode_refs s (dev, inum) + 1)"
  proof (cases "entry_for dev inum (itable s ip)")
    case True then show ?thesis using c inode_refs_same [OF ip, of s n] n by simp
  next
    case False then show ?thesis using c inode_refs_fresh [OF ip, of s n] n by simp
  qed
  ultimately show ?thesis using r ip n by (intro disjI1 exI [of _ ip] exI [of _ "s\<lparr>itable := (itable s)(ip := n)\<rparr>"]) simp
next
  assume "iget dev inum s = Panic ''iget: no inodes''"
    and a: "\<forall>j. j < NINODE \<longrightarrow> \<not> entry_for dev inum (itable s j) \<and> i_ref (itable s j) > 0"
  moreover have "inode_refs s (dev, inum) = 0" using a by (auto simp: inode_refs_def ref_for_def intro!: sum.neutral)
  ultimately show ?thesis by simp
qed

text \<open>An entry in use gets another count.\<close>

lemma recount:
  assumes "itable_ok s" "ip < NINODE" "i_ref (itable s ip) > 0" "k \<ge> 0"
  shows "itable_ok (s\<lparr>itable := (itable s)(ip := (itable s ip)\<lparr>i_ref := k\<rparr>)\<rparr>)"
    "inode_refs (s\<lparr>itable := (itable s)(ip := (itable s ip)\<lparr>i_ref := k\<rparr>)\<rparr>) = (inode_refs s)((i_dev (itable s ip), i_inum (itable s ip)) :=
       inode_refs s (i_dev (itable s ip), i_inum (itable s ip)) + k - i_ref (itable s ip))"
proof -
  have "\<not> entry_for (i_dev (itable s ip)) (i_inum (itable s ip)) (itable s j)" if "j < NINODE" "j \<noteq> ip" for j
    using itable_unique [OF assms(1) that(1) assms(2), of "i_dev (itable s ip)" "i_inum (itable s ip)"] assms(3) that by auto
  then show "itable_ok (s\<lparr>itable := (itable s)(ip := (itable s ip)\<lparr>i_ref := k\<rparr>)\<rparr>)"
    using assms by (intro itable_ok_upd [OF assms(1,2)]) auto
  show "inode_refs (s\<lparr>itable := (itable s)(ip := (itable s ip)\<lparr>i_ref := k\<rparr>)\<rparr>) = (inode_refs s)((i_dev (itable s ip), i_inum (itable s ip)) :=
       inode_refs s (i_dev (itable s ip), i_inum (itable s ip)) + k - i_ref (itable s ip))"
    using inode_refs_same [OF assms(2,3), of "(itable s ip)\<lparr>i_ref := k\<rparr>"] assms(4) by simp
qed

lemma idup_counts:
  assumes "itable_ok s" "L_itable \<notin> held s" "ip < NINODE" "i_ref (itable s ip) > 0"
  shows "\<exists>t. idup ip s = Ret ip t \<and> itable_ok t \<and> inode_refs t = (inode_refs s)((i_dev (itable s ip), i_inum (itable s ip)) :=
       inode_refs s (i_dev (itable s ip), i_inum (itable s ip)) + 1)"
proof -
  have h: "insert L_itable (held s) - {L_itable} = held s" using assms(2) by auto
  have "idup ip s = Ret ip (s\<lparr>itable := (itable s)(ip := (itable s ip)\<lparr>i_ref := i_ref (itable s ip) + 1\<rparr>)\<rparr>)"
    using assms(2) h by (simp add: idup_def upd_inode_def)
  then show ?thesis using recount [OF assms(1,3,4), of "i_ref (itable s ip) + 1"] assms(4) by simp
qed

lemma iput_counts:
  assumes "itable_ok s" "L_itable \<notin> held s" "ip < NINODE" "i_ref (itable s ip) > 0"
    and "\<not> (i_ref (itable s ip) = 1 \<and> i_valid (itable s ip) \<and> i_nlink (itable s ip) = 0)"
  shows "\<exists>t. iput ip s = Ret () t \<and> itable_ok t \<and> inode_refs t = (inode_refs s)((i_dev (itable s ip), i_inum (itable s ip)) :=
       inode_refs s (i_dev (itable s ip), i_inum (itable s ip)) - 1)"
proof -
  have h: "insert L_itable (held s) - {L_itable} = held s" using assms(2) by auto
  consider "i_ref (itable s ip) \<noteq> 1" | "\<not> i_valid (itable s ip)" | "i_nlink (itable s ip) \<noteq> 0" using assms(5) by auto
  then have "iput ip s = Ret () (s\<lparr>itable := (itable s)(ip := (itable s ip)\<lparr>i_ref := i_ref (itable s ip) - 1\<rparr>)\<rparr>)"
    using assms(2) h by cases (simp_all add: iput_def upd_inode_def)
  then show ?thesis using recount [OF assms(1,3,4), of "i_ref (itable s ip) - 1"] assms(4) by simp
qed


section \<open>The bitmap of blocks\<close>

lemma bit_free_bit: "bit_free d bi \<longleftrightarrow> \<not> bit (d ! (bi div 8)) (bi mod 8)"
proof -
  have "w AND push_bit n 1 = 0 \<longleftrightarrow> \<not> bit w n" if "n < 8" for w :: byte and n
    unfolding bit_eq_iff [of "w AND push_bit n 1"] using that by (auto simp: bit_simps)
  then show ?thesis by (simp add: bit_free_def bit_mask_def)
qed

lemma bit_set_clear:
  assumes "length d = BSIZE" "i < BPB"
  shows "bit_free (bit_set i d) j \<longleftrightarrow> j \<noteq> i \<and> bit_free d j" "bit_free (bit_clear i d) j \<longleftrightarrow> j = i \<or> bit_free d j"
    "length (bit_set i d) = BSIZE" "length (bit_clear i d) = BSIZE"
proof -
  have i: "i div 8 < length d" using assms by (simp add: BPB_def)
  have ij: "j = i \<longleftrightarrow> j div 8 = i div 8 \<and> j mod 8 = i mod 8" by (metis div_mult_mod_eq)
  show "bit_free (bit_set i d) j \<longleftrightarrow> j \<noteq> i \<and> bit_free d j" "bit_free (bit_clear i d) j \<longleftrightarrow> j = i \<or> bit_free d j"
    using i by (auto simp: bit_free_bit bit_set_def bit_clear_def bit_mask_def nth_list_update ij bit_simps)
  show "length (bit_set i d) = BSIZE" "length (bit_clear i d) = BSIZE" using assms by (simp_all add: bit_set_def bit_clear_def)
qed

abbreviation nblk :: "'z fs_state_scheme \<Rightarrow> nat" where
  "nblk s \<equiv> unat (sb_size (sb s))"

definition bmap_block :: "'z fs_state_scheme \<Rightarrow> nat \<Rightarrow> uint32" where
  "bmap_block s b = BBLOCK (of_nat b) (sb s)"

definition blk_free :: "'z fs_state_scheme \<Rightarrow> nat \<Rightarrow> bool" where
  "blk_free s b \<longleftrightarrow> b < nblk s \<and> bit_free (bval s (bmap_block s b)) (b mod BPB)"

text \<open>
  What the file system relies on: the bitmap lies outside the log and inside the disk, and so does every free block, which is no
  block of the bitmap.
\<close>

definition bitmap_ok :: "'z fs_state_scheme \<Rightarrow> bool" where
  "bitmap_ok s \<longleftrightarrow> (\<forall>b < nblk s. home_block s (bmap_block s b)) \<and>
     (\<forall>b. blk_free s b \<longrightarrow> home_block s (of_nat b) \<and> (\<forall>c < nblk s. bmap_block s c \<noteq> of_nat b))"

lemma log_frame_fs:
  assumes "log_frame s t"
  shows "sb t = sb s" "itable t = itable s" "slocks t (SL_inode k) = slocks s (SL_inode k)" "consout t = consout s"
proof -
  obtain n blk where "bio_frame (s\<lparr>lg_n := n, lg_block := blk\<rparr>) t" using assms by (auto simp: log_frame_def)
  then show "sb t = sb s" "itable t = itable s" "slocks t (SL_inode k) = slocks s (SL_inode k)" "consout t = consout s"
    by (cases s; cases t; simp add: bio_frame_def)+
qed

lemma nblk_word: "b < nblk s \<Longrightarrow> unat (of_nat b :: uint32) = b"
  using unsigned_less [of "sb_size (sb s)", where 'a = nat] by (simp add: unat_of_nat take_bit_nat_eq_self)

lemma bmap_block_eq:
  assumes "b < nblk s" "c < nblk s"
  shows "bmap_block s b = bmap_block s c \<longleftrightarrow> b div BPB = c div BPB"
proof -
  have "unat (of_nat b div of_nat BPB :: uint32) = b div BPB" if "b < nblk s" for b
    using nblk_word [OF that] by (simp add: unat_div BPB_def BSIZE_def)
  then have "(of_nat b div of_nat BPB :: uint32) = of_nat c div of_nat BPB \<longleftrightarrow> b div BPB = c div BPB"
    using assms by (simp add: word_unat_eq_iff)
  then show ?thesis by (simp add: bmap_block_def BBLOCK_def)
qed

lemma same_bit:
  assumes "b < nblk s" "c < nblk s" "bmap_block s b = bmap_block s c"
  shows "b mod BPB = c mod BPB \<longleftrightarrow> b = c"
  using bmap_block_eq [OF assms(1,2)] assms(3) by (metis div_mult_mod_eq)

text \<open>The bitmap after its bit for block \<open>b\<close> has been changed.\<close>

lemma blk_free_update:
  assumes "bc_inv s" "b < nblk s" "sb t = sb s"
  shows "bval t = (bval s)(bmap_block s b := bit_set (b mod BPB) (bval s (bmap_block s b))) \<Longrightarrow> blk_free t c \<longleftrightarrow> c \<noteq> b \<and> blk_free s c"
    "bval t = (bval s)(bmap_block s b := bit_clear (b mod BPB) (bval s (bmap_block s b))) \<Longrightarrow> blk_free t c \<longleftrightarrow> c = b \<or> blk_free s c"
proof -
  have i: "b mod BPB < BPB" by (simp add: BPB_def BSIZE_def)
  have bb: "bmap_block t c = bmap_block s c" using assms(3) by (simp add: bmap_block_def)
  note f = bit_set_clear [OF length_bval [OF assms(1)] i]
  show "bval t = (bval s)(bmap_block s b := bit_set (b mod BPB) (bval s (bmap_block s b))) \<Longrightarrow> blk_free t c \<longleftrightarrow> c \<noteq> b \<and> blk_free s c"
    using same_bit [OF _ assms(2), of c] assms(3) bb f(1) by (auto simp: blk_free_def)
  show "bval t = (bval s)(bmap_block s b := bit_clear (b mod BPB) (bval s (bmap_block s b))) \<Longrightarrow> blk_free t c \<longleftrightarrow> c = b \<or> blk_free s c"
    using same_bit [OF _ assms(2), of c] assms(2,3) bb f(2) by (auto simp: blk_free_def)
qed

lemma bzero_log: "bzero ROOTDEV b s = log_update b (\<lambda>_. replicate BSIZE 0) s"
  by (simp add: bzero_def log_update_def upd_data_def)

text \<open>A transaction that has room for \<open>k\<close> more blocks while those in \<open>L\<close> are locked.\<close>

definition fs_txn :: "nat \<Rightarrow> uint32 set \<Rightarrow> nat \<Rightarrow> 'z fs_state_scheme \<Rightarrow> bool" where
  "fs_txn p L k s \<longleftrightarrow> txn p L {} s \<and> bitmap_ok s \<and> lg_outstanding s \<ge> 1 \<and> length (home_list s) + card L + k \<le> LOGSIZE - 1 \<and>
     (\<forall>c < nblk s. bmap_block s c \<notin> L) \<and> (\<forall>b \<in> L. \<not> blk_free s (unat b))"

lemma fs_txnD:
  assumes "fs_txn p L k s"
  shows "txn p L {} s" "bc_inv s" "held s = {}" "bitmap_ok s" "lg_outstanding s \<ge> 1" "length (home_list s) + card L + k \<le> LOGSIZE - 1"
    "c < nblk s \<Longrightarrow> bmap_block s c \<notin> L" "b \<in> L \<Longrightarrow> \<not> blk_free s (unat b)" "c < nblk s \<Longrightarrow> home_block s (bmap_block s c)"
    "blk_free s c \<Longrightarrow> home_block s (of_nat c)" "blk_free s c \<Longrightarrow> x < nblk s \<Longrightarrow> bmap_block s x \<noteq> of_nat c"
  using assms txnD(1) [of p L "{}" s] by (auto simp: fs_txn_def bitmap_ok_def idle_def)

lemma fs_txn_next:
  assumes "fs_txn p L k s" "txn p L {} t" "log_frame s t" "length (home_list t) + k' \<le> length (home_list s) + k"
    "\<And>b. blk_free t b \<Longrightarrow> blk_free s b \<or> home_block s (of_nat b) \<and> (\<forall>c < nblk s. bmap_block s c \<noteq> of_nat b) \<and> of_nat b \<notin> L"
  shows "fs_txn p L k' t"
proof -
  note d = fs_txnD [OF assms(1)]
  have e: "sb t = sb s" "bmap_block t = bmap_block s" "home_block t = home_block s" "lg_outstanding t = lg_outstanding s"
    using log_frame_fs(1) [OF assms(3)] home_block_frame [OF assms(3)] log_frame_simps(7) [OF assms(3)]
    by (simp_all add: bmap_block_def fun_eq_iff)
  have "bitmap_ok t" using d(9-11) assms(5) unfolding bitmap_ok_def e by blast
  moreover have "\<not> blk_free t (unat b)" if "b \<in> L" for b using d(8) [OF that] assms(5) [of "unat b"] that by auto
  ultimately show ?thesis using assms(2,4) d(5-7) unfolding fs_txn_def e by auto
qed

lemma fs_log_update:
  assumes "fs_txn p L (Suc k) s" "home_block s b" "b \<notin> L" "length (f (bval s b)) = BSIZE"
  obtains t where "log_update b f s = Ret () t" "txn p L {} t" "bval t = (bval s)(b := f (bval s b))" "log_frame s t"
    "length (home_list t) \<le> Suc (length (home_list s))" "\<forall>c \<in> L. slot t c = slot s c"
proof -
  note d = fs_txnD [OF assms(1)]
  have r: "length (home_list s) + card L < LOGSIZE - 1" using d(6) by linarith
  have n: "b \<notin> {}" by simp
  obtain t where t: "log_update b f s = Ret () t" "txn p L {} t" "bval t = (bval s)(b := f (bval s b))" "log_frame s t"
    "home_list t = (if logged s b then home_list s else home_list s @ [unat b])" "\<forall>c \<in> L. slot t c = slot s c"
    by (rule log_update_ok [where f = f, OF d(1) assms(2,3) n r d(5) assms(4)])
  show thesis using t(5,6) by (intro that [OF t(1-4)]) simp_all
qed

text \<open>\<^verbatim>\<open>bfree\<close>: the bit is looked at before it is cleared.\<close>

lemma bfree_log:
  assumes "fs_txn p L (Suc k) s" "unat b < nblk s"
  shows "bfree ROOTDEV b s = (if blk_free s (unat b) then Panic ''freeing free block''
    else log_update (bmap_block s (unat b)) (bit_clear (unat b mod BPB)) s)"
proof -
  note d = fs_txnD [OF assms(1)]
  have r: "length (home_list s) + card L < NBUF" using d(6) by (simp add: LOGSIZE_def NBUF_def MAXOPBLOCKS_def)
  have B: "BBLOCK b (sb s) = bmap_block s (unat b)" by (simp add: bmap_block_def)
  obtain i t where t: "bread ROOTDEV (bmap_block s (unat b)) s = Ret i t" "b_data (bufs t i) = bval s (bmap_block s (unat b))"
    using txn_bread [OF d(1) d(9) [OF assms(2)] d(7) [OF assms(2)] r] by metis
  show ?thesis unfolding bfree_def B log_update_def t(1) using t(2) assms(2) by (simp add: blk_free_def upd_data_def Let_def)
qed

lemma bfree_frees:
  assumes "fs_txn p L (Suc k) s" "unat b < nblk s" "\<not> blk_free s (unat b)" "home_block s b" "\<forall>c < nblk s. bmap_block s c \<noteq> b" "b \<notin> L"
  obtains t where "bfree ROOTDEV b s = Ret () t" "fs_txn p L k t" "log_frame s t" "\<forall>c. blk_free t c \<longleftrightarrow> c = unat b \<or> blk_free s c"
    "\<forall>c. (\<forall>x < nblk s. bmap_block s x \<noteq> c) \<longrightarrow> bval t c = bval s c"
proof -
  note d = fs_txnD [OF assms(1)]
  let ?B = "bmap_block s (unat b)"
  have l: "length (bit_clear (unat b mod BPB) (bval s ?B)) = BSIZE"
    using bit_set_clear(4) [OF length_bval [OF d(2)], of "unat b mod BPB"] by (simp add: BPB_def BSIZE_def)
  obtain t where t: "log_update ?B (bit_clear (unat b mod BPB)) s = Ret () t" "txn p L {} t"
    "bval t = (bval s)(?B := bit_clear (unat b mod BPB) (bval s ?B))" "log_frame s t" "length (home_list t) \<le> Suc (length (home_list s))"
    by (rule fs_log_update [where f = "bit_clear (unat b mod BPB)", OF assms(1) d(9) [OF assms(2)] d(7) [OF assms(2)] l])
  have f: "blk_free t c \<longleftrightarrow> c = unat b \<or> blk_free s c" for c
    by (rule blk_free_update(2) [OF d(2) assms(2) log_frame_fs(1) [OF t(4)] t(3)])
  have "fs_txn p L k t" using t(5) f assms(4-6) by (intro fs_txn_next [OF assms(1) t(2,4)]) auto
  moreover have "bfree ROOTDEV b s = Ret () t" using bfree_log [OF assms(1,2)] assms(3) t(1) by simp
  ultimately show thesis using t(3,4) f assms(2) by (intro that [of t]) auto
qed

text \<open>\<^verbatim>\<open>balloc\<close> looks at the blocks of the bitmap one after the other; \<open>b\<close> is the first block such a block describes.\<close>

lemma bmap_bit:
  assumes "b mod BPB = 0" "bi < min BPB (nblk s - b)"
  shows "bmap_block s (b + bi) = bmap_block s b" "(b + bi) mod BPB = bi" "b + bi < nblk s"
    "bit_free (bval s (bmap_block s b)) bi \<longleftrightarrow> blk_free s (b + bi)"
proof -
  obtain q where q: "b = BPB * q" using assms(1) by auto
  have m: "(b + bi) mod BPB = bi" "(b + bi) div BPB = b div BPB" using assms(2) unfolding q by (simp_all add: BPB_def BSIZE_def)
  have l: "b + bi < nblk s" "b < nblk s" using assms(2) by linarith+
  show B: "bmap_block s (b + bi) = bmap_block s b" using bmap_block_eq [OF l] m(2) by simp
  show "(b + bi) mod BPB = bi" "b + bi < nblk s" using m(1) l(1) by simp_all
  show "bit_free (bval s (bmap_block s b)) bi \<longleftrightarrow> blk_free s (b + bi)" using B m(1) l(1) by (simp add: blk_free_def)
qed

definition allocated :: "nat \<Rightarrow> uint32 set \<Rightarrow> nat \<Rightarrow> nat \<Rightarrow> 'z fs_state_scheme \<Rightarrow> 'z fs_state_scheme \<Rightarrow> bool" where
  "allocated p L k c s t \<longleftrightarrow> fs_txn p L k t \<and> log_frame s t \<and> (\<forall>x. blk_free t x \<longleftrightarrow> x \<noteq> c \<and> blk_free s x) \<and>
     bval t (of_nat c) = replicate BSIZE 0 \<and> (\<forall>x. x \<noteq> of_nat c \<and> (\<forall>y < nblk s. bmap_block s y \<noteq> x) \<longrightarrow> bval t x = bval s x) \<and>
     (\<forall>x \<in> L. slot t x = slot s x)"

lemma mark_and_zero:
  assumes "fs_txn p L (Suc (Suc k)) s" "blk_free s c"
  obtains s1 t where "log_update (bmap_block s c) (bit_set (c mod BPB)) s = Ret () s1" "bzero ROOTDEV (of_nat c) s1 = Ret () t"
    "allocated p L k c s t"
proof -
  note d = fs_txnD [OF assms(1)]
  have c: "c < nblk s" using assms(2) by (simp add: blk_free_def)
  have cL: "of_nat c \<notin> L" using d(8) [of "of_nat c"] nblk_word [OF c] assms(2) by auto
  let ?B = "bmap_block s c"
  have l: "length (bit_set (c mod BPB) (bval s ?B)) = BSIZE"
    using bit_set_clear(3) [OF length_bval [OF d(2)], of "c mod BPB"] by (simp add: BPB_def BSIZE_def)
  obtain s1 where s1: "log_update ?B (bit_set (c mod BPB)) s = Ret () s1" "txn p L {} s1"
    "bval s1 = (bval s)(?B := bit_set (c mod BPB) (bval s ?B))" "log_frame s s1" "length (home_list s1) \<le> Suc (length (home_list s))"
    "\<forall>x \<in> L. slot s1 x = slot s x"
    by (rule fs_log_update [where f = "bit_set (c mod BPB)", OF assms(1) d(9) [OF c] d(7) [OF c] l])
  have f1: "blk_free s1 x \<longleftrightarrow> x \<noteq> c \<and> blk_free s x" for x
    by (rule blk_free_update(1) [OF d(2) c log_frame_fs(1) [OF s1(4)] s1(3)])
  have x1: "fs_txn p L (Suc k) s1" using s1(5) f1 by (intro fs_txn_next [OF assms(1) s1(2,4)]) auto
  have h1: "home_block s1 (of_nat c)" using d(10) [OF assms(2)] home_block_frame [OF s1(4)] by simp
  obtain t where t: "log_update (of_nat c) (\<lambda>_. replicate BSIZE 0) s1 = Ret () t" "txn p L {} t"
    "bval t = (bval s1)(of_nat c := replicate BSIZE 0)" "log_frame s1 t" "length (home_list t) \<le> Suc (length (home_list s1))"
    "\<forall>x \<in> L. slot t x = slot s1 x"
    by (rule fs_log_update [where f = "\<lambda>_. replicate BSIZE 0", OF x1 h1 cL]) simp_all
  have sb: "sb t = sb s" "bmap_block t = bmap_block s" "sb s1 = sb s" "bmap_block s1 = bmap_block s"
    using log_frame_fs(1) [OF t(4)] log_frame_fs(1) [OF s1(4)] by (simp_all add: bmap_block_def fun_eq_iff)
  have f2: "blk_free t x \<longleftrightarrow> blk_free s1 x" for x
    using d(11) [OF assms(2)] t(3) sb by (auto simp: blk_free_def)
  have "fs_txn p L k t" using t(5) f2 by (intro fs_txn_next [OF x1 t(2,4)]) auto
  moreover have "log_frame s t" by (rule log_frame_trans [OF s1(4) t(4)])
  moreover have "bval t x = bval s x" if "x \<noteq> of_nat c" "\<forall>y < nblk s. bmap_block s y \<noteq> x" for x
    using that c t(3) s1(3) by auto
  ultimately have "allocated p L k c s t" using f1 f2 t(3,6) s1(6) unfolding allocated_def by auto
  then show thesis using s1(1) t(1) by (intro that) (simp_all add: bzero_log)
qed

lemma find_cong: "(\<And>x. x \<in> set xs \<Longrightarrow> P x = Q x) \<Longrightarrow> find P xs = find Q xs"
  by (induction xs) auto

lemma balloc_step:
  assumes "fs_txn p L (Suc (Suc k)) s" "b mod BPB = 0" "b < nblk s"
  shows "case find (\<lambda>bi. blk_free s (b + bi)) [0..<min BPB (nblk s - b)] of
      Some bi \<Rightarrow> \<exists>t. balloc_loop ROOTDEV (b # bs) s = Ret (of_nat (b + bi)) t \<and> allocated p L k (b + bi) s t
    | None \<Rightarrow> \<exists>t. balloc_loop ROOTDEV (b # bs) s = balloc_loop ROOTDEV bs t \<and> fs_txn p L (Suc (Suc k)) t \<and> log_frame s t \<and> bval t = bval s \<and>
        (\<forall>x \<in> L. slot t x = slot s x)"
proof -
  note d = fs_txnD [OF assms(1)]
  let ?B = "bmap_block s b" and ?is = "[0..<min BPB (nblk s - b)]"
  have r: "length (home_list s) + card L < NBUF" using d(6) by (simp add: LOGSIZE_def NBUF_def MAXOPBLOCKS_def)
  obtain i s1 where s1: "bread ROOTDEV ?B s = Ret i s1" "txn p (insert ?B L) {} s1" "slot s1 ?B = Some i"
    "b_data (bufs s1 i) = bval s ?B" "bval s1 = bval s" "home_list s1 = home_list s" "bio_frame s s1"
    "\<forall>x \<in> L. slot s1 x = slot s x"
    by (rule txn_bread [OF d(1) d(9) [OF assms(3)] d(7) [OF assms(3)] r])
  have sb: "sb s1 = sb s" by (rule log_frame_fs(1) [OF bio_frame_lg [OF s1(7)]])
  have f: "find (bit_free (bval s ?B)) ?is = find (\<lambda>bi. blk_free s (b + bi)) ?is"
    using bmap_bit(4) [OF assms(2)] by (intro find_cong) simp
  have B: "BBLOCK (of_nat b) (sb s) = ?B" by (simp add: bmap_block_def)
  show ?thesis
  proof (cases "find (\<lambda>bi. blk_free s (b + bi)) ?is")
    case None
    obtain t where t: "brelse i s1 = Ret () t" "txn p (insert ?B L - {?B}) {} t" "slot t = slot s1" "bval t = bval s1" "bio_frame s1 t" "home_list t = home_list s1"
      using txn_brelse [OF s1(2) insertI1 _ s1(3)] by auto
    have L: "insert ?B L - {?B} = L" using d(7) [OF assms(3)] by auto
    have lf: "log_frame s t" by (rule bio_frame_lg [OF bio_frame_trans [OF s1(7) t(5)]])
    have "blk_free t x \<longleftrightarrow> blk_free s x" for x using log_frame_fs(1) [OF lf] t(4) s1(5) by (simp add: blk_free_def bmap_block_def)
    then have "fs_txn p L (Suc (Suc k)) t" using t(2,6) s1(6) unfolding L by (intro fs_txn_next [OF assms(1) _ lf]) auto
    moreover have "balloc_loop ROOTDEV (b # bs) s = balloc_loop ROOTDEV bs t" using None t(1) s1(1,4) by (simp add: B f sb)
    ultimately show ?thesis unfolding None option.case using lf t(3,4) s1(5,8) by (intro exI [of _ t]) simp
  next
    case (Some bi)
    then have bi: "bi < min BPB (nblk s - b)" "blk_free s (b + bi)" by (auto simp: find_Some_iff)
    obtain s2 t where t: "log_update (bmap_block s (b + bi)) (bit_set ((b + bi) mod BPB)) s = Ret () s2" "bzero ROOTDEV (of_nat (b + bi)) s2 = Ret () t"
      "allocated p L k (b + bi) s t"
      by (rule mark_and_zero [OF assms(1) bi(2)])
    have "log_update ?B (bit_set bi) s = Ret () s2" using t(1) bmap_bit(1,2) [OF assms(2) bi(1)] by simp
    then have "bnd (log_write i (upd_data i (bit_set bi) s1)) (\<lambda>_ s. brelse i s) = Ret () s2"
      by (simp add: log_update_def s1(1) upd_data_def)
    then obtain s3 where "log_write i (upd_data i (bit_set bi) s1) = Ret () s3" "brelse i s3 = Ret () s2" by (auto simp: res_simps)
    then have "balloc_loop ROOTDEV (b # bs) s = Ret (of_nat (b + bi)) t" using s1(1,4) t(2) Some by (simp add: B f sb)
    then show ?thesis using Some t(3) by simp
  qed
qed

lemma same_bitmap:
  assumes "log_frame s t" "bval t = bval s" "\<forall>x \<in> L. slot t x = slot s x"
  shows "blk_free t = blk_free s" "bmap_block t = bmap_block s" "nblk t = nblk s" "allocated p L k c t u \<Longrightarrow> allocated p L k c s u"
proof -
  show e: "blk_free t = blk_free s" "bmap_block t = bmap_block s" "nblk t = nblk s"
    using log_frame_fs(1) [OF assms(1)] assms(2) by (simp_all add: blk_free_def bmap_block_def fun_eq_iff)
  show "allocated p L k c t u \<Longrightarrow> allocated p L k c s u"
    using log_frame_trans [OF assms(1)] assms(2,3) unfolding allocated_def e by simp
qed

lemma consout_cache [simp]:
  "bc_inv (s\<lparr>consout := x\<rparr>) = bc_inv s" "bval (s\<lparr>consout := x\<rparr>) = bval s" "home_block (s\<lparr>consout := x\<rparr>) = home_block s"
  by (simp_all add: bc_inv_def dll_def bval_def home_block_def log_area_def fun_eq_iff)

lemma fs_txn_consout: "fs_txn p L k s \<Longrightarrow> fs_txn p L k (s\<lparr>consout := x\<rparr>)"
  unfolding fs_txn_def txn_def log_place_def idle_def bitmap_ok_def home_block_def log_area_def logged_def home_list_def blk_free_def bmap_block_def
  by simp

lemma balloc_cases:
  assumes "fs_txn p L (Suc (Suc k)) s" "\<forall>x < j * BPB. \<not> blk_free s x" "j \<le> (nblk s + (BPB - 1)) div BPB"
  defines "r \<equiv> balloc_loop ROOTDEV (map (\<lambda>k. k * BPB) [j..<(nblk s + (BPB - 1)) div BPB]) s"
  shows "(\<exists>c t. r = Ret (of_nat c) t \<and> blk_free s c \<and> (\<forall>x < c. \<not> blk_free s x) \<and> allocated p L k c s t) \<or>
    (\<forall>x. \<not> blk_free s x) \<and> (\<exists>t. r = Ret 0 t \<and> fs_txn p L k t \<and> bval t = bval s \<and> sb t = sb s \<and> itable t = itable s \<and>
      home_block t = home_block s \<and> (\<forall>x \<in> L. slot t x = slot s x))"
  using assms(1-3) unfolding r_def
proof (induction "(nblk s + (BPB - 1)) div BPB - j" arbitrary: j s)
  case 0
  let ?m = "(nblk s + (BPB - 1)) div BPB" and ?out = "''balloc: out of blocks'' @ [CHR 0x0A]"
  have "nblk s \<le> ?m * BPB" by (simp add: BPB_def BSIZE_def)
  then have none: "\<not> blk_free s x" for x using 0 by (cases "x < nblk s") (auto simp: blk_free_def)
  have "printf_text ?out [] = Some ?out" by simp
  then have "printf ?out [] s = Ret () (s\<lparr>consout := consout s @ ?out\<rparr>)"
    using fs_txnD(3) [OF 0(2)] by (intro printf_Ret) simp_all
  moreover have "fs_txn p L k s" using fs_txn_next [OF 0(2) fs_txnD(1) [OF 0(2)], of k] by simp
  ultimately show ?case using none fs_txn_consout 0 by simp
next
  case (Suc n)
  let ?m = "(nblk s + (BPB - 1)) div BPB"
  have up: "map (\<lambda>k. k * BPB) [j..<?m] = j * BPB # map (\<lambda>k. k * BPB) [Suc j..<?m]" using Suc(2) by (simp add: upt_conv_Cons)
  have j: "j * BPB mod BPB = 0" "j * BPB < nblk s" using Suc(2) by (simp_all add: BPB_def BSIZE_def)
  note st = balloc_step [OF Suc(3) j, of "map (\<lambda>k. k * BPB) [Suc j..<?m]"]
  show ?case
  proof (cases "find (\<lambda>bi. blk_free s (j * BPB + bi)) [0..<min BPB (nblk s - j * BPB)]")
    case (Some bi)
    then have bi: "blk_free s (j * BPB + bi)" "\<And>i. i < bi \<Longrightarrow> \<not> blk_free s (j * BPB + i)" by (auto simp: find_Some_iff)
    have "\<not> blk_free s x" if "x < j * BPB + bi" for x
      using Suc(4) bi(2) [of "x - j * BPB"] that by (cases "x < j * BPB") auto
    with bi(1) have "blk_free s (j * BPB + bi)" "\<forall>x < j * BPB + bi. \<not> blk_free s x" by blast+
    moreover obtain t where "balloc_loop ROOTDEV (j * BPB # map (\<lambda>k. k * BPB) [Suc j..<?m]) s = Ret (of_nat (j * BPB + bi)) t"
      "allocated p L k (j * BPB + bi) s t" using st [unfolded Some option.case] by (elim exE conjE)
    ultimately show ?thesis unfolding up by (intro disjI1 exI [of _ "j * BPB + bi"] exI [of _ t] conjI)
  next
    case None
    then obtain t where t: "balloc_loop ROOTDEV (map (\<lambda>k. k * BPB) [j..<?m]) s = balloc_loop ROOTDEV (map (\<lambda>k. k * BPB) [Suc j..<?m]) t"
      "fs_txn p L (Suc (Suc k)) t" "log_frame s t" "bval t = bval s" "\<forall>x \<in> L. slot t x = slot s x"
      using st [unfolded None option.case, folded up] by (elim exE conjE)
    note e = same_bitmap [OF t(3,4,5)]
    have bi: "\<not> blk_free s (j * BPB + i)" if "i < BPB" for i
      using None that by (cases "i < nblk s - j * BPB") (auto simp: find_None_iff, auto simp: blk_free_def)
    have "\<not> blk_free s x" if "x < Suc j * BPB" for x
      using Suc(4) bi [of "x - j * BPB"] that by (cases "x < j * BPB") auto
    then have "\<forall>x < Suc j * BPB. \<not> blk_free t x" using e(1) by simp
    then have "(\<exists>c u. balloc_loop ROOTDEV (map (\<lambda>k. k * BPB) [Suc j..<?m]) t = Ret (of_nat c) u \<and> blk_free s c \<and>
         (\<forall>x < c. \<not> blk_free s x) \<and> allocated p L k c t u) \<or>
       (\<forall>x. \<not> blk_free s x) \<and> (\<exists>u. balloc_loop ROOTDEV (map (\<lambda>k. k * BPB) [Suc j..<?m]) t = Ret 0 u \<and> fs_txn p L k u \<and>
         bval u = bval s \<and> sb u = sb s \<and> itable u = itable s \<and> home_block u = home_block s \<and> (\<forall>x \<in> L. slot u x = slot s x))"
      using Suc(1) [of t "Suc j", OF _ t(2)] Suc(2) t(5) unfolding e(1-3) t(4) log_frame_fs(1,2) [OF t(3)] home_block_frame [OF t(3)] by simp
    then show ?thesis unfolding t(1) using e(4) by blast
  qed
qed

lemma balloc_allocates:
  assumes "fs_txn p L (Suc (Suc k)) s"
  shows "(\<exists>c t. balloc ROOTDEV s = Ret (of_nat c) t \<and> blk_free s c \<and> (\<forall>x < c. \<not> blk_free s x) \<and> allocated p L k c s t) \<or>
    (\<forall>x. \<not> blk_free s x) \<and> (\<exists>t. balloc ROOTDEV s = Ret 0 t \<and> fs_txn p L k t \<and> bval t = bval s \<and> sb t = sb s \<and> itable t = itable s \<and>
      home_block t = home_block s \<and> (\<forall>x \<in> L. slot t x = slot s x))"
  using balloc_cases [OF assms, of 0] by (simp add: balloc_def)

text \<open>
  C18. Blocks are handed out once. Within a transaction that has room for two blocks, \<^verbatim>\<open>balloc\<close> returns the first free block of the
  disk, filled with zeros and no longer free, changing no block but that one and the bitmap, or returns 0 with no block changed when
  no block is free; \<^verbatim>\<open>bfree\<close> of a free block panics, and of a data block in use makes exactly that block free, changing only the bitmap.
\<close>

theorem blocks_handed_out_once:
  assumes "fs_txn p L 2 s"
  shows "((\<exists>c t. balloc ROOTDEV s = Ret (of_nat c) t \<and> blk_free s c \<and> (\<forall>x < c. \<not> blk_free s x) \<and>
        {x. blk_free t x} = {x. blk_free s x} - {c} \<and> bval t (of_nat c) = replicate BSIZE 0 \<and>
        (\<forall>x. x \<noteq> of_nat c \<and> (\<forall>y < nblk s. bmap_block s y \<noteq> x) \<longrightarrow> bval t x = bval s x)) \<or>
      {x. blk_free s x} = {} \<and> (\<exists>t. balloc ROOTDEV s = Ret 0 t \<and> bval t = bval s)) \<and>
    (blk_free s (unat b) \<longrightarrow> bfree ROOTDEV b s = Panic ''freeing free block'') \<and>
    (unat b < nblk s \<and> \<not> blk_free s (unat b) \<and> home_block s b \<and> (\<forall>y < nblk s. bmap_block s y \<noteq> b) \<and> b \<notin> L \<longrightarrow>
      (\<exists>t. bfree ROOTDEV b s = Ret () t \<and> {x. blk_free t x} = insert (unat b) {x. blk_free s x} \<and>
        (\<forall>x. (\<forall>y < nblk s. bmap_block s y \<noteq> x) \<longrightarrow> bval t x = bval s x)))"
proof (intro conjI impI)
  have s: "fs_txn p L (Suc (Suc 0)) s" "fs_txn p L (Suc 1) s" using assms by (simp_all add: numeral_2_eq_2)
  show "(\<exists>c t. balloc ROOTDEV s = Ret (of_nat c) t \<and> blk_free s c \<and> (\<forall>x < c. \<not> blk_free s x) \<and>
        {x. blk_free t x} = {x. blk_free s x} - {c} \<and> bval t (of_nat c) = replicate BSIZE 0 \<and>
        (\<forall>x. x \<noteq> of_nat c \<and> (\<forall>y < nblk s. bmap_block s y \<noteq> x) \<longrightarrow> bval t x = bval s x)) \<or>
      {x. blk_free s x} = {} \<and> (\<exists>t. balloc ROOTDEV s = Ret 0 t \<and> bval t = bval s)"
    using balloc_allocates [OF s(1)]
  proof (elim disjE exE conjE)
    fix c t assume a: "balloc ROOTDEV s = Ret (of_nat c) t" "blk_free s c" "\<forall>x < c. \<not> blk_free s x" "allocated p L 0 c s t"
    then show ?thesis unfolding allocated_def by (intro disjI1 exI [of _ c] exI [of _ t]) auto
  qed auto
  show "bfree ROOTDEV b s = Panic ''freeing free block''" if "blk_free s (unat b)"
    using bfree_log [OF s(2), of b] that by (simp add: blk_free_def)
  assume b: "unat b < nblk s \<and> \<not> blk_free s (unat b) \<and> home_block s b \<and> (\<forall>y < nblk s. bmap_block s y \<noteq> b) \<and> b \<notin> L"
  then have b: "unat b < nblk s" "\<not> blk_free s (unat b)" "home_block s b" "\<forall>y < nblk s. bmap_block s y \<noteq> b" "b \<notin> L" by simp_all
  obtain t where "bfree ROOTDEV b s = Ret () t" "fs_txn p L 1 t" "log_frame s t" "\<forall>c. blk_free t c \<longleftrightarrow> c = unat b \<or> blk_free s c"
    "\<forall>c. (\<forall>x < nblk s. bmap_block s x \<noteq> c) \<longrightarrow> bval t c = bval s c"
    by (rule bfree_frees [OF s(2) b])
  then show "\<exists>t. bfree ROOTDEV b s = Ret () t \<and> {x. blk_free t x} = insert (unat b) {x. blk_free s x} \<and>
        (\<forall>x. (\<forall>y < nblk s. bmap_block s y \<noteq> x) \<longrightarrow> bval t x = bval s x)" by (intro exI [of _ t]) auto
qed

text \<open>A disk of 200 blocks with its bitmap in block 45, which says that blocks 0 to 47 are in use.\<close>

definition fs_start :: fs_state where
  "fs_start = log_state.extend (log_start0\<lparr>dinit := (\<lambda>n. if n = 45 then replicate 6 255 @ replicate 1018 0 else replicate BSIZE 0)\<rparr>)
     \<lparr>sb = \<lparr>sb_magic = FSMAGIC, sb_size = 200, sb_nblocks = 154, sb_ninodes = 200, sb_nlog = 30, sb_logstart = 2, sb_inodestart = 32,
        sb_bmapstart = 45\<rparr>,
      itable = (\<lambda>_. \<lparr>i_dev = 0, i_inum = 0, i_ref = 0, i_valid = False, i_type = 0, i_major = 0, i_minor = 0, i_nlink = 0, i_size = 0,
        i_addrs = replicate 13 0\<rparr>)\<rparr>"

lemma fs_start_disk: "disk fs_start n = (if n = 45 then replicate 6 255 @ replicate 1018 0 else replicate BSIZE 0)"
  by (simp add: disk_def fs_start_def log_state.extend_def log_start0_def)

lemma fs_start_simps:
  "held fs_start = {}" "curproc fs_start = Some 0" "\<not> b_valid (bufs fs_start i)" "\<not> b_disk (bufs fs_start i)" "b_dev (bufs fs_start i) = 0"
  "b_refcnt (bufs fs_start i) = 0" "dsize fs_start = 2000" "lg_start fs_start = 2" "lg_n fs_start = 0" "lg_size fs_start = 30"
  "lg_dev fs_start = 1" "lg_outstanding fs_start = 1" "sb_size (sb fs_start) = 200" "sb_bmapstart (sb fs_start) = 45"
  "sb_inodestart (sb fs_start) = 32" "\<not> sl_locked (slocks fs_start l)"
  by (simp_all add: fs_start_def log_state.extend_def log_start0_def)

lemma fs_start_bit: "b < 200 \<Longrightarrow> bit_free (replicate 6 255 @ replicate 1018 0) b \<longleftrightarrow> 48 \<le> b"
proof -
  assume b: "b < 200"
  have "bit (255 :: byte) (b mod 8)"
    using bit_mask_iff [of 8 "b mod 8", where 'a = byte] by (simp add: mask_eq_exp_minus_1)
  moreover have "(replicate 6 255 @ replicate 1018 (0 :: byte)) ! (b div 8) = (if b div 8 < 6 then 255 else 0)" using b by (simp add: nth_append)
  moreover have "b div 8 < 6 \<longleftrightarrow> \<not> 48 \<le> b" by linarith
  ultimately show ?thesis by (simp add: bit_free_bit)
qed

lemma fs_start_txn:
  assumes "k < 20"
  obtains t where "binit fs_start = Ret () t" "fs_txn 0 {} k t" "\<forall>b. blk_free t b \<longleftrightarrow> 48 \<le> b \<and> b < 200" "log_frame fs_start t"
    "\<forall>b < 2 ^ 31. bval t (of_nat b) = disk fs_start b" "\<forall>b < 200. bmap_block t b = 45"
proof -
  obtain t where t: "binit fs_start = Ret () t" "idle 0 t" "bio_frame fs_start t" "disk t = disk fs_start"
    "\<And>c. refs t c = 0" "\<And>c. bowner t c = None" "\<And>c. bval t c = disk t (disk_block c)"
    by (rule binit_fresh [of fs_start 0]) (simp_all add: fs_start_simps fs_start_disk BSIZE_def)
  have lf: "log_frame fs_start t" by (rule bio_frame_lg [OF t(3)])
  have g: "lg_n t = 0" "lg_start t = 2" "lg_size t = 30" "lg_dev t = 1" "dsize t = 2000" "lg_outstanding t = 1" "sb t = sb fs_start"
    using bio_frame_log [OF t(3)] bio_frame_dsize [OF t(3)] log_frame_fs(1) [OF lf] by (simp_all add: fs_start_simps)
  have h: "home_list t = []" using g by (simp add: home_list_def)
  have x: "txn 0 {} {} t"
    using t(2,4-7) g h by (simp add: txn_def log_place_def logged_def ROOTDEV_def LOGSIZE_def MAXOPBLOCKS_def disk_block_id)
  have v: "bval t (of_nat b) = disk fs_start b" if "b < 2 ^ 31" for b
    using t(4,7) that disk_block_id [of "of_nat b"] by (simp add: unat_of_nat take_bit_nat_eq_self)
  have B: "bmap_block t b = 45" if "b < 200" for b
  proof -
    have "unat (of_nat b div 8192 :: uint32) = 0" using that by (simp add: unat_div unat_of_nat take_bit_nat_eq_self)
    then have "(of_nat b div 8192 :: uint32) = 0" by (simp only: unat_eq_zero)
    then show ?thesis using g(7) by (simp add: bmap_block_def BBLOCK_def fs_start_simps BPB_def BSIZE_def)
  qed
  have f: "blk_free t b \<longleftrightarrow> 48 \<le> b \<and> b < 200" for b
    using fs_start_bit [of b] B [of b] v [of 45] g(7) by (auto simp: blk_free_def fs_start_simps fs_start_disk BPB_def BSIZE_def)
  have "fs_txn 0 {} k t"
    using x g h f B assms by (auto simp: fs_txn_def bitmap_ok_def home_block_def log_area_def fs_start_simps LOGSIZE_def MAXOPBLOCKS_def
        unat_of_nat take_bit_nat_eq_self word_unat_eq_iff)
  then show thesis using t(1) f lf v B by (intro that [of t]) auto
qed

theorem blocks_handed_out_once_witness:
  "\<exists>s t u. binit fs_start = Ret () s \<and> balloc ROOTDEV s = Ret 48 t \<and> {x. blk_free t x} = {49..<200} \<and>
     bfree ROOTDEV 48 s = Panic ''freeing free block'' \<and> bfree ROOTDEV 46 s = Ret () u \<and> {x. blk_free u x} = insert 46 {48..<200}"
proof -
  have k: "(2 :: nat) < 20" by simp
  obtain s where s: "binit fs_start = Ret () s" "fs_txn 0 {} 2 s" "\<forall>b. blk_free s b \<longleftrightarrow> 48 \<le> b \<and> b < 200" "log_frame fs_start s"
      "\<forall>b < 2 ^ 31. bval s (of_nat b) = disk fs_start b" "\<forall>b < 200. bmap_block s b = 45"
    by (rule fs_start_txn [OF k])
  note g = log_frame_simps [OF s(4)] log_frame_fs(1) [OF s(4)]
  have e: "blk_free s = (\<lambda>b. 48 \<le> b \<and> b < 200)" using s(3) by (simp add: fun_eq_iff)
  have r: "{x :: nat. 48 \<le> x \<and> x < 200} = {48..<200}" by auto
  have f: "{x. blk_free s x} = {48..<200}" "blk_free s 48" "\<not> blk_free s 46" unfolding e r by simp_all
  have "home_block s 46" "nblk s = 200" using g by (simp_all add: home_block_def log_area_def fs_start_simps LOGSIZE_def MAXOPBLOCKS_def)
  then obtain u where u: "bfree ROOTDEV 46 s = Ret () u" "{x. blk_free u x} = insert 46 {48..<200}"
    using blocks_handed_out_once [OF s(2), of 46] f s(6) by auto
  obtain c t where t: "balloc ROOTDEV s = Ret (of_nat c) t" "blk_free s c" "\<forall>x < c. \<not> blk_free s x" "{x. blk_free t x} = {48..<200} - {c}"
    using blocks_handed_out_once [OF s(2), of 48] f(1) by auto
  have "c = 48" using t(2,3) f(2) s(3) by (metis linorder_neqE_nat not_le)
  moreover have "{48..<200} - {48} = {49..<200 :: nat}" by (simp only: set_eq_iff Diff_iff atLeastLessThan_iff singleton_iff) linarith
  moreover have "bfree ROOTDEV 48 s = Panic ''freeing free block''" using blocks_handed_out_once [OF s(2), of 48] f(2) by simp
  ultimately show ?thesis using s(1) t(1,4) u by (intro exI [of _ s] exI [of _ t] exI [of _ u]) (simp only: of_nat_numeral)
qed


end
