(* ===== verification/Filemap.thy ===== *)
theory Filemap
  imports Fsprops
begin

text \<open>
  The blocks of a file: the pointers of an inode and its indirect block, the content they give, and \<^verbatim>\<open>bmap\<close>, which finds the block
  for a position or allocates it. A missing block reads as zeros, so \<^verbatim>\<open>bmap\<close> may allocate it at any time without changing the
  content.
\<close>

section \<open>The blocks of a file\<close>

text \<open>
  The pointers of an inode in one row: the direct blocks, the indirect block (number \<open>NDIRECT\<close>), and the entries of the indirect
  block.
\<close>

definition ptr :: "'z fs_state_scheme \<Rightarrow> nat \<Rightarrow> nat \<Rightarrow> uint32" where
  "ptr s ip j = (let a = i_addrs (itable s ip) in
     if j \<le> NDIRECT then a ! j else if a ! NDIRECT = 0 then 0 else rd32 (bval s (a ! NDIRECT)) (4 * (j - NDIRECT - 1)))"

definition slot_of :: "nat \<Rightarrow> nat" where
  "slot_of k = (if k < NDIRECT then k else k + 1)"

definition fblock :: "'z fs_state_scheme \<Rightarrow> nat \<Rightarrow> nat \<Rightarrow> block" where
  "fblock s ip k = (if ptr s ip (slot_of k) = 0 then replicate BSIZE 0 else bval s (ptr s ip (slot_of k)))"

definition fbyte :: "'z fs_state_scheme \<Rightarrow> nat \<Rightarrow> nat \<Rightarrow> byte" where
  "fbyte s ip i = fblock s ip (i div BSIZE) ! (i mod BSIZE)"

definition owned :: "'z fs_state_scheme \<Rightarrow> nat \<Rightarrow> uint32 set" where
  "owned s ip = ptr s ip ` {..MAXFILE} - {0}"

definition iblk :: "'z fs_state_scheme \<Rightarrow> nat \<Rightarrow> uint32" where
  "iblk s ip = IBLOCK (i_inum (itable s ip)) (sb s)"

abbreviation in_bitmap :: "'z fs_state_scheme \<Rightarrow> uint32 \<Rightarrow> bool" where
  "in_bitmap s b \<equiv> \<exists>y < nblk s. bmap_block s y = b"

text \<open>
  A well-formed file: on the root device, no block twice, every block of it in use, outside the log and the bitmap and not the
  block of the inode; block 0 is never free.
\<close>

definition file_ok :: "'z fs_state_scheme \<Rightarrow> nat \<Rightarrow> bool" where
  "file_ok s ip \<longleftrightarrow> i_dev (itable s ip) = ROOTDEV \<and> length (i_addrs (itable s ip)) = NDIRECT + 1 \<and> \<not> blk_free s 0 \<and>
     home_block s (iblk s ip) \<and> \<not> in_bitmap s (iblk s ip) \<and> \<not> blk_free s (unat (iblk s ip)) \<and> iblk s ip \<notin> owned s ip \<and>
     (\<forall>i j. i \<le> MAXFILE \<and> j \<le> MAXFILE \<and> ptr s ip i = ptr s ip j \<and> ptr s ip i \<noteq> 0 \<longrightarrow> i = j) \<and>
     (\<forall>b \<in> owned s ip. home_block s b \<and> \<not> in_bitmap s b \<and> \<not> blk_free s (unat b))"

lemma file_okD:
  assumes "file_ok s ip"
  shows "i_dev (itable s ip) = ROOTDEV" "length (i_addrs (itable s ip)) = NDIRECT + 1" "\<not> blk_free s 0"
    "home_block s (iblk s ip)" "\<not> in_bitmap s (iblk s ip)" "\<not> blk_free s (unat (iblk s ip))" "iblk s ip \<notin> owned s ip"
    "i \<le> MAXFILE \<Longrightarrow> j \<le> MAXFILE \<Longrightarrow> ptr s ip i = ptr s ip j \<Longrightarrow> ptr s ip i \<noteq> 0 \<Longrightarrow> i = j"
    "b \<in> owned s ip \<Longrightarrow> home_block s b" "b \<in> owned s ip \<Longrightarrow> \<not> in_bitmap s b" "b \<in> owned s ip \<Longrightarrow> \<not> blk_free s (unat b)"
  using assms unfolding file_ok_def by blast+

lemma free_word:
  assumes "blk_free s c" "\<not> blk_free s 0"
  shows "unat (of_nat c :: uint32) = c" "of_nat c \<noteq> (0 :: uint32)"
  using assms nblk_word [of c s] by (auto simp: blk_free_def)

lemma ptr_owned: "j \<le> MAXFILE \<Longrightarrow> ptr s ip j \<noteq> 0 \<Longrightarrow> ptr s ip j \<in> owned s ip"
  by (simp add: owned_def)

text \<open>Pointer \<open>j\<close>, which was 0, now names the new block \<open>c\<close>; the indirect block changes when \<open>j\<close> is one of its entries.\<close>

definition filled :: "nat \<Rightarrow> nat \<Rightarrow> nat \<Rightarrow> 'z fs_state_scheme \<Rightarrow> 'z fs_state_scheme \<Rightarrow> bool" where
  "filled ip j c s t \<longleftrightarrow> (\<forall>i \<le> MAXFILE. ptr t ip i = (if i = j then of_nat c else ptr s ip i)) \<and> bval t (of_nat c) = replicate BSIZE 0 \<and>
     (\<forall>b. b \<noteq> of_nat c \<and> \<not> in_bitmap s b \<and> (j > NDIRECT \<longrightarrow> b \<noteq> ptr s ip NDIRECT) \<longrightarrow> bval t b = bval s b) \<and>
     (\<forall>x. blk_free t x \<longleftrightarrow> x \<noteq> c \<and> blk_free s x) \<and> sb t = sb s \<and> home_block t = home_block s \<and>
     (\<exists>a. itable t = (itable s)(ip := (itable s ip)\<lparr>i_addrs := a\<rparr>) \<and> length a = NDIRECT + 1)"

lemma slot_of_simps: "slot_of k \<noteq> NDIRECT" "slot_of k = slot_of l \<longleftrightarrow> k = l" "k < MAXFILE \<Longrightarrow> slot_of k \<le> MAXFILE"
  by (auto simp: slot_of_def NDIRECT_def MAXFILE_def)

lemma filled_ok:
  assumes "file_ok s ip" "filled ip j c s t" "j \<le> MAXFILE" "ptr s ip j = 0" "blk_free s c" "fs_txn p L k s"
  shows "file_ok t ip" "\<forall>k < MAXFILE. fblock t ip k = fblock s ip k" "owned t ip = insert (of_nat c) (owned s ip)"
    "\<forall>b. b \<notin> owned t ip \<and> \<not> in_bitmap s b \<longrightarrow> bval t b = bval s b"
proof -
  note d = file_okD [OF assms(1)] and x = fs_txnD [OF assms(6)]
  have c: "c < nblk s" "of_nat c \<noteq> (0 :: uint32)" "unat (of_nat c :: uint32) = c"
    using assms(5) d(3) nblk_word [of c s] by (auto simp: blk_free_def)
  obtain a where a: "itable t = (itable s)(ip := (itable s ip)\<lparr>i_addrs := a\<rparr>)" "length a = NDIRECT + 1"
    using assms(2) unfolding filled_def by blast
  have f: "\<And>i. i \<le> MAXFILE \<Longrightarrow> ptr t ip i = (if i = j then of_nat c else ptr s ip i)" "bval t (of_nat c) = replicate BSIZE 0"
    "\<And>b. b \<noteq> of_nat c \<Longrightarrow> \<not> in_bitmap s b \<Longrightarrow> (j > NDIRECT \<longrightarrow> b \<noteq> ptr s ip NDIRECT) \<Longrightarrow> bval t b = bval s b"
    "\<And>x. blk_free t x \<longleftrightarrow> x \<noteq> c \<and> blk_free s x" "sb t = sb s" "home_block t = home_block s"
    using assms(2) unfolding filled_def by blast+
  have e: "bmap_block t = bmap_block s" "iblk t ip = iblk s ip" using f(5) a(1) by (simp_all add: bmap_block_def iblk_def fun_eq_iff)
  have nc: "b \<noteq> of_nat c" if "b \<in> owned s ip" for b using d(11) [OF that] assms(5) c(3) by auto
  show o: "owned t ip = insert (of_nat c) (owned s ip)"
    using f(1) assms(3,4) c(2) unfolding owned_def by (auto simp: image_iff split: if_splits)
  have ib: "iblk s ip \<noteq> of_nat c" using d(6) assms(5) c(3) by auto
  have uq: "i = i'" if "i \<le> MAXFILE" "i' \<le> MAXFILE" "ptr t ip i = ptr t ip i'" "ptr t ip i \<noteq> 0" for i i'
  proof -
    have "ptr s ip l \<noteq> of_nat c" if "l \<le> MAXFILE" for l using nc [OF ptr_owned [OF that]] c(2) by (cases "ptr s ip l = 0") auto
    then show ?thesis using that f(1) d(8) [of i i'] by (auto split: if_splits)
  qed
  have ow: "home_block s b \<and> \<not> in_bitmap s b \<and> \<not> blk_free t (unat b)" if "b \<in> owned t ip" for b
    using that d(9-11) x(10,11) [OF assms(5)] f(4) c(3) unfolding o by auto
  show "file_ok t ip" unfolding file_ok_def e f(6) f(5)
    using d(1-7) a f(4) ib o uq ow by auto
  show "\<forall>k < MAXFILE. fblock t ip k = fblock s ip k"
  proof (intro allI impI)
    fix k assume k: "k < MAXFILE"
    let ?b = "ptr s ip (slot_of k)"
    note kj = slot_of_simps(3) [OF k]
    show "fblock t ip k = fblock s ip k"
    proof (cases "slot_of k = j \<or> ?b = 0")
      case True
      then show ?thesis using f(1) [OF kj] f(2) assms(4) c(2) by (auto simp: fblock_def)
    next
      case False
      then have b: "?b \<in> owned s ip" "?b \<noteq> ptr s ip NDIRECT"
        using ptr_owned [OF kj] d(8) [OF kj, of NDIRECT] slot_of_simps(1) by (auto simp: MAXFILE_def)
      then show ?thesis using f(1) [OF kj] f(3) [OF nc [OF b(1)] d(10) [OF b(1)]] False by (simp add: fblock_def)
    qed
  qed
  have "ptr s ip NDIRECT \<in> owned s ip" if "j > NDIRECT"
  proof -
    have "ptr t ip j \<noteq> 0" using f(1) [OF assms(3)] c(2) by simp
    then have "ptr t ip NDIRECT \<noteq> 0" using that by (auto simp: ptr_def Let_def split: if_splits)
    then show ?thesis using f(1) [of NDIRECT] that ptr_owned [of NDIRECT s ip] by (simp add: MAXFILE_def)
  qed
  then show "\<forall>b. b \<notin> owned t ip \<and> \<not> in_bitmap s b \<longrightarrow> bval t b = bval s b" using f(3) unfolding o by blast
qed

section \<open>Finding and allocating a block\<close>

text \<open>The file may have got more blocks, but reads as before.\<close>

definition kept :: "nat \<Rightarrow> nat \<Rightarrow> nat \<Rightarrow> 'z fs_state_scheme \<Rightarrow> 'z fs_state_scheme \<Rightarrow> bool" where
  "kept p r ip s t \<longleftrightarrow> fs_txn p {} r t \<and> file_ok t ip \<and> (\<forall>k < MAXFILE. fblock t ip k = fblock s ip k) \<and> owned s ip \<subseteq> owned t ip \<and> owned t ip \<subseteq> owned s ip \<union> {b. blk_free s (unat b)} \<and>
     (\<forall>j \<le> MAXFILE. ptr s ip j \<noteq> 0 \<longrightarrow> ptr t ip j = ptr s ip j) \<and>
     (\<forall>b. b \<notin> owned t ip \<and> \<not> in_bitmap s b \<longrightarrow> bval t b = bval s b) \<and> sb t = sb s \<and> home_block t = home_block s \<and>
     (\<exists>a. itable t = (itable s)(ip := (itable s ip)\<lparr>i_addrs := a\<rparr>)) \<and> (\<forall>x. blk_free t x \<longrightarrow> blk_free s x)"

lemma filled_kept:
  assumes "file_ok s ip" "filled ip j c s t" "j \<le> MAXFILE" "ptr s ip j = 0" "blk_free s c" "fs_txn p L k s" "fs_txn p {} r t"
  shows "kept p r ip s t"
proof -
  note k = filled_ok [OF assms(1-6)]
  have f: "\<forall>i \<le> MAXFILE. ptr t ip i = (if i = j then of_nat c else ptr s ip i)" "\<forall>x. blk_free t x \<longleftrightarrow> x \<noteq> c \<and> blk_free s x" "sb t = sb s"
    "home_block t = home_block s" "\<exists>a. itable t = (itable s)(ip := (itable s ip)\<lparr>i_addrs := a\<rparr>) \<and> length a = NDIRECT + 1"
    using assms(2) unfolding filled_def by blast+
  have "owned t ip \<subseteq> owned s ip \<union> {b. blk_free s (unat b)}" "owned s ip \<subseteq> owned t ip"
    using k(3) free_word(1) [OF assms(5) file_okD(3) [OF assms(1)]] assms(5) by auto
  moreover have "\<forall>i \<le> MAXFILE. ptr s ip i \<noteq> 0 \<longrightarrow> ptr t ip i = ptr s ip i" using f(1) assms(4) by auto
  moreover have "\<exists>a. itable t = (itable s)(ip := (itable s ip)\<lparr>i_addrs := a\<rparr>)" using f(5) by blast
  moreover have "\<forall>x. blk_free t x \<longrightarrow> blk_free s x" using f(2) by simp
  ultimately show ?thesis unfolding kept_def using assms(7) k(1,2,4) f(3,4) by (intro conjI)
qed

lemma keptD:
  assumes "kept p r ip s t"
  shows "fs_txn p {} r t" "file_ok t ip" "k < MAXFILE \<Longrightarrow> fblock t ip k = fblock s ip k" "owned s ip \<subseteq> owned t ip"
    "b \<notin> owned t ip \<Longrightarrow> \<not> in_bitmap s b \<Longrightarrow> bval t b = bval s b" "sb t = sb s" "home_block t = home_block s"
    "\<exists>a. itable t = (itable s)(ip := (itable s ip)\<lparr>i_addrs := a\<rparr>)" "blk_free t x \<Longrightarrow> blk_free s x"
    "bmap_block t = bmap_block s" "iblk t ip = iblk s ip" "j \<le> MAXFILE \<Longrightarrow> ptr s ip j \<noteq> 0 \<Longrightarrow> ptr t ip j = ptr s ip j"
    "owned t ip \<subseteq> owned s ip \<union> {b. blk_free s (unat b)}"
  using assms unfolding kept_def
  by (blast, blast, blast, blast, blast, blast, blast, blast, blast, auto simp: bmap_block_def iblk_def fun_eq_iff)

lemma kept_trans:
  assumes "kept p r' ip s t" "kept p r ip t u"
  shows "kept p r ip s u"
proof -
  note a = keptD [OF assms(1)] and b = keptD [OF assms(2)]
  have "bval u x = bval s x" if "x \<notin> owned u ip" "\<not> in_bitmap s x" for x
    using a(5) [of x] b(5) [of x] b(4) that a(6,10) by auto
  moreover have "\<exists>c. itable u = (itable s)(ip := (itable s ip)\<lparr>i_addrs := c\<rparr>)" using a(8) b(8) by auto
  moreover have "\<forall>k < MAXFILE. fblock u ip k = fblock s ip k" using a(3) b(3) by simp
  moreover have "ptr u ip j = ptr s ip j" if "j \<le> MAXFILE" "ptr s ip j \<noteq> 0" for j using a(12) [OF that] b(12) [OF that(1)] that by simp
  moreover have "owned u ip \<subseteq> owned s ip \<union> {b. blk_free s (unat b)}" using a(9,13) b(13) by blast
  ultimately show ?thesis using a(4,6,7,9) b(1,2,4,6,7,9) unfolding kept_def by auto
qed

text \<open>A change of the buffer cache only.\<close>

definition same_file :: "'z fs_state_scheme \<Rightarrow> 'z fs_state_scheme \<Rightarrow> bool" where
  "same_file s t \<longleftrightarrow> bval t = bval s \<and> sb t = sb s \<and> itable t = itable s \<and> home_block t = home_block s"

lemma same_fileI: "log_frame s t \<Longrightarrow> bval t = bval s \<Longrightarrow> same_file s t"
  using log_frame_fs(1,2) [of s t] home_block_frame [of s t] by (simp add: same_file_def)

lemma same_file:
  assumes "same_file s t"
  shows "ptr t = ptr s" "bmap_block t = bmap_block s" "iblk t = iblk s" "blk_free t = blk_free s" "fblock t = fblock s" "owned t = owned s"
    "file_ok t = file_ok s" "bval t = bval s" "sb t = sb s" "itable t = itable s" "home_block t = home_block s"
proof -
  note a = assms [unfolded same_file_def, THEN conjunct1] assms [unfolded same_file_def, THEN conjunct2, THEN conjunct1]
    assms [unfolded same_file_def, THEN conjunct2, THEN conjunct2, THEN conjunct1]
    assms [unfolded same_file_def, THEN conjunct2, THEN conjunct2, THEN conjunct2]
  show e: "ptr t = ptr s" "bmap_block t = bmap_block s" "iblk t = iblk s" "blk_free t = blk_free s"
    by (intro ext; simp only: ptr_def bmap_block_def iblk_def blk_free_def a)+
  show f: "fblock t = fblock s" "owned t = owned s" by (intro ext; simp only: fblock_def owned_def e a)+
  show "file_ok t = file_ok s" by (intro ext; simp only: file_ok_def e f a)
  show "bval t = bval s" "sb t = sb s" "itable t = itable s" "home_block t = home_block s" by (rule a)+
qed

lemma kept_same:
  assumes "fs_txn p {} r t" "file_ok s ip" "same_file s t"
  shows "kept p r ip s t"
proof -
  note e = same_file [OF assms(3)]
  have "\<exists>a. itable s = (itable s)(ip := (itable s ip)\<lparr>i_addrs := a\<rparr>)"
    by (intro exI [of _ "i_addrs (itable s ip)"]) (simp add: fun_eq_iff)
  then show ?thesis using assms(1,2) unfolding kept_def e by simp
qed

lemma kept_shift:
  assumes "same_file s s1" "kept p r ip s1 t"
  shows "kept p r ip s t"
  using assms(2) unfolding kept_def same_file [OF assms(1)] .

lemma itable_disk [simp]: "slot (s\<lparr>itable := x\<rparr>) = slot s" "disk (s\<lparr>itable := x\<rparr>) = disk s" "bmap_block (s\<lparr>itable := x\<rparr>) = bmap_block s"
  by (simp_all add: slot_def disk_def bmap_block_def fun_eq_iff)

lemma itable_cache [simp]:
  "bc_inv (s\<lparr>itable := x\<rparr>) = bc_inv s" "bval (s\<lparr>itable := x\<rparr>) = bval s" "home_block (s\<lparr>itable := x\<rparr>) = home_block s"
  "refs (s\<lparr>itable := x\<rparr>) = refs s" "bowner (s\<lparr>itable := x\<rparr>) = bowner s"
  by (simp_all add: bc_inv_def dll_def bval_def home_block_def log_area_def refs_def bowner_def fun_eq_iff split: option.split)

lemma itable_free [simp]: "blk_free (s\<lparr>itable := x\<rparr>) = blk_free s"
  by (simp add: blk_free_def fun_eq_iff)

lemma fs_txn_itable: "fs_txn p L k (s\<lparr>itable := x\<rparr>) = fs_txn p L k s"
  unfolding fs_txn_def txn_def log_place_def idle_def bitmap_ok_def logged_def home_list_def by simp

lemma rd32_zero: "rd32 (replicate n 0) off = 0"
proof -
  have "le_dec (replicate k 0) = (0 :: uint32)" for k by (rule bit_word_eqI) (simp add: bit_le_dec)
  then show ?thesis by (simp add: rd32_def slice_def take_replicate drop_replicate)
qed

text \<open>The new block \<open>c\<close> becomes pointer \<open>j\<close> of the inode itself.\<close>

lemma filled_inode:
  assumes "file_ok s ip" "j \<le> NDIRECT" "ptr s ip j = 0" "blk_free s c" "allocated p {} r c s t"
  shows "filled ip j c s (upd_inode ip (\<lambda>n. n\<lparr>i_addrs := (i_addrs n)[j := of_nat c]\<rparr>) t)" (is "filled ip j c s ?u")
proof -
  note d = file_okD [OF assms(1)]
  have t: "log_frame s t" "\<And>x. blk_free t x \<longleftrightarrow> x \<noteq> c \<and> blk_free s x" "bval t (of_nat c) = replicate BSIZE 0"
    "\<And>x. x \<noteq> of_nat c \<Longrightarrow> \<not> in_bitmap s x \<Longrightarrow> bval t x = bval s x"
    using assms(5) unfolding allocated_def by auto
  have e: "sb t = sb s" "itable t = itable s" "home_block t = home_block s" "bmap_block t = bmap_block s"
    using log_frame_fs [OF t(1)] home_block_frame [OF t(1)] by (simp_all add: bmap_block_def fun_eq_iff)
  let ?a = "i_addrs (itable s ip)"
  have c: "c < nblk s" "of_nat c \<noteq> (0 :: uint32)" "unat (of_nat c :: uint32) = c"
    using assms(4) d(3) nblk_word [of c s] by (auto simp: blk_free_def)
  have au: "i_addrs (itable ?u ip) = ?a[j := of_nat c]" using e(2) by (simp add: upd_inode_def)
  have "ptr ?u ip i = (if i = j then of_nat c else ptr s ip i)" if i: "i \<le> MAXFILE" for i
  proof (cases "i \<le> NDIRECT")
    case True
    then show ?thesis using d(2) assms(2) unfolding ptr_def Let_def au by (simp add: nth_list_update)
  next
    case False
    show ?thesis
    proof (cases "j = NDIRECT")
      case True
      then have "?a ! NDIRECT = 0" using assms(3) by (simp add: ptr_def Let_def)
      then show ?thesis using False True d(2) t(3) unfolding ptr_def Let_def au by (simp add: upd_inode_def rd32_zero)
    next
      case j: False
      have "bval t (?a ! NDIRECT) = bval s (?a ! NDIRECT)" if "?a ! NDIRECT \<noteq> 0"
      proof -
        have "?a ! NDIRECT \<in> owned s ip" using ptr_owned [of NDIRECT s ip] that by (simp add: ptr_def MAXFILE_def)
        then show ?thesis using d(10,11) [of "?a ! NDIRECT"] assms(4) c(3) by (intro t(4)) auto
      qed
      then show ?thesis using False j assms(2) unfolding ptr_def Let_def au by (auto simp: upd_inode_def)
    qed
  qed
  then show ?thesis using t(2-4) e d(2) unfolding filled_def by (auto simp: upd_inode_def)
qed

lemma alloc_slot:
  assumes "fs_txn p {} (Suc (Suc r)) s" "file_ok s ip" "j \<le> NDIRECT" "ptr s ip j = 0"
  obtains b t where "bnd (balloc (i_dev (itable s ip)) s) (\<lambda>addr s. if addr = 0 then Ret 0 s
      else Ret addr (upd_inode ip (\<lambda>n. n\<lparr>i_addrs := (i_addrs n)[j := addr]\<rparr>) s)) = Ret b t"
    "kept p r ip s t" "b = ptr t ip j" "b = 0 \<longrightarrow> (\<forall>x. \<not> blk_free t x)"
proof -
  note d = file_okD [OF assms(2)]
  show thesis using balloc_allocates [OF assms(1)]
  proof (elim disjE exE conjE)
    fix t assume a: "\<forall>x. \<not> blk_free s x" "balloc ROOTDEV s = Ret 0 t" "fs_txn p {} r t" "bval t = bval s" "sb t = sb s" "itable t = itable s"
      "home_block t = home_block s"
    have sf: "same_file s t" using a(4-7) by (simp add: same_file_def)
    note k = kept_same [OF a(3) assms(2) sf]
    show thesis
      by (rule that [of 0 t]) (use a(1,2) d(1) k same_file(1,4) [OF sf] assms(4) in auto)
  next
    fix c t assume a: "balloc ROOTDEV s = Ret (of_nat c) t" "blk_free s c" "allocated p {} r c s t"
    let ?u = "upd_inode ip (\<lambda>n. n\<lparr>i_addrs := (i_addrs n)[j := of_nat c]\<rparr>) t"
    have f: "filled ip j c s ?u" by (rule filled_inode [OF assms(2-4) a(2,3)])
    have j: "j \<le> MAXFILE" using assms(3) by (simp add: MAXFILE_def)
    have "fs_txn p {} r ?u" using a(3) by (simp add: allocated_def upd_inode_def fs_txn_itable)
    then have "kept p r ip s ?u" by (rule filled_kept [OF assms(2) f j assms(4) a(2) assms(1)])
    moreover have "ptr ?u ip j = of_nat c" using f j unfolding filled_def by simp
    moreover have "of_nat c \<noteq> (0 :: uint32)" using a(2) d(3) nblk_word [of c s] by (auto simp: blk_free_def)
    ultimately show thesis using a(1) d(1) by (intro that [of "of_nat c" ?u]) simp_all
  qed
qed

lemma fs_txn_mono: "fs_txn p L k s \<Longrightarrow> k' \<le> k \<Longrightarrow> fs_txn p L k' s"
  by (auto simp: fs_txn_def)

lemma kept_mono: "kept p r ip s t \<Longrightarrow> r' \<le> r \<Longrightarrow> kept p r' ip s t"
  using fs_txn_mono unfolding kept_def by blast

text \<open>Reading, writing and releasing one block inside a transaction.\<close>

lemma fs_bread:
  assumes "fs_txn p {} (Suc k) s" "home_block s b" "\<not> in_bitmap s b" "\<not> blk_free s (unat b)"
  obtains i t where "bread ROOTDEV b s = Ret i t" "fs_txn p {b} k t" "slot t b = Some i" "b_data (bufs t i) = bval s b" "bval t = bval s"
    "log_frame s t"
proof -
  note d = fs_txnD [OF assms(1)]
  have r: "length (home_list s) + card ({} :: uint32 set) < NBUF" using d(6) by (simp add: LOGSIZE_def NBUF_def MAXOPBLOCKS_def)
  have n: "b \<notin> {}" by simp
  obtain i t where t: "bread ROOTDEV b s = Ret i t" "txn p {b} {} t" "slot t b = Some i" "b_data (bufs t i) = bval s b"
    "bval t = bval s" "home_list t = home_list s" "bio_frame s t"
    by (rule txn_bread [OF d(1) assms(2) n r])
  have lf: "log_frame s t" by (rule bio_frame_lg [OF t(7)])
  have e: "blk_free t = blk_free s" "bmap_block t = bmap_block s" "nblk t = nblk s" "home_block t = home_block s"
    "lg_outstanding t = lg_outstanding s"
    using same_bitmap(1-3) [OF lf t(5), of "{}"] home_block_frame [OF lf] log_frame_simps(7) [OF lf] by simp_all
  have "fs_txn p {b} k t" using t(2,6) d(4-6) assms(3,4) unfolding fs_txn_def bitmap_ok_def e by auto
  then show thesis using t lf by (intro that [of i t])
qed

lemma fs_brelse:
  assumes "fs_txn p {b} k s" "slot s b = Some i"
  obtains t where "brelse i s = Ret () t" "fs_txn p {} (Suc k) t" "bval t = bval s" "log_frame s t"
proof -
  note d = fs_txnD [OF assms(1)]
  have n: "b \<notin> {}" by simp
  obtain t where t: "brelse i s = Ret () t" "txn p ({b} - {b}) {} t" "slot t = slot s" "bval t = bval s" "bio_frame s t"
    "home_list t = home_list s"
    by (rule txn_brelse [OF d(1) singletonI n assms(2)])
  have lf: "log_frame s t" by (rule bio_frame_lg [OF t(5)])
  have e: "blk_free t = blk_free s" "bmap_block t = bmap_block s" "nblk t = nblk s" "home_block t = home_block s"
    "lg_outstanding t = lg_outstanding s"
    using same_bitmap(1-3) [OF lf t(4), of "{}"] home_block_frame [OF lf] log_frame_simps(7) [OF lf] by simp_all
  have "fs_txn p {} (Suc k) t" using t(2,6) d(4-6) unfolding fs_txn_def bitmap_ok_def e by auto
  then show thesis using t lf by (intro that [of t])
qed

lemma fs_write_release:
  assumes "fs_txn p {b} k s" "slot s b = Some i" "length v = BSIZE"
  obtains t u where "log_write i (upd_buf i (\<lambda>x. x\<lparr>b_data := v\<rparr>) s) = Ret () t" "brelse i t = Ret () u" "fs_txn p {} k u"
    "bval u = (bval s)(b := v)" "log_frame s u"
proof -
  note d = fs_txnD [OF assms(1)]
  let ?s1 = "upd_buf i (\<lambda>x. x\<lparr>b_data := v\<rparr>) s"
  note s1 = txn_set [OF d(1) singletonI assms(2,3)]
  have f1: "log_frame s ?s1" by (rule bio_frame_lg [OF s1(5)])
  have a: "slot ?s1 b = Some i" "length (home_list ?s1) < LOGSIZE - 1" "lg_outstanding ?s1 \<ge> 1"
    using s1(3,4) assms(2) d(5,6) log_frame_simps(7) [OF f1] by simp_all
  obtain t where t: "log_write i ?s1 = Ret () t" "txn p {b} ({b} - {b}) t" "slot t = slot ?s1" "bval t = bval ?s1" "log_frame ?s1 t"
    "home_list t = (if logged ?s1 b then home_list ?s1 else home_list ?s1 @ [unat b])"
    by (rule txn_log_write [OF s1(1) singletonI a])
  have b: "slot t b = Some i" "b \<notin> {b} - {b}" using t(3) a(1) by simp_all
  obtain u where u: "brelse i t = Ret () u" "txn p ({b} - {b}) ({b} - {b}) u" "bval u = bval t" "bio_frame t u" "home_list u = home_list t"
    by (rule txn_brelse [OF t(2) singletonI b(2,1)])
  have lf: "log_frame s u" using log_frame_trans [OF f1 log_frame_trans [OF t(5) bio_frame_lg [OF u(4)]]] .
  have bv: "bval u = (bval s)(b := v)" using u(3) t(4) s1(2) by simp
  have e: "sb u = sb s" "bmap_block u = bmap_block s" "home_block u = home_block s" "lg_outstanding u = lg_outstanding s"
    using log_frame_fs(1) [OF lf] home_block_frame [OF lf] log_frame_simps(7) [OF lf] by (simp_all add: bmap_block_def fun_eq_iff)
  have fr: "blk_free u x \<longleftrightarrow> blk_free s x" for x using d(7) [of x] bv e(1,2) by (auto simp: blk_free_def)
  have "length (home_list u) \<le> Suc (length (home_list s))" using u(5) t(6) s1(4) by simp
  then have "fs_txn p {} k u" using u(2) d(4-6) fr unfolding fs_txn_def bitmap_ok_def e by auto
  then show thesis using t(1) u(1) bv lf by (intro that [of t u])
qed

text \<open>The new block \<open>c\<close> becomes an entry of the indirect block.\<close>

lemma filled_indirect:
  assumes "file_ok s ip" "bc_inv s" "ptr s ip NDIRECT \<noteq> 0" "NDIRECT < j" "j \<le> MAXFILE" "blk_free s c" "log_frame s u"
    and "bval u = (bval t)(ptr s ip NDIRECT := wr32 (bval s (ptr s ip NDIRECT)) (4 * (j - NDIRECT - 1)) (of_nat c))"
    and "allocated p L r c s t" "blk_free u = blk_free t"
  shows "filled ip j c s u"
proof -
  note d = file_okD [OF assms(1)]
  let ?d = "ptr s ip NDIRECT"
  have i: "?d = i_addrs (itable s ip) ! NDIRECT" by (simp add: ptr_def Let_def)
  have own: "?d \<in> owned s ip" using ptr_owned [OF _ assms(3)] by (simp add: MAXFILE_def)
  have t: "\<And>x. blk_free t x \<longleftrightarrow> x \<noteq> c \<and> blk_free s x" "bval t (of_nat c) = replicate BSIZE 0"
    "\<And>x. x \<noteq> of_nat c \<Longrightarrow> \<not> in_bitmap s x \<Longrightarrow> bval t x = bval s x"
    using assms(9) unfolding allocated_def by auto
  have e: "sb u = sb s" "itable u = itable s" "home_block u = home_block s"
    using log_frame_fs [OF assms(7)] home_block_frame [OF assms(7)] by simp_all
  have c: "unat (of_nat c :: uint32) = c" using assms(6) nblk_word [of c s] by (auto simp: blk_free_def)
  have dc: "?d \<noteq> of_nat c" using d(11) [OF own] assms(6) c by auto
  have "ptr u ip l = (if l = j then of_nat c else ptr s ip l)" if l: "l \<le> MAXFILE" for l
  proof (cases "l \<le> NDIRECT")
    case True
    then show ?thesis using e(2) assms(4) by (simp add: ptr_def)
  next
    case False
    have len: "4 * (l - NDIRECT - 1) + 4 \<le> BSIZE" "4 * (j - NDIRECT - 1) + 4 \<le> BSIZE"
      using l assms(5) False by (simp_all add: MAXFILE_def NINDIRECT_def NDIRECT_def BSIZE_def)
    have "ptr u ip l = rd32 (wr32 (bval s ?d) (4 * (j - NDIRECT - 1)) (of_nat c)) (4 * (l - NDIRECT - 1))"
      using False assms(3,8) e(2) unfolding i by (simp add: ptr_def Let_def)
    also have "\<dots> = (if l = j then of_nat c else rd32 (bval s ?d) (4 * (l - NDIRECT - 1)))"
    proof (cases "l = j")
      case True
      then show ?thesis using rd_wr_same(2) [of "4 * (j - NDIRECT - 1)" "bval s ?d"] len length_bval [OF assms(2)] by simp
    next
      case ne: False
      then have "4 * (l - NDIRECT - 1) + 4 \<le> 4 * (j - NDIRECT - 1) \<or> 4 * (j - NDIRECT - 1) + 4 \<le> 4 * (l - NDIRECT - 1)"
        using False assms(4) by linarith
      then show ?thesis using ne rd_wr_other(2) [of _ "bval s ?d"] len length_bval [OF assms(2)] by simp
    qed
    also have "\<dots> = (if l = j then of_nat c else ptr s ip l)" using False assms(3) unfolding i by (simp add: ptr_def Let_def)
    finally show ?thesis .
  qed
  moreover have "\<exists>a. itable u = (itable s)(ip := (itable s ip)\<lparr>i_addrs := a\<rparr>) \<and> length a = NDIRECT + 1"
    using e(2) d(2) by (intro exI [of _ "i_addrs (itable s ip)"]) (simp add: fun_eq_iff)
  ultimately show ?thesis using t dc e assms(4,8,10) unfolding filled_def by auto
qed

lemma indirect_entry:
  assumes "fs_txn p {} (Suc (Suc (Suc r))) s" "file_ok s ip" "ptr s ip NDIRECT \<noteq> 0" "NDIRECT < j" "j \<le> MAXFILE"
  obtains b t where "bnd (bread (i_dev (itable s ip)) (ptr s ip NDIRECT) s) (\<lambda>bp s.
      let addr = rd32 (b_data (bufs s bp)) (4 * (j - NDIRECT - 1)) in
      bnd (if addr = 0 then
             bnd (balloc (i_dev (itable s ip)) s) (\<lambda>addr s.
             if addr \<noteq> 0 then
               let s = upd_data bp (\<lambda>d. wr32 d (4 * (j - NDIRECT - 1)) addr) s in
               bnd (log_write bp s) (\<lambda>_ s. Ret addr s)
             else Ret addr s)
           else Ret addr s) (\<lambda>addr s.
      bnd (brelse bp s) (\<lambda>_ s. Ret addr s))) = Ret b t"
    "kept p r ip s t" "b = ptr t ip j" "b = 0 \<longrightarrow> (\<forall>x. \<not> blk_free t x)"
proof -
  note d = file_okD [OF assms(2)]
  let ?d = "ptr s ip NDIRECT" and ?o = "4 * (j - NDIRECT - 1)"
  have own: "?d \<in> owned s ip" using ptr_owned [OF _ assms(3)] by (simp add: MAXFILE_def)
  obtain i s1 where s1: "bread ROOTDEV ?d s = Ret i s1" "fs_txn p {?d} (Suc (Suc r)) s1" "slot s1 ?d = Some i" "b_data (bufs s1 i) = bval s ?d"
    "bval s1 = bval s" "log_frame s s1"
    by (rule fs_bread [OF assms(1) d(9-11) [OF own]])
  have sf: "same_file s s1" by (rule same_fileI [OF s1(6,5)])
  note e = same_file [OF sf]
  have pj: "rd32 (bval s ?d) ?o = ptr s ip j" using assms(3,4) by (simp add: ptr_def Let_def)
  show thesis
  proof (cases "ptr s ip j = 0")
    case False
    obtain t where t: "brelse i s1 = Ret () t" "fs_txn p {} (Suc (Suc (Suc r))) t" "bval t = bval s1" "log_frame s1 t"
      by (rule fs_brelse [OF s1(2,3)])
    have sf': "same_file s t" by (rule same_fileI [OF log_frame_trans [OF s1(6) t(4)]]) (simp add: t(3) s1(5))
    have "kept p r ip s t" by (rule kept_same [OF fs_txn_mono [OF t(2)] assms(2) sf']) simp
    then show thesis using False s1(1,4) t(1) pj d(1) same_file(1) [OF sf'] by (intro that [of "ptr s ip j" t]) simp_all
  next
    case True
    then have rd: "rd32 (b_data (bufs s1 i)) ?o = 0" using pj s1(4) by simp
    show thesis using balloc_allocates [OF s1(2)]
    proof (elim disjE exE conjE)
      fix t assume a: "\<forall>x. \<not> blk_free s1 x" "balloc ROOTDEV s1 = Ret 0 t" "fs_txn p {?d} r t" "bval t = bval s1" "sb t = sb s1"
        "itable t = itable s1" "home_block t = home_block s1" "\<forall>x \<in> {?d}. slot t x = slot s1 x"
      obtain u where u: "brelse i t = Ret () u" "fs_txn p {} (Suc r) u" "bval u = bval t" "log_frame t u"
        by (rule fs_brelse [OF a(3)]) (use a(8) s1(3) in auto)
      have sf': "same_file s u" using a(4-7) u(3) log_frame_fs [OF u(4)] home_block_frame [OF u(4)] sf by (simp add: same_file_def)
      have "kept p r ip s u" by (rule kept_same [OF fs_txn_mono [OF u(2)] assms(2) sf']) simp
      then show thesis using True rd s1(1,4) u(1) a(1,2) pj d(1) same_file(1,4) [OF sf'] e(4,10) by (intro that [of 0 u]) simp_all
    next
      fix c t assume a: "balloc ROOTDEV s1 = Ret (of_nat c) t" "blk_free s1 c" "allocated p {?d} r c s1 t"
      have fx: "fs_txn p {?d} r t" "log_frame s1 t" using a(3) by (simp_all add: allocated_def)
      have sl: "slot t ?d = Some i" using a(3) s1(3) by (simp add: allocated_def)
      have c: "unat (of_nat c :: uint32) = c" "of_nat c \<noteq> (0 :: uint32)"
        using free_word [of s c] a(2) d(3) e(4) by simp_all
      have "?d \<noteq> of_nat c" using d(11) [OF own] a(2) c(1) e(4) by auto
      then have "bval t ?d = bval s ?d" using a(3) d(10) [OF own] s1(5) e(2,9) unfolding allocated_def by simp
      then have dt: "b_data (bufs t i) = bval s ?d" using bval_at [OF fs_txnD(2) [OF fx(1)] sl] txnD(9) [OF fs_txnD(1) [OF fx(1)]] by simp
      have len: "length (wr32 (bval s ?d) ?o (of_nat c)) = BSIZE"
        using length_bval [OF fs_txnD(2) [OF assms(1)]] assms(4,5) by (simp add: MAXFILE_def NINDIRECT_def BSIZE_def)
      obtain v u where u: "log_write i (upd_buf i (\<lambda>x. x\<lparr>b_data := wr32 (bval s ?d) ?o (of_nat c)\<rparr>) t) = Ret () v" "brelse i v = Ret () u"
        "fs_txn p {} r u" "bval u = (bval t)(?d := wr32 (bval s ?d) ?o (of_nat c))" "log_frame t u"
        by (rule fs_write_release [OF fx(1) sl len])
      have up: "upd_data i (\<lambda>d. wr32 d ?o (of_nat c)) t = upd_buf i (\<lambda>x. x\<lparr>b_data := wr32 (bval s ?d) ?o (of_nat c)\<rparr>) t"
        unfolding upd_data_def by (rule upd_buf_data [OF dt])
      have "sb u = sb t" "bmap_block u = bmap_block t" using log_frame_fs(1) [OF u(5)] by (simp_all add: bmap_block_def fun_eq_iff)
      then have fu: "blk_free u = blk_free t" using fs_txnD(7) [OF fx(1)] u(4) by (intro ext) (auto simp: blk_free_def)
      have f: "filled ip j c s1 u"
        using filled_indirect [of s1 ip j c u t p "{?d}" r] assms(2-5) e a(2,3) u(4) fs_txnD(2) [OF s1(2)] log_frame_trans [OF fx(2) u(5)] fu by simp
      have "kept p r ip s1 u" by (rule filled_kept [OF _ f assms(5) _ a(2) s1(2) u(3)]) (use assms(2) True e in simp_all)
      then have "kept p r ip s u" by (rule kept_shift [OF sf])
      moreover have "ptr u ip j = of_nat c" using f assms(5) unfolding filled_def by simp
      ultimately show thesis using rd s1(1) a(1) u(1,2) up c(2) d(1) e(10) by (intro that [of "of_nat c" u]) simp_all
    qed
  qed
qed

lemma kept_refl: "fs_txn p {} k s \<Longrightarrow> r \<le> k \<Longrightarrow> file_ok s ip \<Longrightarrow> kept p r ip s s"
  by (rule kept_same) (auto simp: same_file_def intro: fs_txn_mono)

lemma bmap_ok:
  assumes "fs_txn p {} (5 + r) s" "file_ok s ip" "k < MAXFILE"
  obtains b t where "bmap ip (of_nat k) s = Ret b t" "kept p r ip s t" "b = ptr t ip (slot_of k)" "b = 0 \<longrightarrow> (\<forall>x. \<not> blk_free t x)"
proof -
  have u: "unat (of_nat k :: uint32) = k" using assms(3) by (simp add: unat_of_nat take_bit_nat_eq_self MAXFILE_def NDIRECT_def NINDIRECT_def BSIZE_def)
  have x: "fs_txn p {} (Suc (Suc r)) s" "fs_txn p {} (Suc (Suc (Suc (Suc (Suc r))))) s" using fs_txn_mono [OF assms(1)] assms(1) by simp_all
  show thesis
  proof (cases "k < NDIRECT")
    case k: True
    have p: "i_addrs (itable s ip) ! k = ptr s ip k" "slot_of k = k" using k by (simp_all add: ptr_def Let_def slot_of_def)
    show thesis
    proof (cases "ptr s ip k = 0")
      case False
      then show thesis using k p u kept_refl [OF assms(1) _ assms(2)] by (intro that [of "ptr s ip k" s]) (simp_all add: bmap_def)
    next
      case True
      obtain b t where t: "bnd (balloc (i_dev (itable s ip)) s) (\<lambda>addr s. if addr = 0 then Ret 0 s
          else Ret addr (upd_inode ip (\<lambda>n. n\<lparr>i_addrs := (i_addrs n)[k := addr]\<rparr>) s)) = Ret b t"
        "kept p r ip s t" "b = ptr t ip k" "b = 0 \<longrightarrow> (\<forall>x. \<not> blk_free t x)"
        by (rule alloc_slot [OF x(1) assms(2) less_imp_le [OF k] True])
      have "bmap ip (of_nat k) s = Ret b t" unfolding bmap_def u using t(1) True k p by simp
      then show thesis using t(2-4) p(2) by (intro that [of b t]) simp_all
    qed
  next
    case k: False
    let ?j = "k + 1" and ?two = "\<lambda>addr s. if addr = 0 then Ret 0 s
        else Ret addr (upd_inode ip (\<lambda>n. n\<lparr>i_addrs := (i_addrs n)[NDIRECT := addr]\<rparr>) s)"
    have p: "i_addrs (itable s ip) ! NDIRECT = ptr s ip NDIRECT" for s by (simp add: ptr_def Let_def)
    have j: "slot_of k = ?j" "NDIRECT < ?j" "?j \<le> MAXFILE" "?j - NDIRECT - 1 = k - NDIRECT" "k - NDIRECT < NINDIRECT"
      using k assms(3) by (auto simp: slot_of_def MAXFILE_def)
    obtain b s1 where s1: "(if ptr s ip NDIRECT = 0 then bnd (balloc (i_dev (itable s ip)) s) ?two else Ret (ptr s ip NDIRECT) s) = Ret b s1"
      "kept p (Suc (Suc (Suc r))) ip s s1" "b = ptr s1 ip NDIRECT" "b = 0 \<longrightarrow> (\<forall>x. \<not> blk_free s1 x)"
    proof (cases "ptr s ip NDIRECT = 0")
      case True
      obtain b t where "bnd (balloc (i_dev (itable s ip)) s) ?two = Ret b t" "kept p (Suc (Suc (Suc r))) ip s t" "b = ptr t ip NDIRECT"
        "b = 0 \<longrightarrow> (\<forall>x. \<not> blk_free t x)"
        by (rule alloc_slot [OF x(2) assms(2) order_refl True])
      then show ?thesis using True that by simp
    next
      case False
      then show ?thesis using that kept_refl [OF assms(1) _ assms(2)] by simp
    qed
    show thesis
    proof (cases "b = 0")
      case True
      then have "ptr s1 ip ?j = 0" using s1(3) k p by (simp add: ptr_def Let_def)
      moreover have "bmap ip (of_nat k) s = Ret 0 s1" unfolding bmap_def u Let_def p using s1(1) True k j(5) by simp
      ultimately show thesis using s1(4) True j(1) kept_mono [OF s1(2)] by (intro that [of 0 s1]) simp_all
    next
      case False
      note a = keptD [OF s1(2)]
      show thesis
      proof (rule indirect_entry [OF a(1,2) _ j(2,3)], goal_cases)
        case 1
        then show ?case using False s1(3) by simp
      next
        case (2 b' t)
        have "bmap ip (of_nat k) s = Ret b' t"
          unfolding bmap_def u Let_def p using 2(1) [unfolded j(4) Let_def] s1(1,3) False k j(5) by simp
        then show ?case using 2(2-4) kept_trans [OF s1(2) 2(2)] j(1) by (intro that [of b' t]) simp_all
      qed
    qed
  qed
qed

end
