(* ===== verification/Inodeio.thy ===== *)
theory Inodeio
  imports Filemap
begin

text \<open>
  Reading and writing files: what \<^verbatim>\<open>readi\<close> returns is what \<^verbatim>\<open>writei\<close> wrote, across direct and indirect blocks, in the middle of
  a file and at its end, with the inode on disk brought up to date and every other block of the disk left alone.
\<close>

section \<open>Writing\<close>

text \<open>The file may have got more blocks and other content; nothing else changes but the bitmap.\<close>

definition grown :: "nat \<Rightarrow> nat \<Rightarrow> nat \<Rightarrow> 'z fs_state_scheme \<Rightarrow> 'z fs_state_scheme \<Rightarrow> bool" where
  "grown p r ip s t \<longleftrightarrow> fs_txn p {} r t \<and> file_ok t ip \<and> owned s ip \<subseteq> owned t ip \<and> owned t ip \<subseteq> owned s ip \<union> {b. blk_free s (unat b)} \<and>
     (\<forall>j \<le> MAXFILE. ptr s ip j \<noteq> 0 \<longrightarrow> ptr t ip j = ptr s ip j) \<and>
     (\<forall>b. b \<notin> owned t ip \<and> \<not> in_bitmap s b \<longrightarrow> bval t b = bval s b) \<and> sb t = sb s \<and> home_block t = home_block s \<and>
     (\<exists>a. itable t = (itable s)(ip := (itable s ip)\<lparr>i_addrs := a\<rparr>)) \<and> (\<forall>x. blk_free t x \<longrightarrow> blk_free s x)"

lemma kept_grown: "kept p r ip s t \<Longrightarrow> grown p r ip s t"
  unfolding kept_def grown_def by (elim conjE) (intro conjI)

lemma grownD:
  assumes "grown p r ip s t"
  shows "fs_txn p {} r t" "file_ok t ip" "owned s ip \<subseteq> owned t ip" "j \<le> MAXFILE \<Longrightarrow> ptr s ip j \<noteq> 0 \<Longrightarrow> ptr t ip j = ptr s ip j"
    "b \<notin> owned t ip \<Longrightarrow> \<not> in_bitmap s b \<Longrightarrow> bval t b = bval s b" "sb t = sb s" "home_block t = home_block s"
    "\<exists>a. itable t = (itable s)(ip := (itable s ip)\<lparr>i_addrs := a\<rparr>)" "blk_free t x \<Longrightarrow> blk_free s x"
    "bmap_block t = bmap_block s" "iblk t ip = iblk s ip" "owned t ip \<subseteq> owned s ip \<union> {b. blk_free s (unat b)}"
  using assms unfolding grown_def
  by (blast, blast, blast, blast, blast, blast, blast, blast, blast, auto simp: bmap_block_def iblk_def fun_eq_iff)

lemma grown_trans:
  assumes "grown p r' ip s t" "grown p r ip t u"
  shows "grown p r ip s u"
proof -
  note a = grownD [OF assms(1)] and b = grownD [OF assms(2)]
  have "bval u x = bval s x" if "x \<notin> owned u ip" "\<not> in_bitmap s x" for x
    using a(5) [of x] b(5) [of x] b(3) that a(6,10) by auto
  moreover have "\<exists>c. itable u = (itable s)(ip := (itable s ip)\<lparr>i_addrs := c\<rparr>)" using a(8) b(8) by auto
  moreover have "ptr u ip j = ptr s ip j" if "j \<le> MAXFILE" "ptr s ip j \<noteq> 0" for j using a(4) [OF that] b(4) [OF that(1)] that by simp
  moreover have "owned u ip \<subseteq> owned s ip \<union> {b. blk_free s (unat b)}" using a(9,12) b(12) by blast
  ultimately show ?thesis using a(3,6,7,9) b(1,2,3,6,7,9) unfolding grown_def by auto
qed

lemma data_write:
  assumes "file_ok s ip" "k < MAXFILE" "ptr s ip (slot_of k) \<noteq> 0" "bval t = (bval s)(ptr s ip (slot_of k) := v)"
    "fs_txn p {} r t" "log_frame s t"
  shows "grown p r ip s t" "l < MAXFILE \<Longrightarrow> fblock t ip l = (if l = k then v else fblock s ip l)" "ptr t ip (slot_of k) \<noteq> 0"
proof -
  note d = file_okD [OF assms(1)]
  let ?b = "ptr s ip (slot_of k)"
  have k: "slot_of k \<le> MAXFILE" "?b \<in> owned s ip" using slot_of_simps(3) [OF assms(2)] ptr_owned assms(3) by auto
  have e: "sb t = sb s" "itable t = itable s" "home_block t = home_block s" "bmap_block t = bmap_block s" "iblk t = iblk s"
    using log_frame_fs [OF assms(6)] home_block_frame [OF assms(6)] by (simp_all add: bmap_block_def iblk_def fun_eq_iff)
  have i: "ptr s ip NDIRECT = i_addrs (itable s ip) ! NDIRECT" by (simp add: ptr_def Let_def)
  have "?b \<noteq> ptr s ip NDIRECT" using d(8) [OF k(1), of NDIRECT] assms(3) slot_of_simps(1) [of k] by (auto simp: MAXFILE_def)
  then have p: "ptr t ip = ptr s ip" using assms(4) e(2) unfolding i by (intro ext) (simp add: ptr_def Let_def)
  then have o: "owned t ip = owned s ip" by (simp add: owned_def)
  have f: "blk_free t = blk_free s" using d(10) [OF k(2)] assms(4) e(1,4) by (intro ext) (auto simp: blk_free_def)
  have "file_ok t ip" using assms(1) unfolding file_ok_def e f o p .
  moreover have "\<exists>a. itable s = (itable s)(ip := (itable s ip)\<lparr>i_addrs := a\<rparr>)"
    by (intro exI [of _ "i_addrs (itable s ip)"]) (simp add: fun_eq_iff)
  moreover have "\<forall>b. b \<notin> owned s ip \<and> \<not> in_bitmap s b \<longrightarrow> bval t b = bval s b" using assms(4) k(2) by auto
  ultimately show "grown p r ip s t" using assms(5) e unfolding grown_def f o p by simp
  show "fblock t ip l = (if l = k then v else fblock s ip l)" if "l < MAXFILE"
  proof (cases "l = k")
    case False
    then have "ptr s ip (slot_of l) \<noteq> ?b" using d(8) [OF k(1) slot_of_simps(3) [OF that]] assms(3) slot_of_simps(2) [of k l] by auto
    then show ?thesis using False assms(4) p by (simp add: fblock_def)
  qed (use assms(3,4) p in \<open>simp add: fblock_def\<close>)
  show "ptr t ip (slot_of k) \<noteq> 0" using p assms(3) by simp
qed

text \<open>The blocks that \<open>len\<close> bytes at offset \<open>off\<close> lie in.\<close>

definition blocks_at :: "nat \<Rightarrow> nat \<Rightarrow> nat" where
  "blocks_at off len = (if len = 0 then 0 else (off mod BSIZE + len + (BSIZE - 1)) div BSIZE)"

lemma blocks_at_step:
  assumes "0 < len" "m = min len (BSIZE - off mod BSIZE)"
  shows "blocks_at off len = Suc (blocks_at (off + m) (len - m))"
proof (cases "len \<le> BSIZE - off mod BSIZE")
  case True
  then have "off mod BSIZE + len + (BSIZE - 1) < 2 * BSIZE" "BSIZE \<le> off mod BSIZE + len + (BSIZE - 1)"
    using assms(1) mod_less_divisor [of BSIZE off] by (simp_all add: BSIZE_def)
  then have "(off mod BSIZE + len + (BSIZE - 1)) div BSIZE = 1" by (simp add: BSIZE_def)
  then show ?thesis using True assms by (simp add: blocks_at_def)
next
  case False
  then have m: "m = BSIZE - off mod BSIZE" using assms(2) by simp
  have "off + m = BSIZE * Suc (off div BSIZE)"
    using mod_mult_div_eq [of off BSIZE] mod_less_divisor [of BSIZE off] unfolding m BSIZE_def mult_Suc_right by linarith
  then have z: "(off + m) mod BSIZE = 0" by simp
  have "off mod BSIZE + len + (BSIZE - 1) = BSIZE + ((off + m) mod BSIZE + (len - m) + (BSIZE - 1))"
    using False z mod_less_divisor [of BSIZE off] unfolding m by (simp add: BSIZE_def)
  then have "(off mod BSIZE + len + (BSIZE - 1)) div BSIZE = Suc (((off + m) mod BSIZE + (len - m) + (BSIZE - 1)) div BSIZE)"
    by (simp add: BSIZE_def)
  then show ?thesis using False assms m by (simp add: blocks_at_def)
qed

lemma splice_bytes:
  assumes "off mod BSIZE + length c \<le> BSIZE" "length d = BSIZE"
  shows "(if i div BSIZE = off div BSIZE then splice d (off mod BSIZE) c else e) ! (i mod BSIZE) =
    (if off \<le> i \<and> i < off + length c then c ! (i - off) else (if i div BSIZE = off div BSIZE then d else e) ! (i mod BSIZE))"
proof (cases "i div BSIZE = off div BSIZE")
  case True
  then have "off = off mod BSIZE + BSIZE * (i div BSIZE)" "i = i mod BSIZE + BSIZE * (i div BSIZE)" by (metis mod_mult_div_eq)+
  then have "off mod BSIZE \<le> i mod BSIZE \<and> i mod BSIZE < off mod BSIZE + length c \<longleftrightarrow> off \<le> i \<and> i < off + length c"
    "i mod BSIZE - off mod BSIZE = i - off" by linarith+
  moreover have "i mod BSIZE < length d" using assms(2) by (simp add: BSIZE_def)
  ultimately show ?thesis using True assms by (simp add: nth_splice)
next
  case False
  have "\<not> (off \<le> i \<and> i < off + length c)"
  proof
    assume a: "off \<le> i \<and> i < off + length c"
    then have "off div BSIZE \<le> i div BSIZE" by (simp add: div_le_mono)
    moreover have "i < BSIZE * (off div BSIZE) + BSIZE" using a assms(1) mod_mult_div_eq [of off BSIZE] by linarith
    then have "i div BSIZE < Suc (off div BSIZE)" by (simp add: BSIZE_def)
    ultimately show False using False by simp
  qed
  then show ?thesis using False by (simp only: if_False)
qed

lemma write_chunk:
  assumes "fs_txn p {} (6 + r) s" "file_ok s ip" "off < MAXFILE * BSIZE" "off mod BSIZE + length c \<le> BSIZE"
  obtains t where "bmap ip (of_nat (off div BSIZE)) s = Ret 0 t" "kept p (Suc r) ip s t" "\<forall>x. \<not> blk_free t x"
  | b t i v w u where "bmap ip (of_nat (off div BSIZE)) s = Ret b t" "b \<noteq> 0" "i_dev (itable t ip) = ROOTDEV" "bread ROOTDEV b t = Ret i v"
    "log_write i (upd_data i (\<lambda>d. splice d (off mod BSIZE) c) v) = Ret () w" "brelse i w = Ret () u" "grown p r ip s u"
    "\<forall>j < MAXFILE * BSIZE. fbyte u ip j = (if off \<le> j \<and> j < off + length c then c ! (j - off) else fbyte s ip j)"
    "ptr u ip (slot_of (off div BSIZE)) \<noteq> 0"
proof -
  let ?k = "off div BSIZE"
  have k: "?k < MAXFILE" using assms(3) by (simp add: BSIZE_def)
  have x: "fs_txn p {} (5 + Suc r) s" using assms(1) by simp
  obtain b t where t: "bmap ip (of_nat ?k) s = Ret b t" "kept p (Suc r) ip s t" "b = ptr t ip (slot_of ?k)" "b = 0 \<longrightarrow> (\<forall>x. \<not> blk_free t x)"
    by (rule bmap_ok [OF x assms(2) k])
  note a = keptD [OF t(2)] and d = file_okD [OF keptD(2) [OF t(2)]]
  show thesis
  proof (cases "b = 0")
    case True
    then show thesis using t that(1) by simp
  next
    case False
    then have own: "b \<in> owned t ip" using ptr_owned [OF slot_of_simps(3) [OF k], of t ip] t(3) by simp
    obtain i v where v: "bread ROOTDEV b t = Ret i v" "fs_txn p {b} r v" "slot v b = Some i" "b_data (bufs v i) = bval t b" "bval v = bval t"
      "log_frame t v"
      by (rule fs_bread [OF a(1) d(9-11) [OF own]])
    have lb: "length (bval t b) = BSIZE" by (rule length_bval [OF fs_txnD(2) [OF a(1)]])
    have len: "length (splice (bval t b) (off mod BSIZE) c) = BSIZE" using lb assms(4) by simp
    obtain w u where u: "log_write i (upd_buf i (\<lambda>x. x\<lparr>b_data := splice (bval t b) (off mod BSIZE) c\<rparr>) v) = Ret () w" "brelse i w = Ret () u"
      "fs_txn p {} r u" "bval u = (bval v)(b := splice (bval t b) (off mod BSIZE) c)" "log_frame v u"
      by (rule fs_write_release [OF v(2,3) len])
    have up: "upd_data i (\<lambda>d. splice d (off mod BSIZE) c) v = upd_buf i (\<lambda>x. x\<lparr>b_data := splice (bval t b) (off mod BSIZE) c\<rparr>) v"
      unfolding upd_data_def by (rule upd_buf_data [OF v(4)])
    note dw = data_write [OF a(2) k False [unfolded t(3)] u(4) [unfolded v(5) t(3)] u(3) log_frame_trans [OF v(6) u(5)]]
    have "fbyte u ip j = (if off \<le> j \<and> j < off + length c then c ! (j - off) else fbyte s ip j)" if "j < MAXFILE * BSIZE" for j
    proof -
      have j: "j div BSIZE < MAXFILE" using that by (simp add: BSIZE_def)
      have "fblock s ip ?k = bval t b" using a(3) [OF k] t(3) False by (simp add: fblock_def)
      then show ?thesis
        unfolding fbyte_def dw(2) [OF j] using splice_bytes [OF assms(4) lb, of j "fblock s ip (j div BSIZE)"] a(3) [OF j] t(3) by (auto split: if_splits)
    qed
    then show thesis
      using t(1) False d(1) v(1) u(1,2) up dw(3) grown_trans [OF kept_grown [OF t(2)] dw(1)] by (intro that(2) [of b t i v w u]) simp_all
  qed
qed

text \<open>The first \<open>w\<close> of the bytes \<open>bs\<close> have been written at \<open>off\<close>; not all of them only if the disk is full.\<close>

definition wrote :: "nat \<Rightarrow> nat \<Rightarrow> nat \<Rightarrow> nat \<Rightarrow> byte list \<Rightarrow> nat \<Rightarrow> 'z fs_state_scheme \<Rightarrow> 'z fs_state_scheme \<Rightarrow> bool" where
  "wrote p r ip off bs w s t \<longleftrightarrow> w \<le> length bs \<and> grown p r ip s t \<and> (w < length bs \<longrightarrow> (\<forall>x. \<not> blk_free t x)) \<and>
     (\<forall>j < MAXFILE * BSIZE. fbyte t ip j = (if off \<le> j \<and> j < off + w then bs ! (j - off) else fbyte s ip j)) \<and>
     (\<forall>j. off \<le> j \<and> j < off + w \<longrightarrow> ptr t ip (slot_of (j div BSIZE)) \<noteq> 0)"

lemma wrote_chain:
  assumes "grown p r' ip s u" "wrote p r ip (off + m) (drop m bs) w u t" "m \<le> length bs" "off + length bs \<le> MAXFILE * BSIZE"
    and "off mod BSIZE + m \<le> BSIZE" "ptr u ip (slot_of (off div BSIZE)) \<noteq> 0"
    and "\<forall>j < MAXFILE * BSIZE. fbyte u ip j = (if off \<le> j \<and> j < off + m then bs ! (j - off) else fbyte s ip j)"
  shows "wrote p r ip off bs (m + w) s t"
proof -
  have w: "w \<le> length bs - m" "grown p r ip u t" "w < length bs - m \<longrightarrow> (\<forall>x. \<not> blk_free t x)"
    "\<forall>j < MAXFILE * BSIZE. fbyte t ip j = (if off + m \<le> j \<and> j < off + m + w then drop m bs ! (j - (off + m)) else fbyte u ip j)"
    "\<forall>j. off + m \<le> j \<and> j < off + m + w \<longrightarrow> ptr t ip (slot_of (j div BSIZE)) \<noteq> 0"
    using assms(2) unfolding wrote_def by simp_all
  have "ptr t ip (slot_of (j div BSIZE)) \<noteq> 0" if j: "off \<le> j" "j < off + (m + w)" for j
  proof (cases "j < off + m")
    case True
    have "j < BSIZE * (off div BSIZE) + BSIZE" using True assms(5) mod_mult_div_eq [of off BSIZE] by linarith
    then have "j div BSIZE = off div BSIZE" using div_le_mono [OF j(1), of BSIZE] by (simp add: BSIZE_def)
    moreover have "off div BSIZE < MAXFILE" using True j assms(3,4) by (simp add: BSIZE_def)
    ultimately show ?thesis using grownD(4) [OF w(2) slot_of_simps(3)] assms(6) by simp
  next
    case False
    then show ?thesis using w(5) j by simp
  qed
  moreover have "fbyte t ip j = (if off \<le> j \<and> j < off + (m + w) then bs ! (j - off) else fbyte s ip j)" if "j < MAXFILE * BSIZE" for j
    using w(4) assms(7) that assms(3) w(1) by (cases "j < off + m") (auto simp: nth_drop)
  ultimately show ?thesis using grown_trans [OF assms(1) w(2)] w(1,3) assms(3) unfolding wrote_def by auto
qed

lemma wrote_0:
  assumes "grown p r ip s t" "\<forall>j < MAXFILE * BSIZE. fbyte t ip j = fbyte s ip j" "bs \<noteq> [] \<longrightarrow> (\<forall>x. \<not> blk_free t x)"
  shows "wrote p r ip off bs 0 s t"
  unfolding wrote_def using assms by auto

lemma writei_loop_ok:
  assumes "fs_txn p {} (6 * blocks_at off (length bs) + r) s" "file_ok s ip" "tot + length bs = n" "off + length bs \<le> MAXFILE * BSIZE"
  shows "\<exists>w t. writei_loop ip (Ksrc bs) off tot n s = Ret (tot + w, off + w) t \<and> wrote p r ip off bs w s t"
  using assms
proof (induction "length bs" arbitrary: bs off tot s rule: less_induct)
  case less
  let ?m = "min (length bs) (BSIZE - off mod BSIZE)"
  show ?case
  proof (cases "bs = []")
    case True
    then have "writei_loop ip (Ksrc bs) off tot n s = Ret (tot + 0, off + 0) s" using less(4) by (simp add: writei_loop.simps)
    moreover have "wrote p r ip off bs 0 s s"
      using True kept_grown [OF kept_refl [OF less(2) _ less(3)]] by (intro wrote_0) simp_all
    ultimately show ?thesis by blast
  next
    case False
    have len: "0 < length bs" using False by simp
    then have "off < MAXFILE * BSIZE" using less(5) by linarith
    then have m: "0 < ?m" "?m \<le> length bs" "off mod BSIZE + length (take ?m bs) \<le> BSIZE" "off < MAXFILE * BSIZE" "n - tot = length bs"
      "tot < n" using len less(4) mod_less_divisor [of BSIZE off] by (auto simp: BSIZE_def)
    have x: "fs_txn p {} (6 + (6 * blocks_at (off + ?m) (length bs - ?m) + r)) s"
      using less(2) blocks_at_step [of "length bs" ?m off] False by (simp add: add.assoc)
    show ?thesis
    proof (rule write_chunk [OF x less(3) m(4,3)], goal_cases)
      case (1 t)
      have "writei_loop ip (Ksrc bs) off tot n s = Ret (tot + 0, off + 0) t" using 1(1) m(6) by (subst writei_loop.simps) simp
      moreover have "grown p r ip s t" by (rule kept_grown [OF kept_mono [OF 1(2)]]) simp
      then have "wrote p r ip off bs 0 s t" using 1(3) keptD(3) [OF 1(2)] by (intro wrote_0) (simp_all add: fbyte_def BSIZE_def)
      ultimately show ?case by blast
    next
      case (2 b t i v w u)
      note g = grownD [OF 2(7)]
      have "length (drop ?m bs) < length bs" using m(1,2) by simp
      moreover have "fs_txn p {} (6 * blocks_at (off + ?m) (length (drop ?m bs)) + r) u" using g(1) by simp
      moreover have "tot + ?m + length (drop ?m bs) = n" "off + ?m + length (drop ?m bs) \<le> MAXFILE * BSIZE" using less(4,5) m(2) by simp_all
      ultimately obtain w' t' where t': "writei_loop ip (Ksrc (drop ?m bs)) (off + ?m) (tot + ?m) n u = Ret (tot + ?m + w', off + ?m + w') t'"
        "wrote p r ip (off + ?m) (drop ?m bs) w' u t'"
        using less(1) [of "drop ?m bs" "off + ?m" u "tot + ?m"] g(2) by metis
      have lt: "length (take ?m bs) = ?m" by simp
      have tk: "take ?m bs ! (j - off) = bs ! (j - off)" if "off \<le> j \<and> j < off + ?m" for j by (rule nth_take) (use that in linarith)
      have "\<forall>j < MAXFILE * BSIZE. fbyte u ip j = (if off \<le> j \<and> j < off + ?m then bs ! (j - off) else fbyte s ip j)"
        using 2(8) [unfolded lt] tk by (metis (no_types))
      then have "wrote p r ip off bs (?m + w') s t'"
        by (rule wrote_chain [OF 2(7) t'(2) m(2) less(5) m(3) [unfolded lt] 2(9)])
      moreover have "writei_loop ip (Ksrc bs) off tot n s = Ret (tot + (?m + w'), off + (?m + w')) t'"
        using 2(1-6) t'(1) m(6) by (subst writei_loop.simps) (simp add: m(5) either_copyin_def add.assoc Let_def)
      ultimately show ?case by blast
    qed
  qed
qed

section \<open>The inode on disk\<close>

lemma slice_entries: "k < length as \<Longrightarrow> slice (4 * k) 4 (concat (map (le_enc 4) as)) = le_enc 4 (as ! k)"
proof (induction as arbitrary: k)
  case (Cons a as)
  show ?case
  proof (cases k)
    case 0
    then show ?thesis by (simp add: slice_def)
  next
    case (Suc l)
    then show ?thesis using Cons(1) [of l] Cons(2) by (simp add: slice_def)
  qed
qed simp

text \<open>What \<^verbatim>\<open>iupdate\<close> puts into the block is what \<^verbatim>\<open>ilock\<close> gets from it; the other inodes of the block stay as they are.\<close>

lemma dinode_round_trip:
  assumes "length d = BSIZE" "length (i_addrs n) = NDIRECT + 1" "i_inum m = i_inum n"
  shows "get_dinode (put_dinode n d) m = m\<lparr>i_type := i_type n, i_major := i_major n, i_minor := i_minor n, i_nlink := i_nlink n,
    i_size := i_size n, i_addrs := i_addrs n\<rparr>"
proof -
  define o1 where "o1 = dinode_off (i_inum n)"
  define d1 where "d1 = wr16 d o1 (i_type n)"
  define d2 where "d2 = wr16 d1 (o1 + 2) (i_major n)"
  define d3 where "d3 = wr16 d2 (o1 + 4) (i_minor n)"
  define d4 where "d4 = wr16 d3 (o1 + 6) (i_nlink n)"
  define d5 where "d5 = wr32 d4 (o1 + 8) (i_size n)"
  define as where "as = concat (map (le_enc 4) (i_addrs n))"
  have o: "o1 + 64 \<le> BSIZE" unfolding o1_def by (rule dinode_off_le)
  have len: "length d1 = BSIZE" "length d2 = BSIZE" "length d3 = BSIZE" "length d4 = BSIZE" "length d5 = BSIZE" "length as = 52"
    using assms(1,2) o by (simp_all add: d1_def d2_def d3_def d4_def d5_def as_def length_concat comp_def sum_list_triv NDIRECT_def)
  have pd: "put_dinode n d = splice d5 (o1 + 12) as" by (simp add: put_dinode_def Let_def o1_def d1_def d2_def d3_def d4_def d5_def as_def)
  have r: "rd16 (splice d5 (o1 + 12) as) (o1 + j) = rd16 d5 (o1 + j)" if "j + 2 \<le> 12" for j
    unfolding rd16_def by (subst slice_splice_other) (use that len o in auto)
  have r5: "rd32 (splice d5 (o1 + 12) as) (o1 + 8) = i_size n"
    unfolding rd32_def by (subst slice_splice_other) (use len o assms(1) in \<open>auto simp: d5_def rd_wr_same(2) simp flip: rd32_def\<close>)
  have h: "rd16 d5 o1 = i_type n" "rd16 d5 (o1 + 2) = i_major n" "rd16 d5 (o1 + 4) = i_minor n" "rd16 d5 (o1 + 6) = i_nlink n"
    using len o assms(1) by (simp_all add: d5_def rd_wr_other(4), simp_all add: d4_def rd_wr_other(1) rd_wr_same(1),
      simp_all add: d3_def rd_wr_other(1) rd_wr_same(1), simp_all add: d2_def rd_wr_other(1) rd_wr_same(1), simp_all add: d1_def rd_wr_same(1))
  have "rd32 (splice d5 (o1 + 12) as) (o1 + 12 + 4 * k) = i_addrs n ! k" if "k < NDIRECT + 1" for k
  proof -
    have k: "4 * k + 4 \<le> length as" using that len(6) by (simp add: NDIRECT_def)
    have "slice (o1 + 12 + 4 * k) 4 (splice d5 (o1 + 12) as) = slice (4 * k) 4 as"
      using k len(5,6) o by (intro nth_equalityI) (auto simp: nth_slice nth_splice)
    then show ?thesis using slice_entries [of k "i_addrs n"] that assms(2) by (simp add: rd32_def as_def le_dec_enc)
  qed
  then have "map (\<lambda>k. rd32 (splice d5 (o1 + 12) as) (o1 + 12 + 4 * k)) [0..<NDIRECT + 1] = i_addrs n"
    using assms(2) by (intro nth_equalityI) (simp_all del: upt_Suc)
  then show ?thesis using r [of 0] r [of 2] r [of 4] r [of 6] r5 h assms(3) unfolding get_dinode_def Let_def pd by (simp flip: o1_def)
qed

section \<open>Reading\<close>

lemma read_block:
  assumes "fs_txn p {} (Suc r) s" "file_ok s ip" "b \<in> owned s ip"
  obtains i s1 t where "bread ROOTDEV b s = Ret i s1" "b_data (bufs s1 i) = bval s b" "itable s1 = itable s" "brelse i s1 = Ret () t"
    "fs_txn p {} (Suc r) t" "same_file s t"
proof -
  note d = file_okD [OF assms(2)]
  obtain i s1 where s1: "bread ROOTDEV b s = Ret i s1" "fs_txn p {b} r s1" "slot s1 b = Some i" "b_data (bufs s1 i) = bval s b"
    "bval s1 = bval s" "log_frame s s1"
    by (rule fs_bread [OF assms(1) d(9-11) [OF assms(3)]])
  obtain t where t: "brelse i s1 = Ret () t" "fs_txn p {} (Suc r) t" "bval t = bval s1" "log_frame s1 t"
    by (rule fs_brelse [OF s1(2,3)])
  have "same_file s t" by (rule same_fileI [OF log_frame_trans [OF s1(6) t(4)]]) (simp add: t(3) s1(5))
  then show thesis using s1(1,4) log_frame_fs(2) [OF s1(6)] t(1,2) by (intro that [of i s1 t])
qed

lemma bmap_hit:
  assumes "fs_txn p {} (Suc r) s" "file_ok s ip" "k < MAXFILE" "ptr s ip (slot_of k) \<noteq> 0"
  obtains t where "bmap ip (of_nat k) s = Ret (ptr s ip (slot_of k)) t" "fs_txn p {} (Suc r) t" "same_file s t"
proof -
  have u: "unat (of_nat k :: uint32) = k" using assms(3) by (simp add: unat_of_nat take_bit_nat_eq_self MAXFILE_def NDIRECT_def NINDIRECT_def BSIZE_def)
  show thesis
  proof (cases "k < NDIRECT")
    case True
    then have "bmap ip (of_nat k) s = Ret (ptr s ip (slot_of k)) s"
      unfolding bmap_def u using assms(4) by (simp add: ptr_def Let_def slot_of_def)
    then show thesis using assms(1) by (intro that [of s]) (simp_all add: same_file_def)
  next
    case k: False
    let ?d = "i_addrs (itable s ip) ! NDIRECT"
    have p: "ptr s ip (slot_of k) = rd32 (bval s ?d) (4 * (k - NDIRECT))" "?d \<noteq> 0"
      using assms(4) k by (auto simp: ptr_def Let_def slot_of_def split: if_splits)
    have "?d \<in> owned s ip" using ptr_owned [of NDIRECT s ip] p(2) by (simp add: ptr_def MAXFILE_def)
    then obtain i s1 t where t: "bread ROOTDEV ?d s = Ret i s1" "b_data (bufs s1 i) = bval s ?d" "itable s1 = itable s" "brelse i s1 = Ret () t"
      "fs_txn p {} (Suc r) t" "same_file s t"
      by (rule read_block [OF assms(1,2)])
    have "k - NDIRECT < NINDIRECT" using assms(3) k by (simp add: MAXFILE_def)
    then have "bmap ip (of_nat k) s = Ret (ptr s ip (slot_of k)) t"
      unfolding bmap_def u p(1) Let_def using k p t(1-4) assms(4) file_okD(1) [OF assms(2)] by simp
    then show thesis using t(5,6) by (intro that [of t])
  qed
qed

lemma same_file_trans: "same_file s t \<Longrightarrow> same_file t u \<Longrightarrow> same_file s u"
  by (simp add: same_file_def)

lemma block_pos:
  assumes "off mod BSIZE + i < BSIZE"
  shows "(off + i) div BSIZE = off div BSIZE" "(off + i) mod BSIZE = off mod BSIZE + i"
proof -
  have e: "off + i = off mod BSIZE + i + BSIZE * (off div BSIZE)" by simp
  have "(off mod BSIZE + i + BSIZE * (off div BSIZE)) div BSIZE = off div BSIZE" using assms by (subst div_mult_self2) (auto simp: BSIZE_def)
  then show "(off + i) div BSIZE = off div BSIZE" using e by argo
  have "(off mod BSIZE + i + BSIZE * (off div BSIZE)) mod BSIZE = off mod BSIZE + i" using assms by (subst mod_mult_self2) simp
  then show "(off + i) mod BSIZE = off mod BSIZE + i" using e by argo
qed

lemma readi_loop_ok:
  assumes "fs_txn p {} (Suc r) s" "file_ok s ip" "tot + len = n" "off + len \<le> MAXFILE * BSIZE"
    and "\<forall>j. off \<le> j \<and> j < off + len \<longrightarrow> ptr s ip (slot_of (j div BSIZE)) \<noteq> 0"
  shows "\<exists>t. readi_loop ip Kvar off tot n acc s = Ret (of_nat n, acc @ map (fbyte s ip) [off..<off + len]) t"
  using assms
proof (induction len arbitrary: off tot acc s rule: less_induct)
  case (less len)
  let ?m = "min len (BSIZE - off mod BSIZE)" and ?k = "off div BSIZE"
  show ?case
  proof (cases "len = 0")
    case True
    then show ?thesis using less(4) by (simp add: readi_loop.simps)
  next
    case False
    then have off: "off < MAXFILE * BSIZE" using less(5) by linarith
    then have k: "?k < MAXFILE" by (simp add: BSIZE_def)
    have m: "0 < ?m" "?m \<le> len" "off mod BSIZE + ?m \<le> BSIZE" "tot < n" "n - tot = len"
      using False less(4) mod_less_divisor [of BSIZE off] by (auto simp: BSIZE_def)
    have pk: "ptr s ip (slot_of ?k) \<noteq> 0" using less(6) False by simp
    obtain s1 where s1: "bmap ip (of_nat ?k) s = Ret (ptr s ip (slot_of ?k)) s1" "fs_txn p {} (Suc r) s1" "same_file s s1"
      by (rule bmap_hit [OF less(2,3) k pk])
    note e1 = same_file [OF s1(3)]
    have "ptr s ip (slot_of ?k) \<in> owned s1 ip" unfolding e1 by (rule ptr_owned [OF slot_of_simps(3) [OF k] pk])
    then obtain i s2 s3 where s3: "bread ROOTDEV (ptr s ip (slot_of ?k)) s1 = Ret i s2" "b_data (bufs s2 i) = bval s1 (ptr s ip (slot_of ?k))"
      "itable s2 = itable s1" "brelse i s2 = Ret () s3" "fs_txn p {} (Suc r) s3" "same_file s1 s3"
      by (rule read_block [OF s1(2) less(3) [folded e1(7)]])
    have sf: "same_file s s3" by (rule same_file_trans [OF s1(3) s3(6)])
    note e = same_file [OF sf]
    have bp: "(off + j) div BSIZE = ?k" "(off + j) mod BSIZE = off mod BSIZE + j" if "j < ?m" for j
      using that m(3) by (intro block_pos; linarith)+
    have bs: "slice (off mod BSIZE) ?m (b_data (bufs s2 i)) = map (fbyte s ip) [off..<off + ?m]"
      using m(3) length_bval [OF fs_txnD(2) [OF less(2)]] s3(2) e1(8) pk
      by (intro nth_equalityI) (simp_all add: nth_slice fbyte_def fblock_def bp)
    have fb: "fbyte s3 = fbyte s" using e(5) by (simp add: fbyte_def fun_eq_iff)
    have h: "len - ?m < len" "file_ok s3 ip" "tot + ?m + (len - ?m) = n" "off + ?m + (len - ?m) \<le> MAXFILE * BSIZE"
      using m(1,2) less(3-5) unfolding e by auto
    have p3: "\<forall>j. off + ?m \<le> j \<and> j < off + ?m + (len - ?m) \<longrightarrow> ptr s3 ip (slot_of (j div BSIZE)) \<noteq> 0"
      using less(6) m(2) unfolding e by simp
    obtain t where t: "readi_loop ip Kvar (off + ?m) (tot + ?m) n (acc @ map (fbyte s ip) [off..<off + ?m]) s3 =
        Ret (of_nat n, (acc @ map (fbyte s ip) [off..<off + ?m]) @ map (fbyte s ip) [off + ?m..<off + ?m + (len - ?m)]) t"
      using less(1) [OF h(1) s3(5) h(2-4) p3, of "acc @ map (fbyte s ip) [off..<off + ?m]"] unfolding fb by (elim exE)
    have up: "[off..<off + len] = [off..<off + ?m] @ [off + ?m..<off + ?m + (len - ?m)]"
      using m(2) upt_add_eq_append [of off "off + ?m" "len - ?m"] by simp
    have "readi_loop ip Kvar off tot n acc s =
        readi_loop ip Kvar (off + ?m) (tot + ?m) n (acc @ map (fbyte s ip) [off..<off + ?m]) s3"
      using s1(1) s3(1,3,4) pk m(4) bs file_okD(1) [OF less(3)] e1(10)
      by (subst readi_loop.simps) (simp add: m(5) either_copyout_def Let_def)
    then show ?thesis using t up by simp
  qed
qed

section \<open>Write, then read\<close>

lemma iupdate_ok:
  assumes "fs_txn p {} (Suc r) s" "file_ok s ip"
  obtains t where "iupdate ip s = Ret () t" "fs_txn p {} r t" "log_frame s t"
    "bval t = (bval s)(iblk s ip := put_dinode (itable s ip) (bval s (iblk s ip)))"
proof -
  note d = file_okD [OF assms(2)]
  let ?b = "iblk s ip" and ?v = "put_dinode (itable s ip) (bval s (iblk s ip))"
  obtain i s1 where s1: "bread ROOTDEV ?b s = Ret i s1" "fs_txn p {?b} r s1" "slot s1 ?b = Some i" "b_data (bufs s1 i) = bval s ?b"
    "bval s1 = bval s" "log_frame s s1"
    by (rule fs_bread [OF assms(1) d(4-6)])
  have len: "length ?v = BSIZE" using length_bval [OF fs_txnD(2) [OF assms(1)]] d(2) by simp
  obtain w t where t: "log_write i (upd_buf i (\<lambda>x. x\<lparr>b_data := ?v\<rparr>) s1) = Ret () w" "brelse i w = Ret () t" "fs_txn p {} r t"
    "bval t = (bval s1)(?b := ?v)" "log_frame s1 t"
    by (rule fs_write_release [OF s1(2,3) len])
  have "upd_data i (put_dinode (itable s ip)) s1 = upd_buf i (\<lambda>x. x\<lparr>b_data := ?v\<rparr>) s1"
    unfolding upd_data_def by (rule upd_buf_data [OF s1(4)])
  then have "iupdate ip s = Ret () t"
    using s1(1) t(1,2) d(1) log_frame_fs(2) [OF s1(6)] by (simp add: iupdate_def iblk_def)
  then show thesis using t(3,4) s1(5) log_frame_trans [OF s1(6) t(5)] by (intro that [of t]) simp_all
qed

text \<open>Neither the block of the inode nor the size is part of the content.\<close>

lemma inode_write:
  assumes "file_ok s ip" "bval t = (bval s)(iblk s ip := v)" "log_frame s t"
  shows "file_ok t ip" "k < MAXFILE \<Longrightarrow> fblock t ip k = fblock s ip k" "ptr t ip = ptr s ip" "owned t ip = owned s ip" "blk_free t = blk_free s"
proof -
  note d = file_okD [OF assms(1)]
  have e: "sb t = sb s" "itable t = itable s" "home_block t = home_block s" "bmap_block t = bmap_block s" "iblk t = iblk s"
    using log_frame_fs [OF assms(3)] home_block_frame [OF assms(3)] by (simp_all add: bmap_block_def iblk_def fun_eq_iff)
  have i: "ptr s ip NDIRECT = i_addrs (itable s ip) ! NDIRECT" by (simp add: ptr_def Let_def)
  have no: "ptr s ip j \<noteq> iblk s ip" if "j \<le> MAXFILE" "ptr s ip j \<noteq> 0" for j using ptr_owned [OF that] d(7) by auto
  show p: "ptr t ip = ptr s ip" using no [of NDIRECT] assms(2) e(2) unfolding i by (intro ext) (auto simp: ptr_def Let_def MAXFILE_def)
  show o: "owned t ip = owned s ip" using p by (simp add: owned_def)
  show f: "blk_free t = blk_free s" using d(5) assms(2) e(1,4) by (intro ext) (auto simp: blk_free_def)
  show "file_ok t ip" using assms(1) unfolding file_ok_def e f o p .
  show "fblock t ip k = fblock s ip k" if "k < MAXFILE"
    using no [OF slot_of_simps(3) [OF that]] assms(2) p by (simp add: fblock_def)
qed

lemma size_write:
  fixes s :: "'z fs_state_scheme" and ip :: nat and x :: uint32
  defines "t \<equiv> upd_inode ip (\<lambda>n. n\<lparr>i_size := x\<rparr>) s"
  shows "file_ok t ip = file_ok s ip" "fblock t ip = fblock s ip" "ptr t ip = ptr s ip" "owned t ip = owned s ip" "bval t = bval s"
    "blk_free t = blk_free s" "fs_txn p L k t = fs_txn p L k s" "iblk t ip = iblk s ip" "bmap_block t = bmap_block s" "sb t = sb s"
    "itable t ip = (itable s ip)\<lparr>i_size := x\<rparr>"
proof -
  show p: "ptr t ip = ptr s ip" by (intro ext) (auto simp: t_def ptr_def upd_inode_def Let_def)
  show o: "owned t ip = owned s ip" using p by (simp add: owned_def)
  show "fblock t ip = fblock s ip" using p by (intro ext) (auto simp: fblock_def t_def upd_inode_def)
  show "bval t = bval s" "blk_free t = blk_free s" "fs_txn p L k t = fs_txn p L k s" "bmap_block t = bmap_block s" "sb t = sb s"
    "itable t ip = (itable s ip)\<lparr>i_size := x\<rparr>"
    by (simp_all add: t_def upd_inode_def fs_txn_itable)
  show i: "iblk t ip = iblk s ip" by (simp add: t_def iblk_def upd_inode_def)
  show "file_ok t ip = file_ok s ip" unfolding file_ok_def p o i by (simp add: t_def upd_inode_def)
qed

lemma unat_small: "n \<le> MAXFILE * BSIZE \<Longrightarrow> unat (of_nat n :: uint32) = n"
  by (simp add: unat_of_nat take_bit_nat_eq_self MAXFILE_def NDIRECT_def NINDIRECT_def BSIZE_def)

text \<open>Putting the new size and pointers on disk at the end of \<^verbatim>\<open>writei\<close>.\<close>

lemma writei_finish:
  assumes "wrote p (Suc r) ip off bs w s t" "off + w \<le> MAXFILE * BSIZE"
  defines "t' \<equiv> (if off + w > unat (i_size (itable t ip)) then upd_inode ip (\<lambda>n. n\<lparr>i_size := of_nat (off + w)\<rparr>) t else t)"
  obtains u where "iupdate ip t' = Ret () u" "fs_txn p {} r u" "file_ok u ip" "itable u = itable t'" "owned u ip = owned t ip"
    "ptr u ip = ptr t ip" "\<forall>k < MAXFILE. fblock u ip k = fblock t ip k" "blk_free u = blk_free t"
    "bval u = (bval t)(iblk s ip := put_dinode (itable t' ip) (bval t (iblk s ip)))"
    "unat (i_size (itable u ip)) = max (unat (i_size (itable s ip))) (off + w)" "i_inum (itable u ip) = i_inum (itable s ip)"
proof -
  have g: "grown p (Suc r) ip s t" using assms(1) by (simp add: wrote_def)
  note a = grownD [OF g]
  obtain as where it: "itable t ip = (itable s ip)\<lparr>i_addrs := as\<rparr>" using a(8) by auto
  have t': "file_ok t' ip" "fblock t' ip = fblock t ip" "ptr t' ip = ptr t ip" "owned t' ip = owned t ip" "bval t' = bval t"
    "blk_free t' = blk_free t" "fs_txn p {} (Suc r) t'" "iblk t' ip = iblk s ip"
    using a(1,2,11) size_write [where ip = ip and x = "of_nat (off + w)" and s = t] by (simp_all add: t'_def)
  obtain u where u: "iupdate ip t' = Ret () u" "fs_txn p {} r u" "log_frame t' u"
    "bval u = (bval t')(iblk t' ip := put_dinode (itable t' ip) (bval t' (iblk t' ip)))"
    by (rule iupdate_ok [OF t'(7,1)])
  note b = inode_write [OF t'(1) u(4,3)]
  have iu: "itable u = itable t'" by (rule log_frame_fs(2) [OF u(3)])
  note unat_small [OF assms(2)]
  then have sz: "unat (i_size (itable t' ip)) = max (unat (i_size (itable s ip))) (off + w)" "i_inum (itable t' ip) = i_inum (itable s ip)"
    using size_write(11) [where ip = ip and x = "of_nat (off + w)" and s = t] it by (auto simp: t'_def max_def simp del: of_nat_add)
  show thesis
    by (rule that [of u]) (use u(1,2,4) b iu t' sz in simp_all)
qed

lemma written_bytes:
  assumes "\<forall>j < N. f j = (if off \<le> j \<and> j < off + w then bs ! (j - off) else g j)" "off + w \<le> N" "w \<le> length bs"
  shows "map f [off..<off + w] = take w bs"
  using assms by (intro nth_equalityI) simp_all

lemma off_plus:
  assumes "unat (off :: uint32) + n \<le> MAXFILE * BSIZE"
  shows "unat (of_nat n :: uint32) = n" "unat (off + of_nat n) = unat off + n" "\<not> off + of_nat n < off"
proof -
  show n: "unat (of_nat n :: uint32) = n" using assms by (intro unat_small) simp
  show p: "unat (off + of_nat n) = unat off + n"
    using assms n by (simp add: unat_word_ariths(1) MAXFILE_def NDIRECT_def NINDIRECT_def BSIZE_def)
  show "\<not> off + of_nat n < off" using p by (simp add: word_less_nat_alt)
qed

lemma writei_eq:
  assumes "off \<le> i_size (itable s ip)" "unat off + n \<le> MAXFILE * BSIZE"
    and "writei_loop ip src (unat off) 0 n s = Ret (w, o1) t"
    and "iupdate ip (if o1 > unat (i_size (itable t ip)) then upd_inode ip (\<lambda>n. n\<lparr>i_size := of_nat o1\<rparr>) t else t) = Ret () u"
  shows "writei ip src off (of_nat n) s = Ret (of_nat w) u"
proof -
  note o = off_plus [OF assms(2)]
  have "\<not> off > i_size (itable s ip)" "\<not> unat (off + of_nat n) > MAXFILE * BSIZE" using assms(1,2) o(2) by simp_all
  then show ?thesis unfolding writei_def o(1) using o(3) assms(3,4) by (simp only: if_False simp_thms bnd.simps case_prod_conv Let_def)
qed

lemma readi_eq:
  assumes "fs_txn p {} (Suc r) s" "file_ok s ip" "unat off + w \<le> unat (i_size (itable s ip))" "unat off + w \<le> MAXFILE * BSIZE"
    and "\<forall>j. unat off \<le> j \<and> j < unat off + w \<longrightarrow> ptr s ip (slot_of (j div BSIZE)) \<noteq> 0"
  shows "\<exists>t. readi ip Kvar off (of_nat w) s = Ret (of_nat w, map (fbyte s ip) [unat off..<unat off + w]) t"
proof -
  note o = off_plus [OF assms(4)]
  have "\<not> off > i_size (itable s ip)" "\<not> off + of_nat w > i_size (itable s ip)" using assms(3) o(2) by (simp_all add: word_less_nat_alt)
  then have "readi ip Kvar off (of_nat w) s = readi_loop ip Kvar (unat off) 0 w [] s"
    unfolding readi_def Let_def using o(3) by (simp only: if_False simp_thms o(1))
  then show ?thesis using readi_loop_ok [OF assms(1,2) _ assms(4,5), of 0 w "[]"] by simp
qed

text \<open>
  C2. A file reads as it was written. Within a transaction that has room for it, \<^verbatim>\<open>writei\<close> of any bytes at an offset inside a
  well-formed file or at its end stores them there, all of them or, if the disk fills up, those before the first missing block; it
  changes no other byte of the file, extends the size if needed, brings the inode on disk up to date, and changes no block of the disk
  outside the file, its inode and the bitmap, adding only blocks that were free. \<^verbatim>\<open>readi\<close> of the same range then returns those bytes.
\<close>

theorem file_reads_as_written:
  assumes "fs_txn p {} (6 * blocks_at (unat off) (length bs) + 2) s" "file_ok s ip" "off \<le> i_size (itable s ip)"
    and "unat off + length bs \<le> MAXFILE * BSIZE"
  shows "\<exists>w t u. writei ip (Ksrc bs) off (of_nat (length bs)) s = Ret (of_nat w) t \<and>
    w \<le> length bs \<and> (w < length bs \<longrightarrow> (\<forall>x. \<not> blk_free t x)) \<and> file_ok t ip \<and>
    unat (i_size (itable t ip)) = max (unat (i_size (itable s ip))) (unat off + w) \<and>
    (\<forall>j < MAXFILE * BSIZE. fbyte t ip j = (if unat off \<le> j \<and> j < unat off + w then bs ! (j - unat off) else fbyte s ip j)) \<and>
    get_dinode (bval t (iblk s ip)) (itable t ip) = itable t ip \<and>
    owned s ip \<subseteq> owned t ip \<and> owned t ip \<subseteq> owned s ip \<union> {b. blk_free s (unat b)} \<and>
    (\<forall>b. b \<notin> owned t ip \<and> \<not> in_bitmap s b \<and> b \<noteq> iblk s ip \<longrightarrow> bval t b = bval s b) \<and>
    readi ip Kvar off (of_nat w) t = Ret (of_nat w, take w bs) u"
proof -
  have x: "fs_txn p {} (6 * blocks_at (unat off) (length bs) + Suc (Suc 0)) s" using assms(1) by simp
  obtain w t where t: "writei_loop ip (Ksrc bs) (unat off) 0 (length bs) s = Ret (0 + w, unat off + w) t"
    "wrote p (Suc (Suc 0)) ip (unat off) bs w s t"
    using writei_loop_ok [OF x assms(2) _ assms(4), of 0] by auto
  have w: "w \<le> length bs" "grown p (Suc (Suc 0)) ip s t" "w < length bs \<longrightarrow> (\<forall>x. \<not> blk_free t x)"
    "\<forall>j < MAXFILE * BSIZE. fbyte t ip j = (if unat off \<le> j \<and> j < unat off + w then bs ! (j - unat off) else fbyte s ip j)"
    "\<forall>j. unat off \<le> j \<and> j < unat off + w \<longrightarrow> ptr t ip (slot_of (j div BSIZE)) \<noteq> 0"
    using t(2) unfolding wrote_def by simp_all
  note g = grownD [OF w(2)]
  have ow: "unat off + w \<le> MAXFILE * BSIZE" using w(1) assms(4) by linarith
  define t' where "t' = (if unat off + w > unat (i_size (itable t ip)) then upd_inode ip (\<lambda>n. n\<lparr>i_size := of_nat (unat off + w)\<rparr>) t else t)"
  obtain u where u: "iupdate ip t' = Ret () u" "fs_txn p {} (Suc 0) u" "file_ok u ip" "itable u = itable t'" "owned u ip = owned t ip"
    "ptr u ip = ptr t ip" "\<forall>k < MAXFILE. fblock u ip k = fblock t ip k" "blk_free u = blk_free t"
    "bval u = (bval t)(iblk s ip := put_dinode (itable t' ip) (bval t (iblk s ip)))"
    "unat (i_size (itable u ip)) = max (unat (i_size (itable s ip))) (unat off + w)" "i_inum (itable u ip) = i_inum (itable s ip)"
    by (rule writei_finish [OF t(2) ow, folded t'_def])
  have "writei ip (Ksrc bs) off (of_nat (length bs)) s = Ret (of_nat w) u"
    using t(1) by (intro writei_eq [OF assms(3,4) _ u(1) [unfolded t'_def]]) simp
  moreover have fb: "fbyte u ip j = fbyte t ip j" if "j < MAXFILE * BSIZE" for j using u(7) that by (simp add: fbyte_def BSIZE_def)
  moreover have "get_dinode (bval u (iblk s ip)) (itable u ip) = itable u ip"
    using dinode_round_trip [of "bval t (iblk s ip)" "itable u ip" "itable u ip"] length_bval [OF fs_txnD(2) [OF g(1)]] file_okD(2) [OF u(3)] u(4,9)
    by simp
  moreover have fw: "\<forall>j < MAXFILE * BSIZE. fbyte u ip j = (if unat off \<le> j \<and> j < unat off + w then bs ! (j - unat off) else fbyte s ip j)"
    using w(4) fb by simp
  moreover have "\<exists>v. readi ip Kvar off (of_nat w) u = Ret (of_nat w, take w bs) v"
    using readi_eq [OF u(2,3) _ ow] u(6,10) w(5) written_bytes [OF fw ow w(1)] by simp
  moreover have "\<forall>b. b \<notin> owned u ip \<and> \<not> in_bitmap s b \<and> b \<noteq> iblk s ip \<longrightarrow> bval u b = bval s b" using g(5) u(5,9) by simp
  ultimately show ?thesis using w(1,3) u(3,5,8,10) g(3,12) by (elim exE) (intro exI [of _ w] exI [of _ u] exI conjI; simp)
qed

text \<open>The empty file of inode 1 on the disk of 200 blocks.\<close>

definition empty_file :: inode where
  "empty_file = \<lparr>i_dev = ROOTDEV, i_inum = 1, i_ref = 1, i_valid = True, i_type = T_FILE, i_major = 0, i_minor = 0, i_nlink = 1, i_size = 0,
     i_addrs = replicate 13 0\<rparr>"

theorem file_reads_as_written_witness:
  "\<exists>s0 s w t u. binit fs_start = Ret () s0 \<and> s = s0\<lparr>itable := (itable s0)(0 := empty_file)\<rparr> \<and>
     writei 0 (Ksrc [7, 8, 9]) 0 3 s = Ret (of_nat w) t \<and> w \<le> 3 \<and> unat (i_size (itable t 0)) = w \<and>
     readi 0 Kvar 0 (of_nat w) t = Ret (of_nat w, take w [7, 8, 9]) u"
proof -
  have k: "(8 :: nat) < 20" by simp
  obtain s0 where s0: "binit fs_start = Ret () s0" "fs_txn 0 {} 8 s0" "\<forall>b. blk_free s0 b \<longleftrightarrow> 48 \<le> b \<and> b < 200" "log_frame fs_start s0"
      "\<forall>b < 2 ^ 31. bval s0 (of_nat b) = disk fs_start b" "\<forall>b < 200. bmap_block s0 b = 45"
    by (rule fs_start_txn [OF k])
  note g = log_frame_simps [OF s0(4)] log_frame_fs(1) [OF s0(4)]
  define s where "s = s0\<lparr>itable := (itable s0)(0 := empty_file)\<rparr>"
  have a: "i_addrs (itable s 0) = replicate 13 0" by (simp add: s_def empty_file_def)
  have p: "ptr s 0 j = 0" for j by (cases "j \<le> NDIRECT") (auto simp: ptr_def Let_def a NDIRECT_def)
  have i: "iblk s 0 = 32" using g by (simp add: iblk_def IBLOCK_def s_def empty_file_def fs_start_simps IPB_def BSIZE_def)
  have h: "home_block s 32" using g by (simp add: s_def home_block_def log_area_def fs_start_simps LOGSIZE_def MAXOPBLOCKS_def)
  have "file_ok s 0"
    unfolding file_ok_def i owned_def using p a h s0(3,6) g by (auto simp: s_def empty_file_def NDIRECT_def fs_start_simps)
  moreover have "fs_txn 0 {} (6 * blocks_at (unat (0 :: uint32)) (length [7, 8, 9 :: byte]) + 2) s"
    using s0(2) by (simp add: s_def fs_txn_itable blocks_at_def BSIZE_def)
  moreover have "unat (0 :: uint32) + length [7, 8, 9 :: byte] \<le> MAXFILE * BSIZE" by (simp add: MAXFILE_def NDIRECT_def BSIZE_def)
  ultimately obtain w t u where "writei 0 (Ksrc [7, 8, 9]) 0 (of_nat (length [7, 8, 9 :: byte])) s = Ret (of_nat w) t" "w \<le> length [7, 8, 9 :: byte]"
    "unat (i_size (itable t 0)) = max (unat (i_size (itable s 0))) (unat (0 :: uint32) + w)"
    "readi 0 Kvar 0 (of_nat w) t = Ret (of_nat w, take w [7, 8, 9]) u"
    using file_reads_as_written [of 0 0 "[7, 8, 9]" s 0] by auto
  then show ?thesis using s0(1) by (intro exI [of _ s0] exI [of _ s] exI [of _ w] exI [of _ t] exI [of _ u]) (simp add: s_def empty_file_def)
qed

end
