(* ===== verification/Spec2Isabelle.thy ===== *)
theory Spec2Isabelle
  imports Spinlock Example Asm Grep Inodeio
begin

text \<open>
  Verification of the xv6 kernel of this repository: \<^verbatim>\<open>xv6-env/kernel\<close> and parts of what surrounds it.

  \<^bold>\<open>The program.\<close> xv6 is a small Unix for RISC-V. A trap from user space or from the kernel enters
  \<^verbatim>\<open>kernel/trap.c\<close>, which dispatches device interrupts and, through \<^verbatim>\<open>kernel/syscall.c\<close>, the system calls of
  \<^verbatim>\<open>sysproc.c\<close> and \<^verbatim>\<open>sysfile.c\<close>. Those call the process table (\<^verbatim>\<open>proc.c\<close>, \<^verbatim>\<open>exec.c\<close>), virtual memory
  (\<^verbatim>\<open>vm.c\<close> over \<^verbatim>\<open>kalloc.c\<close>), open files (\<^verbatim>\<open>file.c\<close>, \<^verbatim>\<open>pipe.c\<close>, \<^verbatim>\<open>console.c\<close> over \<^verbatim>\<open>uart.c\<close>) and the file system
  (\<^verbatim>\<open>fs.c\<close> over the log \<^verbatim>\<open>log.c\<close>, the buffer cache \<^verbatim>\<open>bio.c\<close> and the disk driver \<^verbatim>\<open>virtio_disk.c\<close>). Spin locks
  (\<^verbatim>\<open>spinlock.c\<close>) and sleep locks (\<^verbatim>\<open>sleeplock.c\<close>) protect all of it.

  \<^bold>\<open>The model.\<close> The kernel's globals are a record that grows with the layers: \<open>kstate\<close> (process table, locks held,
  console output), then memory, sleep locks, buffers and disk, log, inodes, console, pipes, file table, process
  globals, virtio rings, and at the top \<open>trap_state\<close> with the control registers. A C function is a HOL function of the same name
  from the state to an outcome \<open>res\<close>: \<open>Ret v s\<close> (it returns), \<open>Panic msg\<close> (it calls \<^verbatim>\<open>panic\<close> with that message;
  dereferencing a null pointer is \<open>Panic ''kerneltrap''\<close>, which is what \<^verbatim>\<open>kerneltrap\<close> then does), or \<open>Sleep c s\<close> (the process
  goes to sleep on channel \<open>c\<close>). A function that can sleep has a companion \<open>_resume\<close> that continues after the
  sleep. \<open>bnd\<close> composes outcomes, \<open>foreach\<close> is a \<^verbatim>\<open>for\<close> loop. Machine integers are words of C's width; memory is a
  function from 64-bit addresses to bytes and page tables live in it; on-disk structures are bytes of 1024-byte blocks.

  \<^bold>\<open>Theories.\<close>
  \<^item> \<open>Prelude\<close>: outcomes, lists and bytes, little-endian encoding. \<open>Kstate\<close>: \<^verbatim>\<open>proc.h\<close>, \<^verbatim>\<open>sleep\<close>, \<^verbatim>\<open>wakeup\<close>, \<^verbatim>\<open>sched\<close>, \<^verbatim>\<open>kill\<close>.
  \<^item> \<open>Spinlock\<close> (\<^verbatim>\<open>spinlock.c\<close>): several harts, each shared access a step of its own; mutual exclusion, and that the
    set-of-locks view the other theories use is what \<^verbatim>\<open>acquire\<close> and \<^verbatim>\<open>release\<close> do.
  \<^item> \<open>Kstring\<close> (\<^verbatim>\<open>string.c\<close>), \<open>Kalloc\<close> (\<^verbatim>\<open>kalloc.c\<close>: the free list refines a set of pages), \<open>Sleeplock\<close>
    (\<^verbatim>\<open>sleeplock.c\<close>: exclusion and no lost wake-up), \<open>Printf\<close> (\<^verbatim>\<open>printf.c\<close>).
  \<^item> \<open>Bio\<close> (\<^verbatim>\<open>bio.c\<close>: cached reads, least-recently-used recycling), \<open>Log\<close> and \<open>Txn\<close> (\<^verbatim>\<open>log.c\<close>: transactions are
    atomic whatever disk write a crash cuts off, admission and absorption).
  \<^item> \<open>Vm\<close>, \<open>Pagetable\<close>, \<open>Ucopy\<close> (\<^verbatim>\<open>vm.c\<close>): definitions; page tables as trees and \<^verbatim>\<open>mappages\<close>; \<^verbatim>\<open>copyin\<close>/\<^verbatim>\<open>copyout\<close>.
  \<^item> \<open>Fs\<close> (\<^verbatim>\<open>fs.c\<close>), \<open>Ring\<close> (ring buffers with wrapping counters, a locale), \<open>Console\<close> (\<^verbatim>\<open>console.c\<close>, \<^verbatim>\<open>uart.c\<close>), \<open>Pipe\<close>
    (\<^verbatim>\<open>pipe.c\<close>): the three ring buffers are queues.
  \<^item> \<open>Fsprops\<close>, \<open>Filemap\<close>, \<open>Inodeio\<close> (\<^verbatim>\<open>fs.c\<close> over \<open>Txn\<close>): inside a transaction the bitmap hands out every block once, the
    inode table counts references, \<^verbatim>\<open>bmap\<close> never changes what a file reads as, and \<^verbatim>\<open>readi\<close> returns what \<^verbatim>\<open>writei\<close> wrote.
  \<^item> \<open>File\<close> (\<^verbatim>\<open>file.c\<close>), \<open>Proc\<close> (\<^verbatim>\<open>proc.c\<close>; the scheduler runs every runnable process in every round), \<open>Exec\<close> (\<^verbatim>\<open>exec.c\<close>), \<open>Sysproc\<close>, \<open>Sysfile\<close>, \<open>Virtio\<close>
    (\<^verbatim>\<open>virtio_disk.c\<close>), \<open>Trap\<close> (\<^verbatim>\<open>trap.c\<close>, \<^verbatim>\<open>syscall.c\<close>, \<^verbatim>\<open>plic.c\<close>, \<^verbatim>\<open>main.c\<close>).
  \<^item> \<open>Asm\<close> (\<^verbatim>\<open>entry.S\<close>, \<^verbatim>\<open>start.c\<close>, \<^verbatim>\<open>swtch.S\<close>, \<^verbatim>\<open>trampoline.S\<close>, \<^verbatim>\<open>kernelvec.S\<close>): the assembly instruction by instruction on the
    registers and memory of a hart; saved and restored registers agree with the C structures, and booting reaches \<^verbatim>\<open>main\<close>.
  \<^item> \<open>Grep\<close> (\<^verbatim>\<open>user/grep.c\<close>): the matcher decides the pattern language, and \<^verbatim>\<open>grep\<close> prints the matching lines.
  \<^item> \<open>Discipline\<close>: rules for every function composed over the whole kernel: a system call leaves no lock and no file system
    operation behind, and every array keeps its size. \<open>Example\<close>: a concrete machine on which the
    properties that need one are applied.

  \<^bold>\<open>Bounds.\<close> Loops over tables are recursion over lists of indices; loops over buffers recurse on what is left. \<open>walk_loop\<close>
  and \<open>freewalk\<close> recurse on the level of the page table, which is 2 at the root. \<open>uartintr_loop\<close> and \<open>uartstart_loop\<close> run as
  often as there are characters. \<open>scheduler\<close> is given the number of rounds of its endless loop. \<open>grep_loop\<close> reads until the file ends, which
  it need not; it is a partial function, and that it returns on a finite file is proved. No definition runs out of fuel. The room in the log
  that the properties of \<open>fs.c\<close> ask for is six blocks for each block written, with a block logged twice counted twice; the largest piece
  \<^verbatim>\<open>filewrite\<close> passes to \<^verbatim>\<open>writei\<close>, at most four blocks, fits the 29 blocks of an empty log.

  \<^bold>\<open>Not modelled.\<close> \<^verbatim>\<open>ramdisk.c\<close>, which is not linked; \<^verbatim>\<open>defs.h\<close>, which only declares; TLB and memory fences, which have no
  counterpart in the memory model; the user library, the other user programs and the tests, which run outside the kernel; \<^verbatim>\<open>mkfs\<close>, which
  runs on the host. The instructions of the stubs are those the sources use; address translation on the way into and out of the kernel is
  an argument. Between the calls of one process the model does not interleave other harts except in \<open>Spinlock\<close> and \<open>Sleeplock\<close>: elsewhere
  the locks held stand for that.
\<close>

end
